(* ===== verification/Prelude.thy ===== *)
theory Prelude
  imports Main "HOL-Library.Word"
begin

text \<open>
  Shared vocabulary of the development: the Rust integer types, the results of fallible
  and of polled operations, big-endian byte strings, slices of fixed-size buffers and the
  correspondence between Rust strings and byte sequences.

  A Rust \<^verbatim>\<open>&str\<close> or \<^verbatim>\<open>String\<close> is a \<^typ>\<open>string\<close>: the list of its UTF-8 bytes, one
  \<^typ>\<open>char\<close> per byte. \<^verbatim>\<open>Bytes\<close>, \<^verbatim>\<open>BytesMut\<close>, \<^verbatim>\<open>Vec<u8>\<close> and \<^verbatim>\<open>[u8]\<close> are the list of
  the bytes they hold. A \<^verbatim>\<open>usize\<close> is a \<^typ>\<open>nat\<close>; the fixed-width integers are words.
\<close>

unbundle bit_operations_syntax

section \<open>Types\<close>

type_synonym byte = "8 word"
type_synonym u16 = "16 word"
type_synonym u32 = "32 word"
type_synonym u64 = "64 word"

datatype error_kind =
    BrokenPipe | ConnectionAborted | InvalidData | InvalidInput | Interrupted
  | OtherKind | PermissionDenied | TimedOut | UnexpectedEof | Unsupported | WriteZero

text \<open>An \<^verbatim>\<open>io::Error\<close>: its kind and the fixed part of its message (interpolated values are
  left out, since no control flow depends on them).\<close>

datatype io_error = IoError (err_kind: error_kind) (err_msg: string)

text \<open>Result of a fallible operation. \<open>Panic\<close> is a Rust panic: an index out of range, a
  failed \<^verbatim>\<open>assert!\<close>, an \<^verbatim>\<open>unwrap\<close> of nothing.\<close>

datatype 'a res = Ok 'a | Err io_error | Panic

datatype 'a poll = Ready 'a | Pending

abbreviation other_error :: "string \<Rightarrow> io_error" where
  "other_error m \<equiv> IoError OtherKind m"

text \<open>The \<^verbatim>\<open>?\<close> operator.\<close>

fun bind_res :: "'a res \<Rightarrow> ('a \<Rightarrow> 'b res) \<Rightarrow> 'b res" where
  "bind_res (Ok x) f = f x"
| "bind_res (Err e) f = Err e"
| "bind_res Panic f = Panic"

fun res_of_option :: "io_error \<Rightarrow> 'a option \<Rightarrow> 'a res" where
  "res_of_option e (Some x) = Ok x"
| "res_of_option e None = Err e"

lemma bind_res_Ok_iff: "bind_res m f = Ok y \<longleftrightarrow> (\<exists>x. m = Ok x \<and> f x = Ok y)"
  by (cases m) auto

lemma bind_res_Panic_iff: "bind_res m f = Panic \<longleftrightarrow> m = Panic \<or> (\<exists>x. m = Ok x \<and> f x = Panic)"
  by (cases m) auto

lemma res_of_option_Ok_iff [simp]: "res_of_option e m = Ok y \<longleftrightarrow> m = Some y"
  by (cases m) auto

lemma res_of_option_not_Panic [simp]: "res_of_option e m \<noteq> Panic"
  by (cases m) auto

lemma unat_ucast_mod:
  fixes w :: "'a::len word"
  shows "unat (ucast w :: 'b::len word) = unat w mod 2 ^ LENGTH('b)"
  by (simp add: unsigned_ucast_eq take_bit_eq_mod)

lemma poll_res_exhaust [case_names ok err panic pending]:
  obtains x where "p = Ready (Ok x)" | e where "p = Ready (Err e)" | "p = Ready Panic" | "p = Pending"
  by (cases p) (metis res.exhaust)+

section \<open>Actions\<close>

text \<open>A fallible operation on a state. \<open>bind_io\<close> is sequencing with the \<^verbatim>\<open>?\<close> operator: what fails
  ends the function, and the state is as the failing operation left it.\<close>

type_synonym ('a, 's) io = "'s \<Rightarrow> 'a res \<times> 's"

definition ret :: "'a \<Rightarrow> ('a, 's) io" where
  "ret x = (\<lambda>s. (Ok x, s))"

definition bind_io :: "('a, 's) io \<Rightarrow> ('a \<Rightarrow> ('b, 's) io) \<Rightarrow> ('b, 's) io" where
  "bind_io m f = (\<lambda>s. case m s of
      (Ok x, s') \<Rightarrow> f x s'
    | (Err e, s') \<Rightarrow> (Err e, s')
    | (Panic, s') \<Rightarrow> (Panic, s'))"

text \<open>\<^verbatim>\<open>let _ = ...\<close>: the call is made and its result dropped.\<close>

definition ignoring :: "('a, 's) io \<Rightarrow> (unit, 's) io" where
  "ignoring m = (\<lambda>s. case m s of
      (Panic, s') \<Rightarrow> (Panic, s')
    | (_, s') \<Rightarrow> (Ok (), s'))"

lemma bind_io_Ok_iff: "bind_io m f s = (Ok y, s') \<longleftrightarrow> (\<exists>x s1. m s = (Ok x, s1) \<and> f x s1 = (Ok y, s'))"
  by (auto simp: bind_io_def split: prod.splits res.splits)

lemma fst_bind_keep: "(\<And>x s. fst (f x s) = Ok x) \<Longrightarrow> fst (bind_io m f s) = fst (m s)"
  by (auto simp: bind_io_def split: prod.splits res.splits)

lemma fst_bind_ret [simp]: "fst (bind_io (ret y) f s) = fst (f y s)" "fst (ret x s) = Ok x"
  by (simp_all add: bind_io_def ret_def)

section \<open>Collections of rewrite rules\<close>

named_theorems be_simps \<open>big-endian encoding and decoding\<close>
named_theorems slice_simps \<open>slices and overwrites of byte buffers\<close>
named_theorems text_simps \<open>strings as byte sequences\<close>

section \<open>Big-endian integers\<close>

fun be_bytes :: "nat \<Rightarrow> nat \<Rightarrow> byte list" where
  "be_bytes 0 n = []"
| "be_bytes (Suc k) n = be_bytes k (n div 256) @ [of_nat n]"

definition be_nat :: "byte list \<Rightarrow> nat" where
  "be_nat bs = foldl (\<lambda>n b. n * 256 + unat b) 0 bs"

lemma be_nat_Nil [simp, be_simps]: "be_nat [] = 0"
  by (simp add: be_nat_def)

lemma be_nat_snoc [simp, be_simps]: "be_nat (bs @ [b]) = be_nat bs * 256 + unat b"
  by (simp add: be_nat_def)

lemma length_be_bytes [simp, be_simps]: "length (be_bytes k n) = k"
  by (induction k arbitrary: n) auto

lemma unat_byte_less: "unat (b :: byte) < 256"
  using unsigned_less [of b] by simp

lemma unat_ucast_byte_u64 [simp]: "unat (ucast (b :: byte) :: u64) = unat b"
  using unat_byte_less [of b] by (simp only: unat_ucast_mod) simp

lemma be_nat_bound: "be_nat bs < 256 ^ length bs"
proof (induction bs rule: rev_induct)
  case Nil
  show ?case by simp
next
  case (snoc b bs)
  have "be_nat bs * 256 + unat b < (be_nat bs + 1) * 256"
    using unat_byte_less [of b] by (simp add: algebra_simps)
  also have "\<dots> \<le> 256 ^ length bs * 256"
    using snoc.IH by (intro mult_right_mono) auto
  finally show ?case by (simp add: mult.commute)
qed

lemma be_nat_be_bytes [be_simps]: "be_nat (be_bytes k n) = n mod 256 ^ k"
proof (induction k arbitrary: n)
  case 0
  show ?case by simp
next
  case (Suc k)
  have "be_nat (be_bytes (Suc k) n) = (n div 256 mod 256 ^ k) * 256 + n mod 256"
    by (simp add: Suc.IH unat_of_nat)
  also have "\<dots> = n mod (256 * 256 ^ k)"
    by (simp add: mod_mult2_eq algebra_simps)
  finally show ?case by simp
qed

lemma be_bytes_be_nat [be_simps]: "be_bytes (length bs) (be_nat bs) = bs"
proof (induction bs rule: rev_induct)
  case Nil
  show ?case by simp
next
  case (snoc b bs)
  have "(be_nat bs * 256 + unat b) div 256 = be_nat bs"
    using unat_byte_less [of b] by simp
  moreover have "(of_nat (be_nat bs * 256 + unat b) :: byte) = b"
    using unat_byte_less [of b] by (simp add: word_unat_eq_iff unat_of_nat del: of_nat_add of_nat_mult)
  ultimately show ?case
    using snoc.IH by simp
qed

text \<open>\<^verbatim>\<open>to_be_bytes\<close> and \<^verbatim>\<open>from_be_bytes\<close> at the widths the program uses.\<close>

definition u16_be :: "u16 \<Rightarrow> byte list" where "u16_be w = be_bytes 2 (unat w)"
definition u32_be :: "u32 \<Rightarrow> byte list" where "u32_be w = be_bytes 4 (unat w)"
definition u64_be :: "u64 \<Rightarrow> byte list" where "u64_be w = be_bytes 8 (unat w)"
definition u16_of_be :: "byte list \<Rightarrow> u16" where "u16_of_be bs = of_nat (be_nat bs)"
definition u32_of_be :: "byte list \<Rightarrow> u32" where "u32_of_be bs = of_nat (be_nat bs)"

lemma length_u_be [simp, be_simps]:
  "length (u16_be w) = 2" "length (u32_be x) = 4" "length (u64_be y) = 8"
  by (simp_all add: u16_be_def u32_be_def u64_be_def)

lemma u16_of_be_u16_be [simp, be_simps]: "u16_of_be (u16_be w) = w"
proof -
  have "unat w < 256 ^ 2" using unsigned_less [of w] by simp
  then show ?thesis by (simp add: u16_of_be_def u16_be_def be_nat_be_bytes)
qed

lemma u32_of_be_u32_be [simp, be_simps]: "u32_of_be (u32_be w) = w"
proof -
  have "unat w < 256 ^ 4" using unsigned_less [of w] by simp
  then show ?thesis by (simp add: u32_of_be_def u32_be_def be_nat_be_bytes)
qed

lemma unat_u16_of_be: "length bs = 2 \<Longrightarrow> unat (u16_of_be bs) = be_nat bs"
  using be_nat_bound [of bs] by (simp add: u16_of_be_def unat_of_nat)

lemma unat_u32_of_be: "length bs = 4 \<Longrightarrow> unat (u32_of_be bs) = be_nat bs"
  using be_nat_bound [of bs] by (simp add: u32_of_be_def unat_of_nat)

lemma u16_be_u16_of_be [be_simps]: "length bs = 2 \<Longrightarrow> u16_be (u16_of_be bs) = bs"
  using be_bytes_be_nat [of bs] by (simp add: u16_be_def unat_u16_of_be)

lemma u32_be_u32_of_be [be_simps]: "length bs = 4 \<Longrightarrow> u32_be (u32_of_be bs) = bs"
  using be_bytes_be_nat [of bs] by (simp add: u32_be_def unat_u32_of_be)

text \<open>For evaluation on concrete values.\<close>

lemma be_bytes_2: "be_bytes 2 n = [of_nat (n div 256), of_nat n]"
  by (simp add: numeral_2_eq_2)

lemma be_bytes_4:
  "be_bytes 4 n = [of_nat (n div 256 div 256 div 256), of_nat (n div 256 div 256),
     of_nat (n div 256), of_nat n]"
proof -
  have "(4 :: nat) = Suc (Suc (Suc (Suc 0)))" by simp
  then show ?thesis by (simp only: be_bytes.simps append.simps)
qed

lemmas u_be_eval = u16_be_def u32_be_def be_bytes_2 be_bytes_4 u16_of_be_def u32_of_be_def be_nat_def

section \<open>Slices and overwrites\<close>

text \<open>\<^verbatim>\<open>&xs[i..j]\<close> for \<open>i \<le> j \<le> length xs\<close>.\<close>

definition slice_of :: "nat \<Rightarrow> nat \<Rightarrow> 'a list \<Rightarrow> 'a list" where
  "slice_of i j xs = take (j - i) (drop i xs)"

text \<open>\<^verbatim>\<open>xs[i..i + ys.len()].copy_from_slice(ys)\<close>, in range.\<close>

definition overwrite :: "nat \<Rightarrow> 'a list \<Rightarrow> 'a list \<Rightarrow> 'a list" where
  "overwrite i ys xs = take i xs @ ys @ drop (i + length ys) xs"

lemma length_slice [simp, slice_simps]:
  "i \<le> j \<Longrightarrow> j \<le> length xs \<Longrightarrow> length (slice_of i j xs) = j - i"
  by (simp add: slice_of_def)

lemma length_slice_le: "length (slice_of i j xs) \<le> j - i"
  by (simp add: slice_of_def)

lemma slice_self [simp, slice_simps]: "slice_of i i xs = []"
  by (simp add: slice_of_def)

lemma slice_0 [simp]: "slice_of 0 j xs = take j xs"
  by (simp add: slice_of_def)

lemma length_overwrite [simp, slice_simps]:
  "i + length ys \<le> length xs \<Longrightarrow> length (overwrite i ys xs) = length xs"
  by (simp add: overwrite_def)

lemma slice_overwrite_same [simp, slice_simps]:
  "i + length ys \<le> length xs \<Longrightarrow> j = i + length ys \<Longrightarrow> slice_of i j (overwrite i ys xs) = ys"
  by (simp add: slice_of_def overwrite_def)

lemma slice_append_adj [slice_simps]:
  "i \<le> j \<Longrightarrow> j \<le> k \<Longrightarrow> slice_of i j xs @ slice_of j k xs = slice_of i k xs"
proof -
  assume ij: "i \<le> j" and jk: "j \<le> k"
  have "take (k - i) (drop i xs) = take (j - i + (k - j)) (drop i xs)"
    using ij jk by simp
  also have "\<dots> = take (j - i) (drop i xs) @ take (k - j) (drop (j - i) (drop i xs))"
    by (rule take_add)
  also have "drop (j - i) (drop i xs) = drop j xs"
    using ij by simp
  finally show ?thesis by (simp add: slice_of_def)
qed

lemma slice_overwrite_before [slice_simps]:
  "j \<le> i \<Longrightarrow> i \<le> length xs \<Longrightarrow> slice_of k j (overwrite i ys xs) = slice_of k j xs"
  by (cases "k \<le> j") (simp_all add: slice_of_def overwrite_def take_drop min_def)

lemma slice_overwrite_extend [slice_simps]:
  assumes "k \<le> i" and "i + length ys \<le> length xs" and "j = i + length ys"
  shows "slice_of k j (overwrite i ys xs) = slice_of k i xs @ ys"
proof -
  have "slice_of k j (overwrite i ys xs) = slice_of k i (overwrite i ys xs) @ slice_of i j (overwrite i ys xs)"
    using assms by (simp only: slice_append_adj le_add1)
  also have "\<dots> = slice_of k i xs @ ys"
    using assms by (simp add: slice_overwrite_before)
  finally show ?thesis .
qed

lemma slice_overwrite_after:
  assumes "i + length ys \<le> k" and "i + length ys \<le> length xs"
  shows "slice_of k j (overwrite i ys xs) = slice_of k j xs"
proof -
  have "drop k (overwrite i ys xs) = drop (k - (i + length ys)) (drop (i + length ys) xs)"
    using assms by (simp add: overwrite_def)
  also have "\<dots> = drop k xs" using assms(1) by simp
  finally show ?thesis by (simp add: slice_of_def)
qed

lemma take_overwrite_end:
  "i + length ys \<le> length xs \<Longrightarrow> take (i + length ys) (overwrite i ys xs) = take i xs @ ys"
  by (simp add: overwrite_def)

lemma take_slice [slice_simps]: "take n (slice_of i j xs) = slice_of i (min j (i + n)) xs"
  by (auto simp: slice_of_def min_def intro: arg_cong [where f = "\<lambda>k. take k (drop i xs)"])

lemma drop_slice [slice_simps]: "drop n (slice_of i j xs) = slice_of (i + n) j xs"
  by (simp add: slice_of_def drop_take add.commute)

lemma nth_slice: "i + k < j \<Longrightarrow> j \<le> length xs \<Longrightarrow> slice_of i j xs ! k = xs ! (i + k)"
  by (simp add: slice_of_def)

text \<open>Filling a buffer further leaves less room in it.\<close>

lemma room_shrinks: "bs \<noteq> [] \<Longrightarrow> m + length bs \<le> n \<Longrightarrow> n - (m + length bs) < n - m"
  by (cases bs) auto

lemma room_shrinks_below: "bs \<noteq> [] \<Longrightarrow> m < n \<Longrightarrow> n - (m + length bs) < n - m"
  by (cases bs) auto

section \<open>Strings as byte sequences\<close>

definition bytes_of :: "string \<Rightarrow> byte list" where
  "bytes_of s = map (\<lambda>c. of_nat (of_char c)) s"

definition text_of :: "byte list \<Rightarrow> string" where
  "text_of bs = map (\<lambda>b. char_of (unat b)) bs"

lemma text_of_bytes_of [simp, text_simps]: "text_of (bytes_of s) = s"
proof -
  have "char_of (unat (of_nat (of_char c) :: byte)) = c" for c
  proof -
    have "(of_char c :: nat) < 256" using nat_of_char_less_256 by simp
    then show ?thesis by (simp add: unat_of_nat)
  qed
  then show ?thesis by (simp add: text_of_def bytes_of_def comp_def)
qed

lemma bytes_of_text_of [simp, text_simps]: "bytes_of (text_of bs) = bs"
  by (simp add: unat_byte_less text_of_def bytes_of_def comp_def)

lemma length_bytes_of [simp, text_simps]: "length (bytes_of s) = length s"
  by (simp add: bytes_of_def)

lemma length_text_of [simp, text_simps]: "length (text_of bs) = length bs"
  by (simp add: text_of_def)

lemma bytes_of_append [simp, text_simps]: "bytes_of (s @ t) = bytes_of s @ bytes_of t"
  by (simp add: bytes_of_def)

lemma text_of_append [simp, text_simps]: "text_of (s @ t) = text_of s @ text_of t"
  by (simp add: text_of_def)

lemma bytes_of_Nil [simp]: "bytes_of [] = []"
  by (simp add: bytes_of_def)

lemma text_of_Nil [simp]: "text_of [] = []"
  by (simp add: text_of_def)

lemma bytes_of_inject [simp]: "bytes_of s = bytes_of t \<longleftrightarrow> s = t"
  by (metis text_of_bytes_of)

section \<open>Time\<close>

text \<open>An \<^verbatim>\<open>Instant\<close> is a number of nanoseconds; \<open>secs n\<close> is \<^verbatim>\<open>Duration::from_secs(n)\<close>.\<close>

type_synonym instant = nat

definition secs :: "nat \<Rightarrow> nat" where
  "secs n = n * 1000000000"

lemma secs_le_iff [simp]: "secs m \<le> secs n \<longleftrightarrow> m \<le> n"
  by (simp add: secs_def)

end
