(* ===== verification/Varint.thy ===== *)
theory Varint
  imports Prelude
begin

text \<open>
  The variable-length integers of QUIC as \<^verbatim>\<open>src/hysteria2.rs\<close> writes and reads them: the two
  high bits of the first byte give the length (1, 2, 4 or 8 bytes), the other bits the
  value, big-endian. \<open>encode_varint\<close> is the writer; \<open>varint_num_bytes\<close>, \<open>varint_first\<close> and
  \<open>varint_accum\<close> are the three parts of the reader, which the source has twice: in
  \<^verbatim>\<open>read_varint\<close> over a stream and inline in the datagram parser.
\<close>

section \<open>Definitions\<close>

fun or_first :: "byte \<Rightarrow> byte list \<Rightarrow> byte list" where
  "or_first m [] = []"
| "or_first m (b # bs) = (b OR m) # bs"

definition encode_varint :: "u64 \<Rightarrow> byte list res" where
  "encode_varint value =
     (if value \<le> 63 then Ok [ucast value]
      else if value < 2 ^ 14 then Ok (or_first 64 (u16_be (ucast value)))
      else if value < 2 ^ 30 then Ok (or_first 128 (u32_be (ucast value)))
      else if value < 2 ^ 62 then Ok (or_first 192 (u64_be value))
      else Err (other_error ''value too large to encode as varint''))"

definition varint_num_bytes :: "byte \<Rightarrow> nat" where
  "varint_num_bytes first_byte =
     (let len = drop_bit 6 first_byte in
      if len = 0 then 1 else if len = 1 then 2 else if len = 2 then 4 else 8)"

definition varint_first :: "byte \<Rightarrow> u64" where
  "varint_first first_byte = ucast (first_byte AND 63)"

definition varint_accum :: "u64 \<Rightarrow> byte list \<Rightarrow> u64" where
  "varint_accum value bs = foldl (\<lambda>v b. push_bit 8 v OR ucast b) value bs"

text \<open>The reader over a byte sequence: the value and what follows it, or nothing when the
  sequence ends too early.\<close>

fun decode_varint :: "byte list \<Rightarrow> (u64 \<times> byte list) option" where
  "decode_varint [] = None"
| "decode_varint (b # bs) =
     (let k = varint_num_bytes b - 1 in
      if length bs < k then None
      else Some (varint_accum (varint_first b) (take k bs), drop k bs))"

section \<open>Shift and or is positional arithmetic\<close>

lemma push_or_unat:
  fixes v :: u64 and b :: byte
  assumes "unat v < 2 ^ 56"
  shows "unat (push_bit 8 v OR ucast b) = unat v * 256 + unat b"
proof -
  have "push_bit 8 v OR ucast b = push_bit 8 v + ucast b"
    by (rule disjunctive_add_eq_or [symmetric])
       (auto simp: bit_eq_iff bit_simps dest: bit_imp_le_length)
  moreover have "unat (push_bit 8 v) = unat v * 256"
    using assms by (simp add: push_bit_eq_mult unat_word_ariths)
  moreover have "unat (ucast b :: u64) = unat b"
    by simp
  ultimately show ?thesis
    using assms unat_byte_less [of b] by (simp add: unat_word_ariths)
qed

lemma varint_accum_unat:
  "unat v * 256 ^ length bs + be_nat bs < 2 ^ 64 \<Longrightarrow>
   unat (varint_accum v bs) = unat v * 256 ^ length bs + be_nat bs"
proof (induction bs rule: rev_induct)
  case Nil
  show ?case by (simp add: varint_accum_def)
next
  case (snoc b bs)
  let ?n = "unat v * 256 ^ length bs + be_nat bs"
  have eq: "unat v * 256 ^ length (bs @ [b]) + be_nat (bs @ [b]) = ?n * 256 + unat b"
    by (simp add: algebra_simps)
  have n: "?n < 2 ^ 56"
    using snoc.prems unfolding eq by simp
  then have "unat (varint_accum v bs) = ?n"
    by (intro snoc.IH) simp
  with n show ?case
    unfolding eq by (simp add: varint_accum_def push_or_unat)
qed

section \<open>Round trip\<close>

text \<open>The most significant byte first: the view of \<open>be_bytes\<close> that the tag in the first
  byte needs.\<close>

lemma be_bytes_Cons: "be_bytes (Suc k) n = of_nat (n div 256 ^ k) # be_bytes k n"
proof (induction k arbitrary: n)
  case 0
  show ?case by simp
next
  case (Suc k)
  have "be_bytes (Suc (Suc k)) n = be_bytes (Suc k) (n div 256) @ [of_nat n]"
    by (rule be_bytes.simps)
  also have "\<dots> = of_nat (n div 256 div 256 ^ k) # be_bytes k (n div 256) @ [of_nat n]"
    by (simp only: Suc.IH append_Cons)
  also have "n div 256 div 256 ^ k = n div 256 ^ Suc k"
    by (simp add: div_mult2_eq)
  finally show ?case by simp
qed

lemma byte_small_take_bit: "unat (b :: byte) < 64 \<Longrightarrow> take_bit 6 b = b"
  by (simp add: take_bit_eq_mod word_unat_eq_iff unat_mod)

lemma byte_small_drop_bit: "unat (b :: byte) < 64 \<Longrightarrow> drop_bit 6 b = 0"
  by (simp add: drop_bit_eq_div word_unat_eq_iff unat_div)

lemma and_63: "b AND 63 = take_bit 6 (b :: byte)"
  by (simp add: take_bit_eq_mask mask_eq_exp_minus_1)

text \<open>What the reader sees in a first byte whose value bits are \<open>b\<close>: the tag survives the
  shift, the value bits survive the mask.\<close>

lemma varint_num_bytes_tagged:
  assumes "unat (b :: byte) < 64"
  shows "varint_num_bytes b = 1" "varint_num_bytes (b OR 64) = 2"
    "varint_num_bytes (b OR 128) = 4" "varint_num_bytes (b OR 192) = 8"
  using byte_small_drop_bit [OF assms] by (simp_all add: varint_num_bytes_def)

lemma varint_first_tagged:
  assumes "unat (b :: byte) < 64" and "m \<in> {0, 64, 128, 192}"
  shows "unat (varint_first (b OR m)) = unat b"
proof -
  have "take_bit 6 m = 0" using assms(2) by auto
  then have "(b OR m) AND 63 = b"
    using byte_small_take_bit [OF assms(1)] by (simp add: and_63)
  then show ?thesis
    by (simp add: varint_first_def)
qed

lemma decode_varint_tagged:
  assumes n: "n < 64 * 256 ^ k" and mk: "(m, k) \<in> {(64, 1), (128, 3), (192, 7)}"
  shows "decode_varint (or_first m (be_bytes (Suc k) n) @ rest) = Some (of_nat n, rest)"
proof -
  define b :: byte where "b = of_nat (n div 256 ^ k)"
  have "n div 256 ^ k < 64"
    using n by (simp add: less_mult_imp_div_less mult.commute)
  then have b: "unat b = n div 256 ^ k" "unat b < 64"
    by (simp_all add: b_def unat_of_nat)
  have num: "varint_num_bytes (b OR m) = Suc k"
    using varint_num_bytes_tagged [OF b(2)] mk by auto
  have first: "unat (varint_first (b OR m)) = n div 256 ^ k"
    using varint_first_tagged [OF b(2)] b(1) mk by auto
  have "64 * 256 ^ k \<le> (2 :: nat) ^ 64"
    using mk by auto
  then have small: "n < 2 ^ 64"
    using n by (rule order.strict_trans2 [rotated])
  have split: "n div 256 ^ k * 256 ^ k + n mod 256 ^ k = n"
    by (rule div_mult_mod_eq)
  have "unat (varint_accum (varint_first (b OR m)) (be_bytes k n)) = n"
    using varint_accum_unat [of "varint_first (b OR m)" "be_bytes k n"] small
    by (simp only: first length_be_bytes be_nat_be_bytes split)
  then have "varint_accum (varint_first (b OR m)) (be_bytes k n) = of_nat n"
    by (metis of_nat_unat ucast_id)
  then show ?thesis
    by (simp add: be_bytes_Cons num del: be_bytes.simps flip: b_def)
qed

lemma decode_varint_encoded:
  assumes "n < 64 * 256 ^ (l - 1)" and "(m, l) \<in> {(64, 2), (128, 4), (192, 8)}"
  shows "decode_varint (or_first m (be_bytes l n) @ rest) = Some (of_nat n, rest)"
proof -
  have "Suc (l - 1) = l" using assms(2) by auto
  then show ?thesis
    using decode_varint_tagged [of n "l - 1" m rest] assms by auto
qed

lemma unat_ucast_u16: "unat (v :: u64) < 2 ^ 14 \<Longrightarrow> unat (ucast v :: u16) = unat v"
  by (simp add: unat_ucast_mod)

lemma unat_ucast_u32: "unat (v :: u64) < 2 ^ 30 \<Longrightarrow> unat (ucast v :: u32) = unat v"
  by (simp add: unat_ucast_mod)

text \<open>What the writer produces: the value's bytes with the tag of its length class, and
  nothing for a value that does not fit in 62 bits.\<close>

lemma encode_varint_cases:
  fixes v :: u64
  shows "unat v < 64 \<Longrightarrow> encode_varint v = Ok [ucast v]"
    "64 \<le> unat v \<Longrightarrow> unat v < 2 ^ 14 \<Longrightarrow> encode_varint v = Ok (or_first 64 (be_bytes 2 (unat v)))"
    "2 ^ 14 \<le> unat v \<Longrightarrow> unat v < 2 ^ 30 \<Longrightarrow>
       encode_varint v = Ok (or_first 128 (be_bytes 4 (unat v)))"
    "2 ^ 30 \<le> unat v \<Longrightarrow> unat v < 2 ^ 62 \<Longrightarrow>
       encode_varint v = Ok (or_first 192 (be_bytes 8 (unat v)))"
    "2 ^ 62 \<le> unat v \<Longrightarrow>
       encode_varint v = Err (other_error ''value too large to encode as varint'')"
  by (simp_all add: encode_varint_def word_le_nat_alt word_less_nat_alt u16_be_def u32_be_def
      u64_be_def unat_ucast_u16 unat_ucast_u32)

lemma encode_varint_decodes:
  assumes "encode_varint value = Ok bs"
  shows "decode_varint (bs @ rest) = Some (value, rest)"
proof -
  consider "unat value < 64" | "64 \<le> unat value" "unat value < 2 ^ 14"
    | "2 ^ 14 \<le> unat value" "unat value < 2 ^ 30" | "2 ^ 30 \<le> unat value" "unat value < 2 ^ 62"
    | "2 ^ 62 \<le> unat value"
    by linarith
  then show ?thesis
  proof cases
    case 1
    let ?b = "ucast value :: byte"
    have b: "unat ?b = unat value" using 1 by (simp add: unat_ucast_mod)
    then have "varint_first ?b = value"
      using 1 varint_first_tagged [of ?b 0] by (simp add: word_unat_eq_iff)
    then show ?thesis
      using assms 1 b by (auto simp: encode_varint_cases varint_num_bytes_tagged varint_accum_def)
  next
    case 2
    then show ?thesis
      using assms decode_varint_encoded [of "unat value" 2 64 rest] by (auto simp: encode_varint_cases(2))
  next
    case 3
    then show ?thesis
      using assms decode_varint_encoded [of "unat value" 4 128 rest] by (auto simp: encode_varint_cases(3))
  next
    case 4
    then show ?thesis
      using assms decode_varint_encoded [of "unat value" 8 192 rest] by (auto simp: encode_varint_cases(4))
  next
    case 5
    then show ?thesis using assms by (simp add: encode_varint_cases(5))
  qed
qed

lemma encode_varint_total: "unat value < 2 ^ 62 \<Longrightarrow> \<exists>bs. encode_varint value = Ok bs"
  by (auto simp: encode_varint_def word_less_nat_alt)

text \<open>C27. Every value below $2^{62}$ has an encoding, and reading that encoding back, with any
  bytes after it, gives the value and exactly the bytes after it.\<close>

theorem varint_roundtrip:
  assumes "unat value < 2 ^ 62"
  shows "\<exists>bs. encode_varint value = Ok bs \<and> decode_varint (bs @ rest) = Some (value, rest)"
  using encode_varint_total [OF assms] encode_varint_decodes by blast

theorem varint_roundtrip_witness:
  "\<exists>bs. encode_varint 15293 = Ok bs \<and> decode_varint (bs @ [7]) = Some (15293, [7])"
  by (rule varint_roundtrip) simp

end
