(* ===== verification/Rust_Text.thy ===== *)
theory Rust_Text
  imports Prelude
begin

text \<open>
  The parts of Rust's standard library that the program uses on text: UTF-8 validation
  (\<^verbatim>\<open>str::from_utf8\<close>) and repair (\<^verbatim>\<open>String::from_utf8_lossy\<close>), parsing and printing of
  integers, \<^verbatim>\<open>lines\<close>, \<^verbatim>\<open>split\<close>, \<^verbatim>\<open>split_once\<close>, \<^verbatim>\<open>rfind\<close> and \<^verbatim>\<open>trim\<close>. The lemmas are the
  round trips between printing and parsing that the component theories rest on.
\<close>

section \<open>UTF-8\<close>

definition utf8_cont :: "nat \<Rightarrow> bool" where
  "utf8_cont b \<longleftrightarrow> 128 \<le> b \<and> b \<le> 191"

definition utf8_second :: "nat \<Rightarrow> nat \<Rightarrow> bool" where
  "utf8_second b0 b1 =
     (if b0 = 224 then 160 \<le> b1 \<and> b1 \<le> 191
      else if b0 = 237 then 128 \<le> b1 \<and> b1 \<le> 159
      else if b0 = 240 then 144 \<le> b1 \<and> b1 \<le> 191
      else if b0 = 244 then 128 \<le> b1 \<and> b1 \<le> 143
      else utf8_cont b1)"

definition utf8_width :: "nat \<Rightarrow> nat" where
  "utf8_width b =
     (if b < 128 then 1 else if b < 194 then 0 else if b < 224 then 2
      else if b < 240 then 3 else if b < 245 then 4 else 0)"

text \<open>The first sequence of a non-empty input: whether it is well-formed, and its length,
  which for an ill-formed one is that of the longest well-formed beginning of a sequence
  (at least one byte).\<close>

definition utf8_shape :: "nat \<Rightarrow> nat \<Rightarrow> nat \<Rightarrow> nat \<Rightarrow> bool \<times> nat" where
  "utf8_shape b0 b1 b2 b3 =
     (let w = utf8_width b0 in
      if w = 1 then (True, 1)
      else if w = 2 then (if utf8_cont b1 then (True, 2) else (False, 1))
      else if w = 3 then
        (if \<not> utf8_second b0 b1 then (False, 1)
         else if \<not> utf8_cont b2 then (False, 2) else (True, 3))
      else if w = 4 then
        (if \<not> utf8_second b0 b1 then (False, 1)
         else if \<not> utf8_cont b2 then (False, 2)
         else if \<not> utf8_cont b3 then (False, 3) else (True, 4))
      else (False, 1))"

text \<open>Past the end, the reader sees zeros, which continue no sequence.\<close>

definition byte_at :: "nat list \<Rightarrow> nat \<Rightarrow> nat" where
  "byte_at xs i = (if i < length xs then xs ! i else 0)"

definition utf8_step :: "nat list \<Rightarrow> bool \<times> nat" where
  "utf8_step xs = utf8_shape (byte_at xs 0) (byte_at xs 1) (byte_at xs 2) (byte_at xs 3)"

lemma utf8_step_pos: "0 < snd (utf8_step xs)"
  by (auto simp: utf8_step_def utf8_shape_def Let_def)

function utf8_ok :: "nat list \<Rightarrow> bool" where
  "utf8_ok xs =
     (if xs = [] then True
      else fst (utf8_step xs) \<and> utf8_ok (drop (snd (utf8_step xs)) xs))"
  by pat_completeness auto
termination
  by (relation "measure length") (auto simp: utf8_step_pos)

declare utf8_ok.simps [simp del]

definition from_utf8 :: "byte list \<Rightarrow> string option" where
  "from_utf8 bs = (if utf8_ok (map unat bs) then Some (text_of bs) else None)"

text \<open>Repair: every ill-formed piece becomes U+FFFD (EF BF BD).\<close>

function utf8_repair :: "nat list \<Rightarrow> nat list" where
  "utf8_repair xs =
     (if xs = [] then []
      else (if fst (utf8_step xs) then take (snd (utf8_step xs)) xs else [239, 191, 189])
             @ utf8_repair (drop (snd (utf8_step xs)) xs))"
  by pat_completeness auto
termination
  by (relation "measure length") (auto simp: utf8_step_pos)

declare utf8_repair.simps [simp del]

definition from_utf8_lossy :: "byte list \<Rightarrow> string" where
  "from_utf8_lossy bs = map char_of (utf8_repair (map unat bs))"

lemma utf8_repair_id: "utf8_ok xs \<Longrightarrow> utf8_repair xs = xs"
proof (induction xs rule: utf8_repair.induct)
  case (1 xs)
  show ?case
  proof (cases "xs = []")
    case True
    then show ?thesis by (simp add: utf8_repair.simps [of "[]"])
  next
    case False
    with 1 show ?thesis
      by (simp add: utf8_repair.simps [of xs] utf8_ok.simps [of xs])
  qed
qed

lemma utf8_ok_ascii: "\<forall>x \<in> set xs. x < 128 \<Longrightarrow> utf8_ok xs"
proof (induction xs)
  case Nil
  show ?case by (simp add: utf8_ok.simps [of "[]"])
next
  case (Cons x xs)
  then have "utf8_step (x # xs) = (True, 1)"
    by (simp add: utf8_step_def utf8_shape_def byte_at_def utf8_width_def)
  with Cons show ?case by (simp add: utf8_ok.simps [of "x # xs"])
qed

text \<open>Well-formed text can be concatenated.\<close>

lemma utf8_shape_cong:
  "fst (utf8_shape b0 b1 b2 b3) \<Longrightarrow>
   (2 \<le> snd (utf8_shape b0 b1 b2 b3) \<Longrightarrow> c1 = b1) \<Longrightarrow>
   (3 \<le> snd (utf8_shape b0 b1 b2 b3) \<Longrightarrow> c2 = b2) \<Longrightarrow>
   (4 \<le> snd (utf8_shape b0 b1 b2 b3) \<Longrightarrow> c3 = b3) \<Longrightarrow>
   utf8_shape b0 c1 c2 c3 = utf8_shape b0 b1 b2 b3"
  by (auto simp: utf8_shape_def Let_def split: if_splits)

lemma utf8_second_nonzero: "utf8_second b c \<Longrightarrow> 0 < c"
  by (auto simp: utf8_second_def utf8_cont_def split: if_splits)

lemma utf8_shape_nonzero:
  "fst (utf8_shape b0 b1 b2 b3) \<Longrightarrow>
   (2 \<le> snd (utf8_shape b0 b1 b2 b3) \<longrightarrow> b1 \<noteq> 0)
   \<and> (3 \<le> snd (utf8_shape b0 b1 b2 b3) \<longrightarrow> b2 \<noteq> 0)
   \<and> (4 \<le> snd (utf8_shape b0 b1 b2 b3) \<longrightarrow> b3 \<noteq> 0) \<and> snd (utf8_shape b0 b1 b2 b3) \<le> 4"
  by (auto simp: utf8_shape_def Let_def utf8_cont_def dest: utf8_second_nonzero split: if_splits)

lemma byte_at_nonzero: "byte_at xs i \<noteq> 0 \<Longrightarrow> i < length xs"
  by (auto simp: byte_at_def split: if_splits)

lemma byte_at_append: "i < length xs \<Longrightarrow> byte_at (xs @ ys) i = byte_at xs i"
  by (simp add: byte_at_def nth_append)

lemma utf8_step_len:
  assumes "xs \<noteq> []" and "fst (utf8_step xs)"
  shows "snd (utf8_step xs) \<le> length xs"
proof -
  let ?n = "snd (utf8_step xs)"
  have nz: "2 \<le> ?n \<longrightarrow> byte_at xs 1 \<noteq> 0" "3 \<le> ?n \<longrightarrow> byte_at xs 2 \<noteq> 0"
    "4 \<le> ?n \<longrightarrow> byte_at xs 3 \<noteq> 0" "?n \<le> 4"
    using utf8_shape_nonzero assms(2) unfolding utf8_step_def by blast+
  have "1 \<le> length xs" using assms(1) by (cases xs) auto
  then show ?thesis
    using nz byte_at_nonzero [of xs 1] byte_at_nonzero [of xs 2] byte_at_nonzero [of xs 3]
    by linarith
qed

lemma utf8_step_append:
  assumes "xs \<noteq> []" and "fst (utf8_step xs)"
  shows "utf8_step (xs @ ys) = utf8_step xs"
proof -
  have len: "snd (utf8_step xs) \<le> length xs"
    using assms by (rule utf8_step_len)
  have "byte_at (xs @ ys) 0 = byte_at xs 0"
    using assms(1) by (intro byte_at_append) simp
  then show ?thesis
    using assms(2) len unfolding utf8_step_def
    by (simp only:, intro utf8_shape_cong) (simp_all add: byte_at_append)
qed

lemma utf8_ok_append: "utf8_ok xs \<Longrightarrow> utf8_ok ys \<Longrightarrow> utf8_ok (xs @ ys)"
proof (induction xs rule: utf8_ok.induct)
  case (1 xs)
  show ?case
  proof (cases "xs = []")
    case True
    with 1 show ?thesis by simp
  next
    case False
    with 1 have ok: "fst (utf8_step xs)" "utf8_ok (drop (snd (utf8_step xs)) xs)"
      by (simp_all add: utf8_ok.simps [of xs])
    with 1 False have "utf8_ok (drop (snd (utf8_step xs)) xs @ ys)"
      by simp
    with ok False show ?thesis
      using utf8_step_len [of xs]
      by (simp add: utf8_ok.simps [of "xs @ ys"] utf8_step_append)
  qed
qed

text \<open>ASCII text is its own UTF-8 encoding, and decodes to itself.\<close>

definition ascii :: "string \<Rightarrow> bool" where
  "ascii s \<longleftrightarrow> (\<forall>c \<in> set s. (of_char c :: nat) < 128)"

lemma ascii_append [simp]: "ascii (s @ t) \<longleftrightarrow> ascii s \<and> ascii t"
  by (auto simp: ascii_def)

lemma unat_bytes_of: "map unat (bytes_of s) = map of_char s"
proof -
  have "unat (of_nat (of_char c) :: byte) = of_char c" for c :: char
    using nat_of_char_less_256 [of c] by (simp only: unat_of_nat) simp
  then show ?thesis by (simp add: bytes_of_def)
qed

lemma utf8_ok_bytes_of_ascii: "ascii s \<Longrightarrow> utf8_ok (map unat (bytes_of s))"
  by (rule utf8_ok_ascii) (auto simp: unat_bytes_of ascii_def)

lemma from_utf8_ascii [simp, text_simps]: "ascii s \<Longrightarrow> from_utf8 (bytes_of s) = Some s"
  by (simp add: from_utf8_def utf8_ok_bytes_of_ascii)

lemma from_utf8_lossy_valid: "from_utf8 bs = Some s \<Longrightarrow> from_utf8_lossy bs = s"
  by (auto simp: from_utf8_def from_utf8_lossy_def utf8_repair_id text_of_def split: if_splits)

lemma from_utf8_lossy_ascii [simp, text_simps]: "ascii s \<Longrightarrow> from_utf8_lossy (bytes_of s) = s"
  by (rule from_utf8_lossy_valid) simp

section \<open>Integers\<close>

text \<open>\<^verbatim>\<open>char::to_digit\<close> for radixes 10 and 16.\<close>

definition to_digit :: "nat \<Rightarrow> char \<Rightarrow> nat option" where
  "to_digit radix c =
     (let n = of_char c :: nat;
          d = (if 48 \<le> n \<and> n \<le> 57 then n - 48
               else if 97 \<le> n \<and> n \<le> 122 then n - 87
               else if 65 \<le> n \<and> n \<le> 90 then n - 55 else radix)
      in if d < radix then Some d else None)"

definition is_digit :: "nat \<Rightarrow> char \<Rightarrow> bool" where
  "is_digit radix c \<longleftrightarrow> to_digit radix c \<noteq> None"

definition digits_value :: "nat \<Rightarrow> string \<Rightarrow> nat" where
  "digits_value radix s = foldl (\<lambda>n c. n * radix + the (to_digit radix c)) 0 s"

text \<open>\<^verbatim>\<open>str::parse\<close> at an unsigned type with largest value \<open>maxv\<close>: decimal digits, with an
  optional \<^verbatim>\<open>+\<close> before them.\<close>

definition parse_uint :: "nat \<Rightarrow> string \<Rightarrow> nat option" where
  "parse_uint maxv s =
     (let ds = (if 1 < length s \<and> hd s = CHR ''+'' then tl s else s) in
      if ds \<noteq> [] \<and> (\<forall>c \<in> set ds. is_digit 10 c) \<and> digits_value 10 ds \<le> maxv
      then Some (digits_value 10 ds) else None)"

text \<open>The same at \<^verbatim>\<open>i64\<close>, where a minus sign is allowed too.\<close>

definition parse_i64 :: "string \<Rightarrow> int option" where
  "parse_i64 s =
     (if 1 < length s \<and> hd s = CHR ''-''
      then (let ds = tl s in
            if (\<forall>c \<in> set ds. is_digit 10 c) \<and> digits_value 10 ds \<le> 2 ^ 63
            then Some (- int (digits_value 10 ds)) else None)
      else map_option int (parse_uint (2 ^ 63 - 1) s))"

definition digit_char :: "nat \<Rightarrow> char" where
  "digit_char d = char_of (if d < 10 then 48 + d else 87 + d)"

text \<open>\<^verbatim>\<open>to_string\<close> of an unsigned integer in decimal and \<^verbatim>\<open>{:x}\<close> in hexadecimal.\<close>

function radix_string :: "nat \<Rightarrow> nat \<Rightarrow> string" where
  "radix_string r n =
     (if n < r \<or> r < 2 then [digit_char n]
      else radix_string r (n div r) @ [digit_char (n mod r)])"
  by pat_completeness auto
termination
  by (relation "measure snd") auto

declare radix_string.simps [simp del]

abbreviation dec_string :: "nat \<Rightarrow> string" where
  "dec_string n \<equiv> radix_string 10 n"

lemma to_digit_digit_char [simp]: "d < r \<Longrightarrow> r \<le> 16 \<Longrightarrow> to_digit r (digit_char d) = Some d"
  by (auto simp: to_digit_def digit_char_def Let_def)

lemma digits_value_snoc: "digits_value r (s @ [c]) = digits_value r s * r + the (to_digit r c)"
  by (simp add: digits_value_def)

lemma radix_string_digits:
  "2 \<le> r \<Longrightarrow> r \<le> 16 \<Longrightarrow> \<forall>c \<in> set (radix_string r n). is_digit r c"
proof (induction r n rule: radix_string.induct)
  case (1 r n)
  then show ?case
    by (cases "n < r") (auto simp: radix_string.simps [of r n] is_digit_def)
qed

lemma radix_string_value: "2 \<le> r \<Longrightarrow> r \<le> 16 \<Longrightarrow> digits_value r (radix_string r n) = n"
proof (induction r n rule: radix_string.induct)
  case (1 r n)
  show ?case
  proof (cases "n < r")
    case True
    with 1 show ?thesis
      by (simp add: radix_string.simps [of r n] digits_value_def)
  next
    case False
    with 1 show ?thesis
      by (simp add: radix_string.simps [of r n] digits_value_snoc)
  qed
qed

lemma radix_string_nonempty [simp]: "radix_string r n \<noteq> []"
  by (simp add: radix_string.simps [of r n])

lemma digit_not_plus: "is_digit 10 c \<Longrightarrow> c \<noteq> CHR ''+''"
  by (auto simp: is_digit_def to_digit_def)

lemma parse_uint_dec_string [simp, text_simps]:
  "n \<le> maxv \<Longrightarrow> parse_uint maxv (dec_string n) = Some n"
proof -
  assume n: "n \<le> maxv"
  have ds: "\<forall>c \<in> set (dec_string n). is_digit 10 c"
    by (rule radix_string_digits) auto
  then have "hd (dec_string n) \<noteq> CHR ''+''"
    using digit_not_plus by (metis hd_in_set radix_string_nonempty)
  with ds n show ?thesis
    by (simp add: parse_uint_def radix_string_value)
qed

lemma parse_uint_bound: "parse_uint maxv s = Some n \<Longrightarrow> n \<le> maxv"
  by (auto simp: parse_uint_def Let_def split: if_splits)

lemma digit_ascii: "is_digit 16 c \<Longrightarrow> (of_char c :: nat) < 128"
  by (auto simp: is_digit_def to_digit_def Let_def split: if_splits)

lemma is_digit_10_16: "is_digit 10 c \<Longrightarrow> is_digit 16 c"
  by (auto simp: is_digit_def to_digit_def Let_def split: if_splits)

lemma ascii_dec_string [simp]: "ascii (dec_string n)"
  using radix_string_digits [of 10 n] digit_ascii is_digit_10_16 by (force simp: ascii_def)

text \<open>A printed number has at most as many digits as the bound it stays below.\<close>

lemma length_dec_string: "n < 10 ^ Suc k \<Longrightarrow> length (dec_string n) \<le> Suc k"
proof (induction k arbitrary: n)
  case 0
  then show ?case by (simp add: radix_string.simps [of 10 n])
next
  case (Suc k)
  then have "n div 10 < 10 ^ Suc k" by auto
  then have "length (dec_string (n div 10)) \<le> Suc k" by (rule Suc.IH)
  then show ?case by (simp add: radix_string.simps [of 10 n])
qed

lemma dec_string_no_leading_zero:
  "hd (dec_string n) = CHR ''0'' \<Longrightarrow> dec_string n = ''0''"
proof (induction "10 :: nat" n rule: radix_string.induct)
  case (1 n)
  have zero: "digit_char d = CHR ''0'' \<longleftrightarrow> d = 0" if "d < 10" for d
    using that by (auto simp: digit_char_def char_of_eq_iff take_bit_eq_mod)
  show ?case
  proof (cases "n < 10")
    case True
    with 1 zero [of n] have "n = 0"
      by (simp add: radix_string.simps [of 10 n])
    then show ?thesis
      by (simp add: radix_string.simps [of 10 0] digit_char_def char_of_eq_iff)
  next
    case False
    with 1 have "dec_string (n div 10) = ''0''"
      by (simp add: radix_string.simps [of 10 n])
    then have "n div 10 = 0"
      using radix_string_value [of 10 "n div 10"] by (simp add: digits_value_def to_digit_def)
    with False show ?thesis by simp
  qed
qed

section \<open>Splitting\<close>

text \<open>\<^verbatim>\<open>s.split_once(c)\<close>: around the first occurrence. \<open>split_last c\<close> is the pair of
  slices around \<^verbatim>\<open>s.rfind(c)\<close>.\<close>

definition split_once :: "char \<Rightarrow> string \<Rightarrow> (string \<times> string) option" where
  "split_once c s =
     (case dropWhile (\<lambda>x. x \<noteq> c) s of
        [] \<Rightarrow> None
      | _ # r \<Rightarrow> Some (takeWhile (\<lambda>x. x \<noteq> c) s, r))"

definition split_last :: "char \<Rightarrow> string \<Rightarrow> (string \<times> string) option" where
  "split_last c s = map_option (\<lambda>(a, b). (rev b, rev a)) (split_once c (rev s))"

text \<open>\<^verbatim>\<open>s.split(c)\<close>: all the pieces, one more than there are separators.\<close>

fun split_on :: "char \<Rightarrow> string \<Rightarrow> string list" where
  "split_on c [] = [[]]"
| "split_on c (x # xs) =
     (if x = c then [] # split_on c xs
      else (case split_on c xs of p # ps \<Rightarrow> (x # p) # ps | [] \<Rightarrow> [[x]]))"

text \<open>\<^verbatim>\<open>s.lines()\<close>: split after every newline, the last piece only when it is not empty,
  and without a carriage return before the newline.\<close>

definition strip_cr :: "string \<Rightarrow> string" where
  "strip_cr s = (if s \<noteq> [] \<and> last s = CHR 0x0D then butlast s else s)"

definition text_lines :: "string \<Rightarrow> string list" where
  "text_lines s =
     (let ps = split_on (CHR 0x0A) s in
      map strip_cr (butlast ps) @ (if last ps = [] then [] else [last ps]))"

text \<open>\<^verbatim>\<open>s.trim()\<close>: the characters with the Unicode property \<^verbatim>\<open>White_Space\<close>, by their UTF-8
  encodings, are removed from both ends.\<close>

definition white_space :: "nat list list" where
  "white_space =
     map (\<lambda>n. [n]) [9, 10, 11, 12, 13, 32] @
     [[194, 133], [194, 160], [225, 154, 128]] @
     map (\<lambda>n. [226, 128, n]) [128, 129, 130, 131, 132, 133, 134, 135, 136, 137, 138, 168, 169, 175] @
     [[226, 129, 159], [227, 128, 128]]"

definition has_prefix :: "'a list \<Rightarrow> 'a list \<Rightarrow> bool" where
  "has_prefix p s \<longleftrightarrow> take (length p) s = p"

function strip_all :: "string list \<Rightarrow> string \<Rightarrow> string" where
  "strip_all ws s =
     (case find (\<lambda>w. w \<noteq> [] \<and> has_prefix w s) ws of
        None \<Rightarrow> s
      | Some w \<Rightarrow> strip_all ws (drop (length w) s))"
  by pat_completeness auto
termination
proof (relation "measure (\<lambda>(ws, s). length s)", goal_cases)
  case 1
  show ?case by simp
next
  case (2 ws s w)
  then have "w \<noteq> []" "has_prefix w s"
    by (auto simp: find_Some_iff)
  then show ?case
    by (cases s) (auto simp: has_prefix_def)
qed

declare strip_all.simps [simp del]

definition trim :: "string \<Rightarrow> string" where
  "trim s =
     (let ws = map (map char_of) white_space
      in rev (strip_all (map rev ws) (rev (strip_all ws s))))"

lemma strip_all_id: "\<forall>w \<in> set ws. w = [] \<or> hd w \<notin> set s \<Longrightarrow> strip_all ws s = s"
proof -
  assume a: "\<forall>w \<in> set ws. w = [] \<or> hd w \<notin> set s"
  have "\<not> has_prefix w s" if "w \<in> set ws" "w \<noteq> []" for w
  proof
    assume "has_prefix w s"
    then have "hd w \<in> set s" using \<open>w \<noteq> []\<close>
      by (cases w; cases s) (auto simp: has_prefix_def)
    with a that show False by blast
  qed
  then have "find (\<lambda>w. w \<noteq> [] \<and> has_prefix w s) ws = None"
    by (auto simp: find_None_iff)
  then show ?thesis by (simp add: strip_all.simps [of ws s])
qed

definition graphic :: "string \<Rightarrow> bool" where
  "graphic s \<longleftrightarrow> (\<forall>c \<in> set s. 33 \<le> (of_char c :: nat) \<and> (of_char c :: nat) \<le> 126)"

lemma trim_graphic: "graphic s \<Longrightarrow> trim s = s"
proof -
  assume g: "graphic s"
  have "char_of (n :: nat) \<notin> set s" if "n < 256" "n < 33 \<or> 126 < n" for n
  proof
    assume "char_of n \<in> set s"
    then have "33 \<le> (of_char (char_of n) :: nat) \<and> (of_char (char_of n) :: nat) \<le> 126"
      using g unfolding graphic_def by blast
    with that show False by simp
  qed
  then have "strip_all (map (map char_of) white_space) s = s"
    "strip_all (map rev (map (map char_of) white_space)) (rev s) = rev s"
    by (intro strip_all_id; simp add: white_space_def)+
  then show ?thesis by (simp add: trim_def Let_def)
qed

fun join_with :: "string \<Rightarrow> string list \<Rightarrow> string" where
  "join_with sep [] = []"
| "join_with sep [s] = s"
| "join_with sep (s # t # ts) = s @ sep @ join_with sep (t # ts)"

lemma split_once_append [simp, text_simps]:
  "c \<notin> set a \<Longrightarrow> split_once c (a @ c # b) = Some (a, b)"
  by (induction a) (auto simp: split_once_def split: list.splits)

lemma split_once_None [simp, text_simps]: "split_once c s = None \<longleftrightarrow> c \<notin> set s"
proof (cases "c \<in> set s")
  case True
  then obtain a b where "s = a @ c # b" "c \<notin> set a"
    using split_list_first by fast
  then show ?thesis by simp
next
  case False
  then have "dropWhile (\<lambda>x. x \<noteq> c) s = []" by auto
  then have "split_once c s = None"
    unfolding split_once_def by (simp only: list.case)
  with False show ?thesis by simp
qed

lemma split_last_append [simp, text_simps]:
  "c \<notin> set b \<Longrightarrow> split_last c (a @ c # b) = Some (a, b)"
  by (simp add: split_last_def)

lemma split_on_nonempty [simp]: "split_on c s \<noteq> []"
  by (induction s) (auto split: list.splits)

lemma split_on_none [simp, text_simps]: "c \<notin> set s \<Longrightarrow> split_on c s = [s]"
  by (induction s) auto

lemma split_on_append [simp, text_simps]:
  "c \<notin> set a \<Longrightarrow> split_on c (a @ c # b) = a # split_on c b"
  by (induction a) auto

lemma split_on_join:
  "ps \<noteq> [] \<Longrightarrow> \<forall>p \<in> set ps. c \<notin> set p \<Longrightarrow> split_on c (join_with [c] ps) = ps"
  by (induction "[c]" ps rule: join_with.induct) auto

lemma text_lines_join:
  assumes "\<forall>p \<in> set ps. CHR 0x0A \<notin> set p \<and> p \<noteq> [] \<and> last p \<noteq> CHR 0x0D"
  shows "text_lines (join_with [CHR 0x0A] ps) = ps"
proof (cases "ps = []")
  case True
  then show ?thesis by (simp add: text_lines_def)
next
  case False
  have "split_on CHR 0x0A (join_with [CHR 0x0A] ps) = ps"
    using assms False by (intro split_on_join) auto
  moreover have "map strip_cr (butlast ps) = butlast ps"
    using assms by (intro map_idI) (auto simp: strip_cr_def dest: in_set_butlastD)
  ultimately show ?thesis
    using assms False by (simp add: text_lines_def)
qed

end
