(* ===== verification/Address.thy ===== *)
theory Address
  imports Rust_Text
begin

text \<open>
  \<^verbatim>\<open>src/address.rs\<close>: addresses and locations, with the parsers and printers of Rust's
  \<^verbatim>\<open>Ipv4Addr\<close>, \<^verbatim>\<open>Ipv6Addr\<close> and \<^verbatim>\<open>SocketAddr\<close> that it uses. An IPv4 address is the 32-bit
  word of its octets, an IPv6 address the 128-bit word.
\<close>

type_synonym u128 = "128 word"

datatype address = Ipv4 u32 | Ipv6 u128 | Hostname string

record net_location =
  nl_address :: address
  nl_port :: u16

text \<open>\<^verbatim>\<open>std::net::SocketAddr\<close>; the last field of an IPv6 one is its scope id.\<close>

datatype socket_addr = SockV4 u32 u16 | SockV6 u128 u16 u32

section \<open>Octets and segments\<close>

definition ipv4_octets :: "u32 \<Rightarrow> byte list" where
  "ipv4_octets ip = u32_be ip"

definition ipv4_of_octets :: "byte list \<Rightarrow> u32" where
  "ipv4_of_octets bs = u32_of_be bs"

definition ipv6_octets :: "u128 \<Rightarrow> byte list" where
  "ipv6_octets ip = be_bytes 16 (unat ip)"

definition ipv6_of_octets :: "byte list \<Rightarrow> u128" where
  "ipv6_of_octets bs = of_nat (be_nat bs)"

definition ipv6_segments :: "u128 \<Rightarrow> nat list" where
  "ipv6_segments ip = map (\<lambda>i. unat ip div 65536 ^ (7 - i) mod 65536) [0..<8]"

definition ipv6_of_segments :: "nat list \<Rightarrow> u128" where
  "ipv6_of_segments gs = of_nat (foldl (\<lambda>n g. n * 65536 + g) 0 gs)"

lemma length_octets [simp, be_simps]:
  "length (ipv4_octets a) = 4" "length (ipv6_octets b) = 16"
  by (simp_all add: ipv4_octets_def ipv6_octets_def)

lemma ipv4_of_octets_octets [simp, be_simps]: "ipv4_of_octets (ipv4_octets ip) = ip"
  by (simp add: ipv4_of_octets_def ipv4_octets_def)

lemma ipv6_of_octets_octets [simp, be_simps]: "ipv6_of_octets (ipv6_octets ip) = ip"
proof -
  have "unat ip < 256 ^ 16" using unsigned_less [of ip] by simp
  then show ?thesis by (simp add: ipv6_of_octets_def ipv6_octets_def be_nat_be_bytes)
qed

lemma ipv4_octets_of_octets [be_simps]: "length bs = 4 \<Longrightarrow> ipv4_octets (ipv4_of_octets bs) = bs"
  by (simp add: ipv4_octets_def ipv4_of_octets_def u32_be_u32_of_be)

lemma ipv6_octets_of_octets [be_simps]: "length bs = 16 \<Longrightarrow> ipv6_octets (ipv6_of_octets bs) = bs"
  using be_nat_bound [of bs] be_bytes_be_nat [of bs]
  by (simp add: ipv6_octets_def ipv6_of_octets_def unat_of_nat)

section \<open>Parsing of IP literals\<close>

text \<open>The reader of \<^verbatim>\<open>std::net\<close>'s parser: a number of at most \<open>max_digits\<close> digits, without
  leading zeros unless they are allowed, with largest value \<open>maxv\<close>; the rest of the text
  follows.\<close>

definition read_number :: "nat \<Rightarrow> nat \<Rightarrow> bool \<Rightarrow> nat \<Rightarrow> string \<Rightarrow> (nat \<times> string) option" where
  "read_number radix max_digits allow_zero_prefix maxv s =
     (let ds = takeWhile (is_digit radix) s; n = length ds in
      if n > max_digits \<or> n = 0 then None
      else if \<not> allow_zero_prefix \<and> hd s = CHR ''0'' \<and> n > 1 then None
      else if digits_value radix ds \<le> maxv then Some (digits_value radix ds, drop n s)
      else None)"

definition read_char :: "char \<Rightarrow> string \<Rightarrow> string option" where
  "read_char c s = (case s of x # xs \<Rightarrow> if x = c then Some xs else None | [] \<Rightarrow> None)"

definition read_octet :: "string \<Rightarrow> (nat \<times> string) option" where
  "read_octet = read_number 10 3 False 255"

definition read_ipv4_addr :: "string \<Rightarrow> (nat list \<times> string) option" where
  "read_ipv4_addr s =
     Option.bind (read_octet s) (\<lambda>(a, s1).
     Option.bind (read_char CHR ''.'' s1) (\<lambda>s2.
     Option.bind (read_octet s2) (\<lambda>(b, s3).
     Option.bind (read_char CHR ''.'' s3) (\<lambda>s4.
     Option.bind (read_octet s4) (\<lambda>(c, s5).
     Option.bind (read_char CHR ''.'' s5) (\<lambda>s6.
     Option.bind (read_octet s6) (\<lambda>(d, s7). Some ([a, b, c, d], s7))))))))"

definition parse_ipv4 :: "string \<Rightarrow> u32 option" where
  "parse_ipv4 s =
     (if length s > 15 then None
      else case read_ipv4_addr s of
        Some (os, []) \<Rightarrow> Some (ipv4_of_octets (map of_nat os))
      | _ \<Rightarrow> None)"

text \<open>\<^verbatim>\<open>read_groups\<close>: from group \<open>i\<close> of at most \<open>limit\<close>, the groups read, whether they end
  in an embedded IPv4 address, and the rest.\<close>

function read_groups :: "nat \<Rightarrow> nat \<Rightarrow> string \<Rightarrow> nat list \<times> bool \<times> string" where
  "read_groups limit i s =
     (if i \<ge> limit then ([], False, s)
      else
        let sep = (if i = 0 then Some s else read_char CHR '':'' s) in
        case (if i + 1 < limit then Option.bind sep read_ipv4_addr else None) of
          Some ([a, b, c, d], r) \<Rightarrow> ([a * 256 + b, c * 256 + d], True, r)
        | _ \<Rightarrow>
          (case Option.bind sep (read_number 16 4 True 65535) of
             None \<Rightarrow> ([], False, s)
           | Some (g, r) \<Rightarrow>
               (case read_groups limit (i + 1) r of (gs, v4, r') \<Rightarrow> (g # gs, v4, r'))))"
  by pat_completeness auto
termination
  by (relation "measure (\<lambda>(limit, i, s). limit - i)") auto

declare read_groups.simps [simp del]

definition read_ipv6_addr :: "string \<Rightarrow> (nat list \<times> string) option" where
  "read_ipv6_addr s =
     (case read_groups 8 0 s of (head, head_ipv4, r) \<Rightarrow>
        if length head = 8 then Some (head, r)
        else if head_ipv4 then None
        else
          Option.bind (read_char CHR '':'' r) (\<lambda>r1.
          Option.bind (read_char CHR '':'' r1) (\<lambda>r2.
            case read_groups (8 - (length head + 1)) 0 r2 of (tail, _, r3) \<Rightarrow>
              Some (head @ replicate (8 - length head - length tail) 0 @ tail, r3))))"

definition parse_ipv6 :: "string \<Rightarrow> u128 option" where
  "parse_ipv6 s =
     (case read_ipv6_addr s of
        Some (gs, []) \<Rightarrow> Some (ipv6_of_segments gs)
      | _ \<Rightarrow> None)"

section \<open>Printing\<close>

definition display_ipv4 :: "u32 \<Rightarrow> string" where
  "display_ipv4 ip = join_with ''.'' (map (\<lambda>b. dec_string (unat b)) (ipv4_octets ip))"

text \<open>The first longest run of zero segments, as start and length.\<close>

fun zero_run :: "nat list \<Rightarrow> nat \<Rightarrow> nat \<times> nat \<Rightarrow> nat \<times> nat \<Rightarrow> nat \<times> nat" where
  "zero_run [] i cur best = best"
| "zero_run (g # gs) i (cs, cl) (bs, bl) =
     (if g = 0 then
        (let cs' = (if cl = 0 then i else cs); cl' = cl + 1 in
         zero_run gs (i + 1) (cs', cl') (if cl' > bl then (cs', cl') else (bs, bl)))
      else zero_run gs (i + 1) (0, 0) (bs, bl))"

definition display_ipv6 :: "u128 \<Rightarrow> string" where
  "display_ipv6 ip =
     (let gs = ipv6_segments ip; hex = (\<lambda>xs. join_with '':'' (map (radix_string 16) xs)) in
      if take 6 gs = [0, 0, 0, 0, 0, 65535]
      then ''::ffff:'' @ display_ipv4 (ipv4_of_octets (drop 12 (ipv6_octets ip)))
      else case zero_run gs 0 (0, 0) (0, 0) of (start, len) \<Rightarrow>
        if len > 1 then hex (take start gs) @ ''::'' @ hex (drop (start + len) gs) else hex gs)"

fun display_address :: "address \<Rightarrow> string" where
  "display_address (Ipv4 i) = display_ipv4 i"
| "display_address (Ipv6 i) = display_ipv6 i"
| "display_address (Hostname h) = h"

definition display_location :: "net_location \<Rightarrow> string" where
  "display_location l = display_address (nl_address l) @ '':'' @ dec_string (unat (nl_port l))"

fun display_socket_addr :: "socket_addr \<Rightarrow> string" where
  "display_socket_addr (SockV4 ip port) = display_ipv4 ip @ '':'' @ dec_string (unat port)"
| "display_socket_addr (SockV6 ip port scope) =
     ''['' @ display_ipv6 ip @ (if scope = 0 then [] else ''%'' @ dec_string (unat scope)) @ '']:''
       @ dec_string (unat port)"

section \<open>Addresses and locations\<close>

text \<open>The scan of \<^verbatim>\<open>Address::from\<close>: number of dots and the three flags, with the loop's
  early exits.\<close>

fun address_scan :: "string \<Rightarrow> nat \<Rightarrow> bool \<Rightarrow> bool \<Rightarrow> bool \<Rightarrow> nat \<times> bool \<times> bool \<times> bool" where
  "address_scan [] dots v4 v6 hn = (dots, v4, v6, hn)"
| "address_scan (c # cs) dots v4 v6 hn =
     (if c = CHR '':'' then (dots, False, v6, False)
      else if c = CHR ''.'' then
        (if dots + 1 > 3 then (dots + 1, v4, False, hn)
         else address_scan cs (dots + 1) v4 False hn)
      else if is_digit 16 c \<and> \<not> is_digit 10 c then address_scan cs dots False v6 hn
      else if \<not> is_digit 10 c then (dots, False, False, hn)
      else address_scan cs dots v4 v6 hn)"

definition address_from :: "string \<Rightarrow> address res" where
  "address_from s =
     (case address_scan s 0 True True True of (dots, possible_ipv4, possible_ipv6, possible_hostname) \<Rightarrow>
        case (if possible_ipv4 \<and> dots = 3 then parse_ipv4 s else None) of
          Some addr \<Rightarrow> Ok (Ipv4 addr)
        | None \<Rightarrow>
          (case (if possible_ipv6 then parse_ipv6 s else None) of
             Some addr \<Rightarrow> Ok (Ipv6 addr)
           | None \<Rightarrow>
             if possible_hostname then Ok (Hostname s)
             else Err (IoError InvalidData ''Failed to parse address'')))"

definition address_is_ipv6 :: "address \<Rightarrow> bool" where
  "address_is_ipv6 a = (case a of Ipv6 _ \<Rightarrow> True | _ \<Rightarrow> False)"

definition address_hostname :: "address \<Rightarrow> string option" where
  "address_hostname a = (case a of Hostname h \<Rightarrow> Some h | _ \<Rightarrow> None)"

definition net_location_new :: "address \<Rightarrow> u16 \<Rightarrow> net_location" where
  "net_location_new a p = \<lparr>nl_address = a, nl_port = p\<rparr>"

definition net_location_unspecified :: net_location where
  "net_location_unspecified = net_location_new (Ipv4 0) 0"

definition is_unspecified :: "net_location \<Rightarrow> bool" where
  "is_unspecified l \<longleftrightarrow> l = net_location_unspecified"

definition net_location_from_str :: "string \<Rightarrow> u16 option \<Rightarrow> net_location res" where
  "net_location_from_str s default_port =
     (let (address_str, port, expect_ipv6) =
        (case split_last CHR '':'' s of
           Some (a, p) \<Rightarrow>
             (case parse_uint 65535 p of
                Some port \<Rightarrow> (a, Some (of_nat port), False)
              | None \<Rightarrow> (s, default_port, True))
         | None \<Rightarrow> (s, default_port, False))
      in bind_res (address_from address_str) (\<lambda>address.
           if expect_ipv6 \<and> \<not> address_is_ipv6 address then Err (other_error ''Invalid location'')
           else bind_res (res_of_option (other_error ''No port'') port) (\<lambda>port.
             Ok (net_location_new address port))))"

text \<open>A location in a configuration file is its text.\<close>

definition net_location_deserialize :: "string \<Rightarrow> net_location res" where
  "net_location_deserialize s = net_location_from_str s None"

definition net_location_components :: "net_location \<Rightarrow> address \<times> u16" where
  "net_location_components l = (nl_address l, nl_port l)"

definition to_socket_addr_nonblocking :: "net_location \<Rightarrow> socket_addr option" where
  "to_socket_addr_nonblocking l =
     (case nl_address l of
        Ipv6 addr \<Rightarrow> Some (SockV6 addr (nl_port l) 0)
      | Ipv4 addr \<Rightarrow> Some (SockV4 addr (nl_port l))
      | Hostname _ \<Rightarrow> None)"

fun socket_addr_is_ipv6 :: "socket_addr \<Rightarrow> bool" where
  "socket_addr_is_ipv6 (SockV4 _ _) = False"
| "socket_addr_is_ipv6 (SockV6 _ _ _) = True"

section \<open>Printed numbers under the readers\<close>

lemma digit_not_separator:
  "\<not> is_digit 10 CHR ''.''" "\<not> is_digit 10 CHR '':''" "\<not> is_digit 16 CHR ''[''"
  by (simp_all add: is_digit_def to_digit_def)

lemma dec_string_digit: "c \<in> set (dec_string n) \<Longrightarrow> is_digit 10 c"
  using radix_string_digits [of 10 n] by simp

lemma takeWhile_dec_string:
  "(case rest of [] \<Rightarrow> True | c # cs \<Rightarrow> \<not> is_digit 10 c) \<Longrightarrow>
   takeWhile (is_digit 10) (dec_string n @ rest) = dec_string n"
  using dec_string_digit [of _ n] by (cases rest) (auto simp: takeWhile_append)

lemma read_octet_dec_string:
  assumes "n \<le> 255" and "case rest of [] \<Rightarrow> True | c # cs \<Rightarrow> \<not> is_digit 10 c"
  shows "read_octet (dec_string n @ rest) = Some (n, rest)"
proof -
  have "length (dec_string n) \<le> 3"
    using assms(1) length_dec_string [of n 2] by (simp add: eval_nat_numeral)
  moreover have "hd (dec_string n) = CHR ''0'' \<Longrightarrow> length (dec_string n) = 1"
    using dec_string_no_leading_zero [of n] by simp
  ultimately show ?thesis
    using assms by (auto simp: read_octet_def read_number_def takeWhile_dec_string Let_def
        radix_string_value hd_append)
qed

lemma address_scan_digits:
  "\<forall>c \<in> set ds. is_digit 10 c \<Longrightarrow> address_scan (ds @ rest) k v4 v6 hn = address_scan rest k v4 v6 hn"
  using digit_not_separator by (induction ds) auto

lemma address_scan_dec_string [simp]:
  "address_scan (dec_string n @ rest) k v4 v6 hn = address_scan rest k v4 v6 hn"
  by (rule address_scan_digits) (simp add: dec_string_digit)

lemma address_scan_dec_string_end [simp]: "address_scan (dec_string n) k v4 v6 hn = (k, v4, v6, hn)"
  using address_scan_dec_string [of n "[]"] by simp

section \<open>Round trips\<close>

lemma display_ipv4_octets:
  "ipv4_octets ip = [a, b, c, d] \<Longrightarrow>
   display_ipv4 ip = dec_string (unat a) @ ''.'' @ dec_string (unat b) @ ''.''
     @ dec_string (unat c) @ ''.'' @ dec_string (unat d)"
  by (simp add: display_ipv4_def)

lemma octets_4:
  obtains a b c d where "ipv4_octets ip = [a, b, c, d]"
proof -
  have "length (ipv4_octets ip) = Suc (Suc (Suc (Suc 0)))"
    by simp
  then show ?thesis
    using that by (auto simp only: length_Suc_conv length_0_conv)
qed

lemma parse_ipv4_display [simp, text_simps]: "parse_ipv4 (display_ipv4 ip) = Some ip"
proof -
  obtain a b c d where os: "ipv4_octets ip = [a, b, c, d]"
    by (rule octets_4)
  have le: "unat x \<le> 255" for x :: byte
    using unat_byte_less [of x] by simp
  have len: "length (dec_string (unat x)) \<le> 3" for x :: byte
    using le [of x] length_dec_string [of "unat x" 2] by (simp add: eval_nat_numeral)
  have "read_ipv4_addr (display_ipv4 ip) = Some ([unat a, unat b, unat c, unat d], [])"
    using read_octet_dec_string [of "unat d" "[]"] le
    by (simp add: display_ipv4_octets [OF os] read_ipv4_addr_def read_octet_dec_string
        digit_not_separator read_char_def)
  moreover have "length (display_ipv4 ip) \<le> 15"
    using len [of a] len [of b] len [of c] len [of d] by (simp add: display_ipv4_octets [OF os])
  moreover have "ipv4_of_octets [a, b, c, d] = ip"
    using ipv4_of_octets_octets [of ip] os by simp
  ultimately show ?thesis
    by (simp add: parse_ipv4_def)
qed

lemma address_from_display_ipv4 [simp, text_simps]: "address_from (display_ipv4 ip) = Ok (Ipv4 ip)"
proof -
  obtain a b c d where os: "ipv4_octets ip = [a, b, c, d]"
    by (rule octets_4)
  then have "address_scan (display_ipv4 ip) 0 True True True = (3, True, False, True)"
    by (simp add: display_ipv4_octets)
  then show ?thesis
    by (simp add: address_from_def)
qed

lemma u16_le_65535: "unat (p :: u16) \<le> 65535"
proof -
  have "unat p < 2 ^ LENGTH(16)" by (rule unsigned_less)
  then show ?thesis by simp
qed

text \<open>The text before the last colon is the address, the number after it the port, whatever
  the address looks like.\<close>

lemma net_location_from_str_port:
  "net_location_from_str (a @ '':'' @ dec_string (unat p)) default_port =
     bind_res (address_from a) (\<lambda>address. Ok (net_location_new address p))"
proof -
  have "CHR '':'' \<notin> set (dec_string (unat p))"
    using dec_string_digit digit_not_separator by blast
  then show ?thesis
    by (simp add: net_location_from_str_def u16_le_65535)
qed

lemma address_from_no_panic: "address_from s \<noteq> Panic"
  unfolding address_from_def by (auto split: prod.splits option.splits if_splits)

lemma net_location_no_panic: "net_location_from_str a p \<noteq> Panic"
  using address_from_no_panic unfolding net_location_from_str_def Let_def
  by (auto simp: bind_res_Panic_iff split: prod.splits option.splits if_splits)

text \<open>A location printed by \<^verbatim>\<open>Display\<close> and read back by \<^verbatim>\<open>NetLocation::from_str\<close> is the same
  location, for every IPv4 address and port.\<close>

theorem net_location_ipv4_roundtrip:
  "net_location_from_str (display_location (net_location_new (Ipv4 ip) p)) default_port
     = Ok (net_location_new (Ipv4 ip) p)"
  using net_location_from_str_port [of "display_ipv4 ip" p default_port]
  by (simp add: display_location_def net_location_new_def)

text \<open>The bracketed form of an IPv6 location, which the comment on \<^verbatim>\<open>from_str\<close> promises, is not
  recognised: whatever stands between the brackets, the result is a host name that still
  has the brackets in it.\<close>

theorem bracketed_location_is_hostname:
  "net_location_from_str (''['' @ s @ '']:'' @ dec_string (unat p)) default_port
     = Ok (net_location_new (Hostname (''['' @ s @ '']'')) p)"
proof -
  have "address_from (CHR ''['' # s @ '']'') = Ok (Hostname (CHR ''['' # s @ '']''))"
    by (simp add: address_from_def is_digit_def to_digit_def)
  then show ?thesis
    using net_location_from_str_port [of "''['' @ s @ '']''" p] by simp
qed

text \<open>A named location, for examples.\<close>

definition demo_name :: net_location where
  "demo_name = \<lparr>nl_address = Hostname ''zz'', nl_port = 1\<rparr>"

lemma demo_name_parsed: "net_location_from_str ''zz:1'' None = Ok demo_name"
proof -
  have "address_from ''zz'' = Ok (Hostname ''zz'')"
    by (simp add: address_from_def is_digit_def to_digit_def)
  moreover have "dec_string 1 = ''1''" by code_simp
  ultimately show ?thesis
    using net_location_from_str_port [of "''zz''" 1 None] by (simp add: net_location_new_def demo_name_def)
qed

lemma demo_utf8: "from_utf8 (bytes_of ''zz:1'') = Some ''zz:1''"
  by (rule from_utf8_ascii) code_simp

end
