(* ===== verification/Anytls_Types.thy ===== *)
theory Anytls_Types
  imports Rust_Text
begin

text \<open>
  \<^verbatim>\<open>src/anytls/types.rs\<close>: the commands and frames of the AnyTLS protocol, the frame codec and
  the key/value text of settings. \<open>frame_decode\<close> consumes one frame from the front of a
  receive buffer; \<open>decode_frames\<close> is the loop of \<^verbatim>\<open>recv_loop\<close> that takes all complete frames.
  A \<^verbatim>\<open>HashMap\<close> of settings is a partial map; the order in which \<^verbatim>\<open>to_bytes\<close> iterates over it
  is a parameter, the list of its entries.
\<close>

section \<open>Commands and frames\<close>

datatype command =
    Waste | Syn | Psh | Fin | Settings | Alert | UpdatePaddingScheme | SynAck
  | HeartRequest | HeartResponse | ServerSettings

fun command_u8 :: "command \<Rightarrow> byte" where
  "command_u8 Waste = 0"
| "command_u8 Syn = 1"
| "command_u8 Psh = 2"
| "command_u8 Fin = 3"
| "command_u8 Settings = 4"
| "command_u8 Alert = 5"
| "command_u8 UpdatePaddingScheme = 6"
| "command_u8 SynAck = 7"
| "command_u8 HeartRequest = 8"
| "command_u8 HeartResponse = 9"
| "command_u8 ServerSettings = 10"

definition command_try_from :: "byte \<Rightarrow> command res" where
  "command_try_from value =
     (if value = 0 then Ok Waste else if value = 1 then Ok Syn else if value = 2 then Ok Psh
      else if value = 3 then Ok Fin else if value = 4 then Ok Settings
      else if value = 5 then Ok Alert else if value = 6 then Ok UpdatePaddingScheme
      else if value = 7 then Ok SynAck else if value = 8 then Ok HeartRequest
      else if value = 9 then Ok HeartResponse else if value = 10 then Ok ServerSettings
      else Err (IoError InvalidData ''unknown command''))"

record frame =
  fr_cmd :: command
  fr_stream_id :: u32
  fr_data :: "byte list"

abbreviation frame_header_size :: nat where
  "frame_header_size \<equiv> 7"

definition frame_with_data :: "command \<Rightarrow> u32 \<Rightarrow> byte list \<Rightarrow> frame" where
  "frame_with_data c i d = \<lparr>fr_cmd = c, fr_stream_id = i, fr_data = d\<rparr>"

definition frame_control :: "command \<Rightarrow> u32 \<Rightarrow> frame" where
  "frame_control c i = frame_with_data c i []"

definition data_frame :: "u32 \<Rightarrow> byte list \<Rightarrow> frame" where
  "data_frame i d = frame_with_data Psh i d"

text \<open>\<^verbatim>\<open>encode_into\<close>: the length field is \<^verbatim>\<open>data.len() as u16\<close>, which drops the high bits.\<close>

definition encode_into :: "frame \<Rightarrow> byte list \<Rightarrow> byte list" where
  "encode_into f buf =
     buf @ [command_u8 (fr_cmd f)] @ u32_be (fr_stream_id f)
       @ u16_be (of_nat (length (fr_data f))) @ fr_data f"

definition decode_header :: "byte list \<Rightarrow> (command \<times> u32 \<times> u16) res" where
  "decode_header header =
     bind_res (command_try_from (header ! 0)) (\<lambda>cmd.
       Ok (cmd, u32_of_be (slice_of 1 5 header), u16_of_be (slice_of 5 7 header)))"

text \<open>\<^verbatim>\<open>FrameCodec::decode\<close>: the frame, if a whole one is there, and the buffer after it.\<close>

definition frame_decode :: "byte list \<Rightarrow> (frame option \<times> byte list) res" where
  "frame_decode buf =
     (if length buf < frame_header_size then Ok (None, buf)
      else bind_res (decode_header (take frame_header_size buf)) (\<lambda>(cmd, stream_id, data_len).
        if length buf < frame_header_size + unat data_len then Ok (None, buf)
        else
          let body = drop frame_header_size buf in
          Ok (Some \<lparr>fr_cmd = cmd, fr_stream_id = stream_id, fr_data = take (unat data_len) body\<rparr>,
              drop (unat data_len) body)))"

section \<open>Frame round trips\<close>

abbreviation frame_bytes :: "frame \<Rightarrow> byte list" where
  "frame_bytes f \<equiv> encode_into f []"

definition frame_ok :: "frame \<Rightarrow> bool" where
  "frame_ok f \<longleftrightarrow> length (fr_data f) \<le> 65535"

lemma command_try_from_u8 [simp]: "command_try_from (command_u8 c) = Ok c"
  by (cases c) (simp_all add: command_try_from_def)

lemma command_u8_try_from: "command_try_from v = Ok c \<Longrightarrow> command_u8 c = v"
  by (auto simp: command_try_from_def split: if_splits)

lemma encode_into_append: "encode_into f buf = buf @ frame_bytes f"
  by (simp add: encode_into_def)

lemma length_frame_bytes [simp]: "length (frame_bytes f) = frame_header_size + length (fr_data f)"
  by (simp add: encode_into_def)

lemma unat_length_u16: "n \<le> 65535 \<Longrightarrow> unat (of_nat n :: u16) = n"
  by (simp add: unat_of_nat)

text \<open>The header of an encoded frame decodes to its fields.\<close>

lemma decode_header_encoded:
  "decode_header (take frame_header_size (frame_bytes f)) =
     Ok (fr_cmd f, fr_stream_id f, of_nat (length (fr_data f)))"
proof -
  obtain b1 b2 b3 b4 where i: "u32_be (fr_stream_id f) = [b1, b2, b3, b4]"
    using length_u_be(2) [of "fr_stream_id f"]
    by (auto simp: numeral_eq_Suc length_Suc_conv simp del: length_u_be)
  obtain c1 c2 where l: "u16_be (of_nat (length (fr_data f))) = [c1, c2]"
    using length_u_be(1) [of "of_nat (length (fr_data f))"]
    by (auto simp: numeral_eq_Suc length_Suc_conv simp del: length_u_be)
  have "u32_of_be [b1, b2, b3, b4] = fr_stream_id f"
    using u32_of_be_u32_be [of "fr_stream_id f"] i by simp
  moreover have "u16_of_be [c1, c2] = of_nat (length (fr_data f))"
    using u16_of_be_u16_be [of "of_nat (length (fr_data f))"] l by simp
  ultimately show ?thesis
    by (simp add: decode_header_def encode_into_def i l slice_of_def)
qed

lemma frame_decode_encoded:
  assumes "frame_ok f"
  shows "frame_decode (frame_bytes f @ rest) = Ok (Some f, rest)"
proof -
  have len: "unat (of_nat (length (fr_data f)) :: u16) = length (fr_data f)"
    using assms by (simp add: frame_ok_def unat_length_u16)
  have "drop frame_header_size (frame_bytes f) = fr_data f"
    by (simp add: encode_into_def)
  then show ?thesis
    by (simp add: frame_decode_def decode_header_encoded len)
qed

text \<open>A whole frame less some of its last bytes is incomplete: nothing is taken.\<close>

lemma frame_decode_prefix:
  assumes "frame_ok f" and "n < length (frame_bytes f)"
  shows "frame_decode (take n (frame_bytes f)) = Ok (None, take n (frame_bytes f))"
proof (cases "n < frame_header_size")
  case True
  then show ?thesis by (simp add: frame_decode_def)
next
  case False
  then have "take frame_header_size (take n (frame_bytes f)) = take frame_header_size (frame_bytes f)"
    by (simp add: min_def)
  then show ?thesis
    using assms False decode_header_encoded [of f]
    by (simp add: frame_decode_def frame_ok_def unat_length_u16)
qed

text \<open>Conversely, what is taken was the encoding of the frame returned.\<close>

lemma frame_decode_Some:
  assumes "frame_decode buf = Ok (Some f, rest)"
  shows "buf = frame_bytes f @ rest \<and> frame_ok f"
proof -
  from assms obtain cmd i l where h: "decode_header (take 7 buf) = Ok (cmd, i, l)"
    and len: "7 \<le> length buf" "7 + unat l \<le> length buf"
    and f: "f = \<lparr>fr_cmd = cmd, fr_stream_id = i, fr_data = take (unat l) (drop 7 buf)\<rparr>"
    and rest: "rest = drop (unat l) (drop 7 buf)"
    by (auto simp: frame_decode_def bind_res_Ok_iff Let_def split: if_splits)
  from h have cmd: "command_u8 cmd = buf ! 0" and i: "i = u32_of_be (slice_of 1 5 buf)"
    and l: "l = u16_of_be (slice_of 5 7 buf)"
    using len by (auto simp: decode_header_def bind_res_Ok_iff command_u8_try_from slice_of_def
        drop_take min_def)
  have data_len: "length (fr_data f) = unat l"
    using f len by simp
  have "frame_bytes f = [buf ! 0] @ slice_of 1 5 buf @ slice_of 5 7 buf @ take (unat l) (drop 7 buf)"
    using f cmd i l len data_len by (simp add: encode_into_def u32_be_u32_of_be u16_be_u16_of_be)
  also have "[buf ! 0] = slice_of 0 1 buf"
    using len by (cases buf) auto
  also have "slice_of 0 1 buf @ slice_of 1 5 buf @ slice_of 5 7 buf @ take (unat l) (drop 7 buf)
      = take 7 buf @ take (unat l) (drop 7 buf)"
    using slice_append_adj [of 0 1 5 buf] slice_append_adj [of 0 5 7 buf]
    by (metis append_assoc le_numeral_extra(3) one_le_numeral slice_0 zero_le
        eq_numeral_simps(3) numeral_le_iff semiring_norm(68) semiring_norm(72) semiring_norm(73))
  finally have "frame_bytes f @ rest = buf"
    by (simp only: rest append_assoc append_take_drop_id)
  moreover have "unat l \<le> 65535"
  proof -
    have "unat l < 2 ^ LENGTH(16)" by (rule unsigned_less)
    then show ?thesis by simp
  qed
  ultimately show ?thesis
    using data_len by (simp add: frame_ok_def)
qed

lemma frame_decode_None: "frame_decode buf = Ok (None, rest) \<Longrightarrow> rest = buf"
  by (auto simp: frame_decode_def bind_res_Ok_iff Let_def split: if_splits)

lemma frame_decode_not_Panic: "frame_decode buf \<noteq> Panic"
proof -
  have "decode_header h \<noteq> Panic" for h
    by (auto simp: decode_header_def command_try_from_def)
  then show ?thesis
    by (cases "decode_header (take 7 buf)") (auto simp: frame_decode_def Let_def split: if_splits)
qed

lemma frame_decode_Err_append: "frame_decode a = Err e \<Longrightarrow> frame_decode (a @ b) = Err e"
  by (cases "decode_header (take 7 a)") (auto simp: frame_decode_def Let_def split: if_splits)

section \<open>All the frames of a buffer\<close>

function decode_frames :: "byte list \<Rightarrow> frame list \<times> byte list res" where
  "decode_frames buf =
     (case frame_decode buf of
        Ok (Some f, rest) \<Rightarrow> (case decode_frames rest of (fs, r) \<Rightarrow> (f # fs, r))
      | Ok (None, rest) \<Rightarrow> ([], Ok rest)
      | Err e \<Rightarrow> ([], Err e)
      | Panic \<Rightarrow> ([], Panic))"
  by pat_completeness auto
termination
  by (relation "measure length") (auto dest!: frame_decode_Some)

declare decode_frames.simps [simp del]

lemma decode_frames_Some:
  "frame_decode buf = Ok (Some f, rest) \<Longrightarrow>
   decode_frames buf = (f # fst (decode_frames rest), snd (decode_frames rest))"
  by (simp add: decode_frames.simps [of buf] split: prod.splits)

lemma decode_frames_None: "frame_decode buf = Ok (None, rest) \<Longrightarrow> decode_frames buf = ([], Ok buf)"
  using frame_decode_None [of buf rest] by (simp add: decode_frames.simps [of buf])

lemma decode_frames_Err: "frame_decode buf = Err e \<Longrightarrow> decode_frames buf = ([], Err e)"
  by (simp add: decode_frames.simps [of buf])

lemma frame_decode_cases:
  obtains (some) f rest where "frame_decode buf = Ok (Some f, rest)"
  | (none) "frame_decode buf = Ok (None, buf)"
  | (err) e where "frame_decode buf = Err e"
proof (cases "frame_decode buf")
  case (Ok p)
  obtain r rest where "p = (r, rest)" by (cases p)
  with Ok show ?thesis
    using frame_decode_None [of buf rest] some none by (cases r) auto
next
  case (Err e)
  then show ?thesis by (rule err)
next
  case Panic
  with frame_decode_not_Panic show ?thesis by blast
qed

text \<open>Where the bytes of a connection are cut does not matter: taking all frames of a first
  piece and then all frames of what is left together with the next piece is taking all
  frames of the two pieces together.\<close>

lemma decode_frames_append:
  "decode_frames (a @ b) =
     (case decode_frames a of
        (fs, Ok r) \<Rightarrow> (fs @ fst (decode_frames (r @ b)), snd (decode_frames (r @ b)))
      | (fs, Err e) \<Rightarrow> (fs, Err e)
      | (fs, Panic) \<Rightarrow> (fs, Panic))"
proof (induction a rule: decode_frames.induct)
  case (1 a)
  show ?case
  proof (cases rule: frame_decode_cases [of a])
    case (some f r)
    then have "frame_decode (a @ b) = Ok (Some f, r @ b)"
      using frame_decode_Some [OF some] by (simp add: frame_decode_encoded)
    with some 1 [OF some refl refl] show ?thesis
      by (auto simp: decode_frames_Some split: prod.splits res.splits)
  next
    case none
    then show ?thesis by (simp add: decode_frames_None)
  next
    case (err e)
    then show ?thesis by (simp add: decode_frames_Err frame_decode_Err_append)
  qed
qed

lemma decode_frames_encoded:
  "\<forall>f \<in> set fs. frame_ok f \<Longrightarrow>
   decode_frames (concat (map (\<lambda>f. frame_bytes f) fs) @ rest) =
     (fs @ fst (decode_frames rest), snd (decode_frames rest))"
proof (induction fs)
  case Nil
  show ?case by simp
next
  case (Cons f fs)
  then have "frame_decode (frame_bytes f @ concat (map (\<lambda>f. frame_bytes f) fs) @ rest)
      = Ok (Some f, concat (map (\<lambda>f. frame_bytes f) fs) @ rest)"
    by (simp add: frame_decode_encoded)
  with Cons show ?case by (simp add: decode_frames_Some)
qed

text \<open>C15. Frames survive the connection: the bytes of any frames with at most 65535 bytes of data
  each, followed by the beginning of another frame and cut anywhere into two reads, decode
  to exactly those frames in order, and the beginning stays in the buffer for the next
  read.\<close>

theorem frame_stream_roundtrip:
  assumes "\<forall>f \<in> set fs. frame_ok f" and "frame_ok g" and "n < length (frame_bytes g)"
    and "concat (map (\<lambda>f. frame_bytes f) fs) @ take n (frame_bytes g) = first @ second"
    and "decode_frames first = (fs1, Ok buffer)"
  shows "fs1 @ fst (decode_frames (buffer @ second)) = fs
       \<and> snd (decode_frames (buffer @ second)) = Ok (take n (frame_bytes g))"
proof -
  have "decode_frames (take n (frame_bytes g)) = ([], Ok (take n (frame_bytes g)))"
    using frame_decode_prefix [OF assms(2,3)] by (rule decode_frames_None)
  then have "decode_frames (first @ second) = (fs, Ok (take n (frame_bytes g)))"
    using decode_frames_encoded [OF assms(1), of "take n (frame_bytes g)"] assms(4) by simp
  then show ?thesis
    using decode_frames_append [of first second] assms(5) by simp
qed

theorem frame_stream_roundtrip_witness:
  "[] @ fst (decode_frames ([3] @ [0, 0, 0, 9, 0, 0, 2])) = [frame_control Fin 9]
   \<and> snd (decode_frames ([3] @ [0, 0, 0, 9, 0, 0, 2])) = Ok (take 1 (frame_bytes (data_frame 1 [5])))"
proof (rule frame_stream_roundtrip [where first = "[3]" and g = "data_frame 1 [5]"])
  show "\<forall>f \<in> set [frame_control Fin 9]. frame_ok f" "frame_ok (data_frame 1 [5])"
    by (simp_all add: frame_ok_def frame_control_def frame_with_data_def data_frame_def)
  show "1 < length (frame_bytes (data_frame 1 [5]))"
    by simp
  show "concat (map (\<lambda>f. frame_bytes f) [frame_control Fin 9]) @ take 1 (frame_bytes (data_frame 1 [5]))
      = [3] @ [0, 0, 0, 9, 0, 0, 2]"
    by (simp add: encode_into_def frame_control_def frame_with_data_def data_frame_def u_be_eval)
  show "decode_frames [3] = ([], Ok [3])"
    by (rule decode_frames_None [of _ "[3]"]) (simp add: frame_decode_def)
qed

section \<open>Settings text\<close>

type_synonym string_map = "string \<rightharpoonup> string"

definition string_map_from_bytes :: "byte list \<Rightarrow> string_map" where
  "string_map_from_bytes data =
     foldl (\<lambda>m line. case split_once CHR ''='' line of
                Some (key, value) \<Rightarrow> m(key \<mapsto> value)
              | None \<Rightarrow> m)
       Map.empty (text_lines (from_utf8_lossy data))"

definition entry_text :: "string \<times> string \<Rightarrow> string" where
  "entry_text kv = fst kv @ ''='' @ snd kv"

definition string_map_to_bytes :: "(string \<times> string) list \<Rightarrow> byte list" where
  "string_map_to_bytes entries = bytes_of (join_with [CHR 0x0A] (map entry_text entries))"

text \<open>What an entry must look like to survive: its parts are Rust strings, the key has no
  equals sign, neither part has a newline and the value does not end in a carriage
  return.\<close>

definition entry_ok :: "string \<times> string \<Rightarrow> bool" where
  "entry_ok kv \<longleftrightarrow>
     utf8_ok (map of_char (entry_text kv)) \<and> CHR ''='' \<notin> set (fst kv)
     \<and> CHR 0x0A \<notin> set (entry_text kv) \<and> (snd kv = [] \<or> last (snd kv) \<noteq> CHR 0x0D)"

lemma utf8_ok_join:
  "\<forall>p \<in> set ps. utf8_ok (map of_char p) \<Longrightarrow>
   utf8_ok (map of_char (join_with [CHR 0x0A] ps))"
proof (induction "[CHR 0x0A]" ps rule: join_with.induct)
  case 1
  show ?case by (simp add: utf8_ok_ascii)
next
  case (2 p)
  then show ?case by simp
next
  case (3 p q ps)
  have nl: "utf8_ok [10]"
    by (rule utf8_ok_ascii) simp
  have "utf8_ok (map of_char (join_with [CHR 0x0A] (q # ps)))"
    using 3 by simp
  then have "utf8_ok ([10] @ map of_char (join_with [CHR 0x0A] (q # ps)))"
    by (rule utf8_ok_append [OF nl])
  then have "utf8_ok (map of_char p @ [10] @ map of_char (join_with [CHR 0x0A] (q # ps)))"
    using 3(2) by (intro utf8_ok_append [of "map of_char p"]) simp_all
  then show ?case by simp
qed

lemma from_utf8_lossy_bytes_of: "utf8_ok (map of_char s) \<Longrightarrow> from_utf8_lossy (bytes_of s) = s"
  by (rule from_utf8_lossy_valid) (simp add: from_utf8_def unat_bytes_of)

lemma foldl_map_upd:
  "foldl (\<lambda>m kv. m(fst kv \<mapsto> snd kv)) m kvs = m ++ map_of (rev kvs)"
  by (induction kvs arbitrary: m) auto

lemma map_of_rev_distinct: "distinct (map fst kvs) \<Longrightarrow> map_of (rev kvs) = map_of kvs"
proof (induction kvs)
  case Nil
  show ?case by simp
next
  case (Cons kv kvs)
  then have "fst kv \<notin> dom (map_of kvs)"
    by (simp add: dom_map_of_conv_image_fst)
  with Cons show ?case
    by (auto simp: map_add_def fun_eq_iff split: option.splits)
qed

lemma split_once_entry: "entry_ok kv \<Longrightarrow> split_once CHR ''='' (entry_text kv) = Some kv"
  by (cases kv) (simp add: entry_ok_def entry_text_def)

lemma entry_line_ok:
  "entry_ok kv \<Longrightarrow>
   CHR 0x0A \<notin> set (entry_text kv) \<and> entry_text kv \<noteq> [] \<and> last (entry_text kv) \<noteq> CHR 0x0D"
  by (auto simp: entry_ok_def entry_text_def)

lemma string_map_lines:
  assumes "\<forall>kv \<in> set entries. entry_ok kv"
  shows "text_lines (from_utf8_lossy (string_map_to_bytes entries)) = map entry_text entries"
proof -
  have "utf8_ok (map of_char (join_with [CHR 0x0A] (map entry_text entries)))"
    using assms by (intro utf8_ok_join) (auto simp: entry_ok_def)
  then have "from_utf8_lossy (string_map_to_bytes entries)
      = join_with [CHR 0x0A] (map entry_text entries)"
    by (simp add: string_map_to_bytes_def from_utf8_lossy_bytes_of)
  then show ?thesis
    using assms entry_line_ok by (simp add: text_lines_join)
qed

lemma string_map_parse:
  assumes "\<forall>kv \<in> set entries. entry_ok kv" and "distinct (map fst entries)"
  shows "string_map_from_bytes (string_map_to_bytes entries) = map_of entries"
proof -
  have "foldl (\<lambda>m line. case split_once CHR ''='' line of
            Some (key, value) \<Rightarrow> m(key \<mapsto> value) | None \<Rightarrow> m) m (map entry_text entries)
      = foldl (\<lambda>m kv. m(fst kv \<mapsto> snd kv)) m entries" for m
    using assms(1) by (induction entries arbitrary: m) (simp_all add: split_once_entry split_beta)
  then show ?thesis
    using assms by (simp add: string_map_from_bytes_def string_map_lines foldl_map_upd
        map_of_rev_distinct)
qed

text \<open>C37. A settings map survives serialisation: in whatever order its entries are written,
  parsing the bytes gives the same map, as long as the entries have no newline, no equals
  sign in the key and no carriage return at the end of the value.\<close>

theorem string_map_roundtrip:
  assumes "\<forall>kv \<in> set entries. entry_ok kv" and "distinct (map fst entries)"
  shows "string_map_from_bytes (string_map_to_bytes entries) = map_of entries"
  by (rule string_map_parse [OF assms])

theorem string_map_roundtrip_witness:
  "string_map_from_bytes (string_map_to_bytes [(''v'', ''2''), (''client'', ''a=b'')])
     = map_of [(''v'', ''2''), (''client'', ''a=b'')]"
proof (rule string_map_roundtrip)
  show "\<forall>kv \<in> set [(''v'', ''2''), (''client'', ''a=b'')]. entry_ok kv"
    by (simp add: entry_ok_def entry_text_def utf8_ok_ascii)
  show "distinct (map fst [(''v'', ''2''), (''client'', ''a=b'')])"
    by simp
qed

end
