(* ===== verification/Async_Stream.thy ===== *)
theory Async_Stream
  imports Prelude
begin

text \<open>
  The stream interfaces of \<^verbatim>\<open>src/async_stream.rs\<close> and \<^verbatim>\<open>src/util.rs\<close>. Rust code generic over a
  stream type takes its operations as arguments here: a \<open>reader\<close> is \<^verbatim>\<open>poll_read\<close> (state,
  room in the \<^verbatim>\<open>ReadBuf\<close>, result, next state), a \<open>writer\<close> is \<^verbatim>\<open>poll_write\<close>. The locales
  \<open>byte_source\<close> and \<open>byte_sink\<close> state the contract of \<^verbatim>\<open>AsyncRead\<close> and \<^verbatim>\<open>AsyncWrite\<close> that the
  program relies on: what is still to be delivered, what has been taken. They are
  interpreted by \<^verbatim>\<open>AnyTlsStream\<close> (theory \<open>Anytls_Stream\<close>) and, standing for sockets, by the
  scripts at the end of this theory.

  Awaiting is polling again until the result is ready; where a wait could last forever the
  functions are partial and return \<^term>\<open>None\<close> for a wait that never ends.
\<close>

type_synonym 's reader = "'s \<Rightarrow> nat \<Rightarrow> byte list res poll \<times> 's"
type_synonym 'w writer = "'w \<Rightarrow> byte list \<Rightarrow> nat res poll \<times> 'w"

type_synonym 's flusher = "'s \<Rightarrow> unit res poll \<times> 's"

section \<open>The traits\<close>

text \<open>A type with \<^verbatim>\<open>AsyncStream\<close>, \<^verbatim>\<open>AsyncMessageStream\<close> or \<^verbatim>\<open>AsyncTargetedMessageStream\<close> is the record
  of its operations.\<close>

record 's async_ping =
  op_supports_ping :: "'s \<Rightarrow> bool"
  op_write_ping :: "'s \<Rightarrow> bool res poll \<times> 's"

record 's async_stream = "'s async_ping" +
  op_read :: "'s reader"
  op_write :: "'s writer"
  op_flush :: "'s flusher"
  op_shutdown :: "'s flusher"

record 's message_stream = "'s async_ping" +
  op_read_message :: "'s reader"
  op_write_message :: "'s \<Rightarrow> byte list \<Rightarrow> unit res poll \<times> 's"
  op_flush_message :: "'s flusher"
  op_shutdown_message :: "'s flusher"

record ('s, 'loc, 'sock) targeted_stream = "'s async_ping" +
  op_read_targeted :: "'s \<Rightarrow> nat \<Rightarrow> ('loc \<times> byte list) res poll \<times> 's"
  op_write_sourced :: "'s \<Rightarrow> byte list \<Rightarrow> 'sock \<Rightarrow> (unit res poll \<times> 's) option"
  op_flush_targeted :: "'s \<Rightarrow> (unit res poll \<times> 's) option"
  op_shutdown_targeted :: "'s \<Rightarrow> (unit res poll \<times> 's) option"

text \<open>The implementations for \<^verbatim>\<open>Box<T>\<close> and \<^verbatim>\<open>&mut T\<close> pass every call on to the stream inside.\<close>

definition box_stream :: "'s async_stream \<Rightarrow> 's async_stream" where
  "box_stream inner =
     \<lparr>op_supports_ping = (\<lambda>s. op_supports_ping inner s), op_write_ping = (\<lambda>s. op_write_ping inner s),
      op_read = (\<lambda>s n. op_read inner s n), op_write = (\<lambda>s bs. op_write inner s bs),
      op_flush = (\<lambda>s. op_flush inner s), op_shutdown = (\<lambda>s. op_shutdown inner s)\<rparr>"

definition box_message_stream :: "'s message_stream \<Rightarrow> 's message_stream" where
  "box_message_stream inner =
     \<lparr>op_supports_ping = (\<lambda>s. op_supports_ping inner s), op_write_ping = (\<lambda>s. op_write_ping inner s),
      op_read_message = (\<lambda>s n. op_read_message inner s n),
      op_write_message = (\<lambda>s bs. op_write_message inner s bs),
      op_flush_message = (\<lambda>s. op_flush_message inner s),
      op_shutdown_message = (\<lambda>s. op_shutdown_message inner s)\<rparr>"

definition box_targeted_stream ::
  "('s, 'loc, 'sock) targeted_stream \<Rightarrow> ('s, 'loc, 'sock) targeted_stream" where
  "box_targeted_stream inner =
     \<lparr>op_supports_ping = (\<lambda>s. op_supports_ping inner s), op_write_ping = (\<lambda>s. op_write_ping inner s),
      op_read_targeted = (\<lambda>s n. op_read_targeted inner s n),
      op_write_sourced = (\<lambda>s bs source. op_write_sourced inner s bs source),
      op_flush_targeted = (\<lambda>s. op_flush_targeted inner s),
      op_shutdown_targeted = (\<lambda>s. op_shutdown_targeted inner s)\<rparr>"

lemma box_transparent [simp]:
  "box_stream inner = inner" "box_message_stream mi = mi" "box_targeted_stream ti = ti"
  by (simp_all add: box_stream_def box_message_stream_def box_targeted_stream_def)

text \<open>\<^verbatim>\<open>TcpStream\<close> and \<^verbatim>\<open>TlsStream\<close> have no ping; asking the former for one is \<^verbatim>\<open>unimplemented!\<close>.
  Their reads and writes are tokio's.\<close>

definition tcp_stream :: "'s reader \<Rightarrow> 's writer \<Rightarrow> 's flusher \<Rightarrow> 's flusher \<Rightarrow> 's async_stream" where
  "tcp_stream rd wr fl sd =
     \<lparr>op_supports_ping = (\<lambda>_. False), op_write_ping = (\<lambda>s. (Ready Panic, s)),
      op_read = rd, op_write = wr, op_flush = fl, op_shutdown = sd\<rparr>"

definition tls_stream :: "'s reader \<Rightarrow> 's writer \<Rightarrow> 's flusher \<Rightarrow> 's flusher \<Rightarrow> 's async_stream" where
  "tls_stream rd wr fl sd =
     \<lparr>op_supports_ping = (\<lambda>_. False), op_write_ping = (\<lambda>s. (Ready (Ok False), s)),
      op_read = rd, op_write = wr, op_flush = fl, op_shutdown = sd\<rparr>"

text \<open>\<^verbatim>\<open>UdpSocket\<close> as a message stream: one datagram per message; the number of bytes sent is
  dropped, flushing and shutting down do nothing.\<close>

definition drop_count :: "nat res poll \<times> 's \<Rightarrow> unit res poll \<times> 's" where
  "drop_count r = (case r of
      (Ready (Ok _), s) \<Rightarrow> (Ready (Ok ()), s)
    | (Ready (Err e), s) \<Rightarrow> (Ready (Err e), s)
    | (Ready Panic, s) \<Rightarrow> (Ready Panic, s)
    | (Pending, s) \<Rightarrow> (Pending, s))"

definition udp_message_stream :: "'s reader \<Rightarrow> 's writer \<Rightarrow> 's message_stream" where
  "udp_message_stream recv send =
     \<lparr>op_supports_ping = (\<lambda>_. False), op_write_ping = (\<lambda>s. (Ready Panic, s)),
      op_read_message = recv, op_write_message = (\<lambda>s bs. drop_count (send s bs)),
      op_flush_message = (\<lambda>s. (Ready (Ok ()), s)), op_shutdown_message = (\<lambda>s. (Ready (Ok ()), s))\<rparr>"

section \<open>Memory\<close>

text \<open>\<^verbatim>\<open>util::allocate_vec\<close>: a vector whose contents are whatever the memory holds, a parameter.\<close>

definition allocate_vec :: "(nat \<Rightarrow> byte) \<Rightarrow> nat \<Rightarrow> byte list" where
  "allocate_vec mem len = map mem [0..<len]"

lemma length_allocate_vec [simp]: "length (allocate_vec mem len) = len"
  by (simp add: allocate_vec_def)

section \<open>Awaiting\<close>

partial_function (option) await_read :: "'s reader \<Rightarrow> 's \<Rightarrow> nat \<Rightarrow> (byte list res \<times> 's) option" where
  "await_read rd s n =
     (case rd s n of
        (Ready r, s') \<Rightarrow> Some (r, s')
      | (Pending, s') \<Rightarrow> await_read rd s' n)"

partial_function (option) await_write :: "'w writer \<Rightarrow> 'w \<Rightarrow> byte list \<Rightarrow> (nat res \<times> 'w) option" where
  "await_write wr w bs =
     (case wr w bs of
        (Ready r, w') \<Rightarrow> Some (r, w')
      | (Pending, w') \<Rightarrow> await_write wr w' bs)"

text \<open>\<^verbatim>\<open>ShutdownMessageFuture\<close>, like any flush or shutdown that is awaited.\<close>

partial_function (option) await_flush :: "'s flusher \<Rightarrow> 's \<Rightarrow> (unit res \<times> 's) option" where
  "await_flush fl s =
     (case fl s of
        (Ready r, s') \<Rightarrow> Some (r, s')
      | (Pending, s') \<Rightarrow> await_flush fl s')"

text \<open>The same for a poll that may itself not return.\<close>

partial_function (option) await_poll :: "('s \<Rightarrow> (unit res poll \<times> 's) option) \<Rightarrow> 's \<Rightarrow> (unit res \<times> 's) option" where
  "await_poll poll s =
     Option.bind (poll s) (\<lambda>(p, s').
       case p of
         Ready r \<Rightarrow> Some (r, s')
       | Pending \<Rightarrow> await_poll poll s')"

text \<open>\<^verbatim>\<open>util::write_all\<close>: write the rest until nothing is left.\<close>

partial_function (option) write_all :: "'w writer \<Rightarrow> 'w \<Rightarrow> byte list \<Rightarrow> (unit res \<times> 'w) option" where
  "write_all wr w bs =
     (if bs = [] then Some (Ok (), w)
      else Option.bind (await_write wr w bs) (\<lambda>(r, w').
        case r of
          Ok n \<Rightarrow> write_all wr w' (drop n bs)
        | Err e \<Rightarrow> Some (Err e, w')
        | Panic \<Rightarrow> Some (Panic, w')))"

section \<open>Awaiting\<close>

text \<open>What is polled to its end, where \<open>good\<close> holds of every poll that finds \<open>ok\<close> and a pending one keeps \<open>ok\<close> and comes closer
  to the end.\<close>

lemma await_poll_settles:
  assumes wf: "wf R" and step: "\<And>s. ok s \<Longrightarrow> \<exists>p s'. poll s = Some (p, s') \<and>
      (case p of Ready r \<Rightarrow> good s r s' | Pending \<Rightarrow> ok s' \<and> (left_over s', left_over s) \<in> R)"
    and later: "\<And>s s1 r s'. ok s \<Longrightarrow> poll s = Some (Pending, s1) \<Longrightarrow> good s1 r s' \<Longrightarrow> good s r s'"
  shows "ok s \<Longrightarrow> \<exists>r s'. await_poll poll s = Some (r, s') \<and> good s r s'"
proof (induction s rule: wf_induct_rule [OF wf_inv_image [OF wf, of left_over]])
  case (1 s)
  obtain p s1 where p: "poll s = Some (p, s1)"
    and post: "case p of Ready r \<Rightarrow> good s r s1 | Pending \<Rightarrow> ok s1 \<and> (left_over s1, left_over s) \<in> R"
    using step [OF 1(2)] by blast
  show ?case
  proof (cases p)
    case Pending
    then obtain r s' where "await_poll poll s1 = Some (r, s')" "good s1 r s'"
      using 1(1) [of s1] post by (auto simp: inv_image_def)
    with later [OF 1(2)] p Pending show ?thesis by (auto simp: await_poll.simps [of _ s])
  qed (use p post in \<open>auto simp: await_poll.simps [of _ s]\<close>)
qed

text \<open>A flush that keeps what holds and comes closer to its end with every pending poll comes to an end.\<close>

lemma await_settles:
  assumes step: "\<And>s p s'. ok s \<Longrightarrow> fl s = (p, s') \<Longrightarrow>
    ok s' \<and> kept s' = kept s \<and> p \<noteq> Ready Panic \<and> (p = Pending \<longrightarrow> (left_over s' :: nat) < left_over s)"
  shows "ok s \<Longrightarrow> \<exists>r s'. await_flush fl s = Some (r, s') \<and> ok s' \<and> kept s' = kept s \<and> r \<noteq> Panic"
proof (induction "left_over s" arbitrary: s rule: less_induct)
  case less
  obtain p s1 where p: "fl s = (p, s1)" by fastforce
  note post = step [OF less.prems p]
  show ?case
  proof (cases p)
    case Pending
    with post less.hyps [of s1] p show ?thesis by (subst await_flush.simps) auto
  qed (use p post in \<open>auto simp: await_flush.simps [of _ s]\<close>)
qed

section \<open>Contracts\<close>

text \<open>\<open>content s\<close> is what the source delivers before its end, \<open>src_err\<close> the errors it may
  raise, \<open>delay s\<close> a bound on how often in a row it can be pending or interrupted.\<close>

locale byte_source =
  fixes poll_read :: "'s reader"
    and content :: "'s \<Rightarrow> byte list"
    and src_inv :: "'s \<Rightarrow> bool"
    and delay :: "'s \<Rightarrow> nat"
    and src_err :: "io_error \<Rightarrow> bool"
  assumes read_ok: "src_inv s \<Longrightarrow> poll_read s n = (Ready (Ok bs), s') \<Longrightarrow>
      src_inv s' \<and> length bs \<le> n \<and> content s = bs @ content s' \<and> (0 < n \<and> bs = [] \<longrightarrow> content s = [])"
    and read_err: "src_inv s \<Longrightarrow> poll_read s n = (Ready (Err e), s') \<Longrightarrow>
      src_inv s' \<and> src_err e \<and> (err_kind e = Interrupted \<longrightarrow> content s' = content s \<and> delay s' < delay s)"
    and read_pending: "src_inv s \<Longrightarrow> poll_read s n = (Pending, s') \<Longrightarrow>
      src_inv s' \<and> content s' = content s \<and> delay s' < delay s"
    and read_no_panic: "src_inv s \<Longrightarrow> poll_read s n \<noteq> (Ready Panic, s')"
begin

text \<open>A source comes closer to its next result: data was taken from it, or it waited.\<close>

definition src_progress :: "'s \<Rightarrow> 's \<Rightarrow> bool" where
  "src_progress s s' \<longleftrightarrow> length (content s') < length (content s)
     \<or> content s' = content s \<and> delay s' < delay s"

text \<open>What awaiting a read gives.\<close>

definition read_post :: "'s \<Rightarrow> nat \<Rightarrow> byte list res \<Rightarrow> 's \<Rightarrow> bool" where
  "read_post s n r s' \<longleftrightarrow>
     src_inv s' \<and>
     (case r of
        Ok bs \<Rightarrow> length bs \<le> n \<and> content s = bs @ content s' \<and> (0 < n \<and> bs = [] \<longrightarrow> content s = [])
      | Err e \<Rightarrow> src_err e \<and> (err_kind e = Interrupted \<longrightarrow> content s' = content s \<and> delay s' < delay s)
      | Panic \<Rightarrow> False)"

lemma await_read_total:
  "src_inv s \<Longrightarrow> \<exists>r s'. await_read poll_read s n = Some (r, s') \<and> read_post s n r s'"
proof (induction "delay s" arbitrary: s rule: less_induct)
  case less
  obtain p s1 where step: "poll_read s n = (p, s1)" by (cases "poll_read s n")
  show ?case
  proof (cases p)
    case (Ready r)
    then have "read_post s n r s1"
      using read_ok [of s n _ s1] read_err [of s n _ s1] read_no_panic [of s n s1] less.prems step
      by (cases r) (auto simp: read_post_def)
    with step Ready show ?thesis
      by (simp add: await_read.simps [of poll_read s])
  next
    case Pending
    with step less.prems have s1: "src_inv s1" "content s1 = content s" "delay s1 < delay s"
      using read_pending by auto
    then obtain r s' where "await_read poll_read s1 n = Some (r, s')" "read_post s1 n r s'"
      using less.hyps by blast
    with step Pending s1 show ?thesis
      by (auto simp: await_read.simps [of poll_read s] read_post_def split: res.splits)
  qed
qed

end

text \<open>\<open>written w\<close> is what the sink has taken so far. A ready write takes at least one byte of
  a non-empty buffer.\<close>

locale byte_sink =
  fixes poll_write :: "'w writer"
    and written :: "'w \<Rightarrow> byte list"
    and snk_inv :: "'w \<Rightarrow> bool"
    and snk_delay :: "'w \<Rightarrow> nat"
    and snk_err :: "io_error \<Rightarrow> bool"
  assumes write_ok: "snk_inv w \<Longrightarrow> bs \<noteq> [] \<Longrightarrow> poll_write w bs = (Ready (Ok k), w') \<Longrightarrow>
      snk_inv w' \<and> 0 < k \<and> k \<le> length bs \<and> written w' = written w @ take k bs"
    and write_err: "snk_inv w \<Longrightarrow> bs \<noteq> [] \<Longrightarrow> poll_write w bs = (Ready (Err e), w') \<Longrightarrow>
      snk_inv w' \<and> snk_err e \<and> written w' = written w"
    and write_pending: "snk_inv w \<Longrightarrow> bs \<noteq> [] \<Longrightarrow> poll_write w bs = (Pending, w') \<Longrightarrow>
      snk_inv w' \<and> written w' = written w \<and> snk_delay w' < snk_delay w"
    and write_no_panic: "snk_inv w \<Longrightarrow> bs \<noteq> [] \<Longrightarrow> poll_write w bs \<noteq> (Ready Panic, w')"
begin

definition write_post :: "'w \<Rightarrow> byte list \<Rightarrow> nat res \<Rightarrow> 'w \<Rightarrow> bool" where
  "write_post w bs r w' \<longleftrightarrow>
     (case r of
        Ok k \<Rightarrow> snk_inv w' \<and> 0 < k \<and> k \<le> length bs \<and> written w' = written w @ take k bs
      | Err e \<Rightarrow> snk_inv w' \<and> snk_err e \<and> written w' = written w
      | Panic \<Rightarrow> False)"

lemma await_write_total:
  "snk_inv w \<Longrightarrow> bs \<noteq> [] \<Longrightarrow>
   \<exists>r w'. await_write poll_write w bs = Some (r, w') \<and> write_post w bs r w'"
proof (induction "snk_delay w" arbitrary: w rule: less_induct)
  case less
  obtain p w1 where step: "poll_write w bs = (p, w1)" by (cases "poll_write w bs")
  show ?case
  proof (cases p)
    case (Ready r)
    then have "write_post w bs r w1"
      using write_ok [of w bs _ w1] write_err [of w bs _ w1] write_no_panic [of w bs w1]
        less.prems step
      by (cases r) (auto simp: write_post_def)
    with step Ready show ?thesis
      by (simp add: await_write.simps [of poll_write w])
  next
    case Pending
    with step less.prems have w1: "snk_inv w1" "written w1 = written w" "snk_delay w1 < snk_delay w"
      using write_pending by auto
    then obtain r w' where "await_write poll_write w1 bs = Some (r, w')" "write_post w1 bs r w'"
      using less.hyps less.prems by blast
    with step Pending w1 show ?thesis
      by (auto simp: await_write.simps [of poll_write w] write_post_def split: res.splits)
  qed
qed

text \<open>Writing everything ends, and either all of the bytes arrive, in order and once, or a
  prefix of them does and an error of the sink is reported.\<close>

lemma write_all_total:
  "snk_inv w \<Longrightarrow>
   \<exists>r w'. write_all poll_write w bs = Some (r, w') \<and> snk_inv w' \<and>
     (case r of
        Ok _ \<Rightarrow> written w' = written w @ bs
      | Err e \<Rightarrow> snk_err e \<and> (\<exists>k < length bs. written w' = written w @ take k bs)
      | Panic \<Rightarrow> False)"
proof (induction "length bs" arbitrary: bs w rule: less_induct)
  case less
  show ?case
  proof (cases "bs = []")
    case True
    with less.prems show ?thesis by (simp add: write_all.simps)
  next
    case False
    then obtain r w1 where aw: "await_write poll_write w bs = Some (r, w1)"
      and post: "write_post w bs r w1"
      using await_write_total less.prems by blast
    show ?thesis
    proof (cases r)
      case (Ok k)
      with post have k: "snk_inv w1" "0 < k" "k \<le> length bs" "written w1 = written w @ take k bs"
        by (auto simp: write_post_def)
      then have "length (drop k bs) < length bs" by simp
      with less.hyps [OF this k(1)] obtain r' w'
        where wa: "write_all poll_write w1 (drop k bs) = Some (r', w')"
          and inv: "snk_inv w'"
          and p': "case r' of
              Ok _ \<Rightarrow> written w' = written w1 @ drop k bs
            | Err e \<Rightarrow> snk_err e \<and> (\<exists>j < length (drop k bs). written w' = written w1 @ take j (drop k bs))
            | Panic \<Rightarrow> False"
        by blast
      have "take k bs @ take j (drop k bs) = take (k + j) bs" for j
        by (simp add: take_add)
      then have "case r' of
              Ok _ \<Rightarrow> written w' = written w @ bs
            | Err e \<Rightarrow> snk_err e \<and> (\<exists>j < length bs. written w' = written w @ take j bs)
            | Panic \<Rightarrow> False"
        using p' k by (auto split: res.splits) (metis add.commute less_diff_conv)
      with aw wa Ok False inv show ?thesis
        by (simp add: write_all.simps [of poll_write w bs])
    next
      case (Err e)
      with post have "snk_inv w1" "snk_err e" "written w1 = written w @ take 0 bs"
        by (auto simp: write_post_def)
      with aw Err False show ?thesis
        by (force simp: write_all.simps [of poll_write w bs])
    next
      case Panic
      with post show ?thesis by (simp add: write_post_def)
    qed
  qed
qed

end

section \<open>Scripts\<close>

text \<open>A peer given by what happens at each poll: a chunk of data arrives, nothing is ready
  yet, or the operation fails. The end of the script is the end of the stream.\<close>

datatype script_item = Chunk "byte list" | Wait | Fail io_error

fun script_read :: "script_item list reader" where
  "script_read [] n = (Ready (Ok []), [])"
| "script_read (Chunk bs # s) n =
     (if length bs \<le> n then (Ready (Ok bs), s)
      else (Ready (Ok (take n bs)), Chunk (drop n bs) # s))"
| "script_read (Wait # s) n = (Pending, s)"
| "script_read (Fail e # s) n = (Ready (Err e), s)"

fun script_content :: "script_item list \<Rightarrow> byte list" where
  "script_content [] = []"
| "script_content (Chunk bs # s) = bs @ script_content s"
| "script_content (_ # s) = script_content s"

definition script_inv :: "script_item list \<Rightarrow> bool" where
  "script_inv s \<longleftrightarrow> Chunk [] \<notin> set s"

interpretation script: byte_source script_read script_content script_inv length "\<lambda>_. True"
proof (unfold_locales, goal_cases)
  case (1 s n bs s')
  then show ?case
    by (cases "(s, n)" rule: script_read.cases) (auto simp: script_inv_def split: if_splits)
next
  case (2 s n e s')
  then show ?case
    by (cases "(s, n)" rule: script_read.cases) (auto simp: script_inv_def split: if_splits)
next
  case (3 s n s')
  then show ?case
    by (cases "(s, n)" rule: script_read.cases) (auto simp: script_inv_def split: if_splits)
next
  case (4 s n s')
  then show ?case
    by (cases "(s, n)" rule: script_read.cases) (auto split: if_splits)
qed

text \<open>A sink given by how many bytes (less one) it accepts at each poll, and what it has taken
  so far; past the end of the script it accepts everything.\<close>

datatype accept_item = Accept nat | AcceptWait | AcceptFail io_error

fun script_write :: "(accept_item list \<times> byte list) writer" where
  "script_write ([], out) bs = (Ready (Ok (length bs)), ([], out @ bs))"
| "script_write (Accept k # s, out) bs =
     (let j = min (Suc k) (length bs) in (Ready (Ok j), (s, out @ take j bs)))"
| "script_write (AcceptWait # s, out) bs = (Pending, (s, out))"
| "script_write (AcceptFail e # s, out) bs = (Ready (Err e), (s, out))"

interpretation script_sink: byte_sink script_write snd "\<lambda>_. True" "\<lambda>w. length (fst w)" "\<lambda>_. True"
proof (unfold_locales, goal_cases)
  case (1 w bs k w')
  then show ?case
    by (cases "(w, bs)" rule: script_write.cases) (auto simp: Let_def)
next
  case (2 w bs e w')
  then show ?case
    by (cases "(w, bs)" rule: script_write.cases) (auto simp: Let_def)
next
  case (3 w bs w')
  then show ?case
    by (cases "(w, bs)" rule: script_write.cases) (auto simp: Let_def)
next
  case (4 w bs w')
  then show ?case
    by (cases "(w, bs)" rule: script_write.cases) (auto simp: Let_def)
qed

end
