(* ===== verification/Stream_Reader.thy ===== *)
theory Stream_Reader
  imports Async_Stream
begin

text \<open>
  \<^verbatim>\<open>src/stream_reader.rs\<close>: the buffered reader with peek and consume, over any byte source.
  The buffer is an array of fixed length of which the part between the two offsets is read
  but not parsed yet. Its memory is whatever \<^verbatim>\<open>allocate_vec\<close> finds (\<^verbatim>\<open>src/util.rs\<close> does not
  initialise it), so the initial contents are a parameter \<open>mem\<close>.

  The refinement: over a source with content \<open>c\<close>, a reader is the byte sequence
  \<open>unparsed_data sr @ c\<close>; peeking looks at its front, reading takes from its front, and no
  byte is lost, repeated or reordered.
\<close>

section \<open>Definitions\<close>

record stream_reader =
  sr_buf :: "byte list"
  sr_start :: nat
  sr_end :: nat

definition sr_new_with_buffer_size :: "(nat \<Rightarrow> byte) \<Rightarrow> nat \<Rightarrow> stream_reader" where
  "sr_new_with_buffer_size mem cap =
     \<lparr>sr_buf = allocate_vec mem cap, sr_start = 0, sr_end = 0\<rparr>"

definition sr_new :: "(nat \<Rightarrow> byte) \<Rightarrow> stream_reader" where
  "sr_new mem = sr_new_with_buffer_size mem 32768"

definition reset_buf_offset :: "stream_reader \<Rightarrow> stream_reader" where
  "reset_buf_offset sr =
     (if sr_start sr = 0 then sr
      else sr\<lparr>sr_buf := overwrite 0 (slice_of (sr_start sr) (sr_end sr) (sr_buf sr)) (sr_buf sr),
              sr_end := sr_end sr - sr_start sr, sr_start := 0\<rparr>)"

definition is_cache_full :: "stream_reader \<Rightarrow> bool" where
  "is_cache_full sr \<longleftrightarrow> sr_start sr = 0 \<and> sr_end sr = length (sr_buf sr)"

definition eof_while_reading :: io_error where
  "eof_while_reading = IoError ConnectionAborted ''EOF while reading''"

text \<open>The loop of \<^verbatim>\<open>read\<close>: one read into the free part, again when it is interrupted.\<close>

partial_function (option) sr_read_loop ::
  "'s reader \<Rightarrow> stream_reader \<Rightarrow> 's \<Rightarrow> (unit res \<times> stream_reader \<times> 's) option" where
  "sr_read_loop rd sr s =
     Option.bind (await_read rd s (length (sr_buf sr) - sr_end sr)) (\<lambda>(r, s').
       case r of
         Ok bs \<Rightarrow>
           if bs = [] then Some (Err eof_while_reading, sr, s')
           else Some (Ok (), sr\<lparr>sr_buf := overwrite (sr_end sr) bs (sr_buf sr),
                                sr_end := sr_end sr + length bs\<rparr>, s')
       | Err e \<Rightarrow>
           if err_kind e = Interrupted then sr_read_loop rd sr s' else Some (Err e, sr, s')
       | Panic \<Rightarrow> Some (Panic, sr, s'))"

definition sr_read ::
  "'s reader \<Rightarrow> stream_reader \<Rightarrow> 's \<Rightarrow> (unit res \<times> stream_reader \<times> 's) option" where
  "sr_read rd sr s =
     (if is_cache_full sr then Some (Err (IoError ConnectionAborted ''cache is full''), sr, s)
      else sr_read_loop rd (reset_buf_offset sr) s)"

text \<open>The loop all operations share: read until \<open>len\<close> bytes are there.\<close>

partial_function (option) sr_ensure ::
  "'s reader \<Rightarrow> nat \<Rightarrow> stream_reader \<Rightarrow> 's \<Rightarrow> (unit res \<times> stream_reader \<times> 's) option" where
  "sr_ensure rd len sr s =
     (if sr_end sr - sr_start sr < len then
        Option.bind (sr_read rd sr s) (\<lambda>(r, sr', s').
          case r of
            Ok _ \<Rightarrow> sr_ensure rd len sr' s'
          | Err e \<Rightarrow> Some (Err e, sr', s')
          | Panic \<Rightarrow> Some (Panic, sr', s'))
      else Some (Ok (), sr, s))"

definition sr_consume :: "nat \<Rightarrow> stream_reader \<Rightarrow> stream_reader" where
  "sr_consume len sr =
     (if sr_start sr + len = sr_end sr then sr\<lparr>sr_start := 0, sr_end := 0\<rparr>
      else sr\<lparr>sr_start := sr_start sr + len\<rparr>)"

definition unparsed_data :: "stream_reader \<Rightarrow> byte list" where
  "unparsed_data sr = slice_of (sr_start sr) (sr_end sr) (sr_buf sr)"

definition unparsed_data_owned :: "stream_reader \<Rightarrow> byte list option" where
  "unparsed_data_owned sr = (if unparsed_data sr = [] then None else Some (unparsed_data sr))"

definition sr_peek_slice ::
  "'s reader \<Rightarrow> nat \<Rightarrow> stream_reader \<Rightarrow> 's \<Rightarrow> (byte list res \<times> stream_reader \<times> 's) option" where
  "sr_peek_slice rd len sr s =
     (if len > length (sr_buf sr)
      then Some (Err (IoError InvalidInput ''Requested length exceeds buffer size''), sr, s)
      else Option.bind (sr_ensure rd len sr s) (\<lambda>(r, sr', s').
        Some (bind_res r (\<lambda>_. Ok (slice_of (sr_start sr') (sr_start sr' + len) (sr_buf sr'))), sr', s')))"

definition sr_read_slice ::
  "'s reader \<Rightarrow> nat \<Rightarrow> stream_reader \<Rightarrow> 's \<Rightarrow> (byte list res \<times> stream_reader \<times> 's) option" where
  "sr_read_slice rd len sr s =
     (if len > length (sr_buf sr)
      then Some (Err (IoError InvalidInput ''Requested length exceeds buffer size''), sr, s)
      else Option.bind (sr_ensure rd len sr s) (\<lambda>(r, sr', s').
        case r of
          Ok _ \<Rightarrow> Some (Ok (slice_of (sr_start sr') (sr_start sr' + len) (sr_buf sr')),
                          sr_consume len sr', s')
        | Err e \<Rightarrow> Some (Err e, sr', s')
        | Panic \<Rightarrow> Some (Panic, sr', s')))"

definition sr_read_u8 ::
  "'s reader \<Rightarrow> stream_reader \<Rightarrow> 's \<Rightarrow> (byte res \<times> stream_reader \<times> 's) option" where
  "sr_read_u8 rd sr s =
     Option.bind (sr_ensure rd 1 sr s) (\<lambda>(r, sr', s').
       case r of
         Ok _ \<Rightarrow> Some (Ok (sr_buf sr' ! sr_start sr'), sr_consume 1 sr', s')
       | Err e \<Rightarrow> Some (Err e, sr', s')
       | Panic \<Rightarrow> Some (Panic, sr', s'))"

definition sr_read_u16_be ::
  "'s reader \<Rightarrow> stream_reader \<Rightarrow> 's \<Rightarrow> (u16 res \<times> stream_reader \<times> 's) option" where
  "sr_read_u16_be rd sr s =
     Option.bind (sr_ensure rd 2 sr s) (\<lambda>(r, sr', s').
       case r of
         Ok _ \<Rightarrow> Some (Ok (u16_of_be [sr_buf sr' ! sr_start sr', sr_buf sr' ! (sr_start sr' + 1)]),
                         sr_consume 2 sr', s')
       | Err e \<Rightarrow> Some (Err e, sr', s')
       | Panic \<Rightarrow> Some (Panic, sr', s'))"

text \<open>The \<^verbatim>\<open>?\<close> operator on reads through the buffered reader.\<close>

definition bind_rd ::
  "('a res \<times> stream_reader \<times> 's) option \<Rightarrow> ('a \<Rightarrow> stream_reader \<Rightarrow> 's \<Rightarrow> ('b res \<times> stream_reader \<times> 's) option) \<Rightarrow>
   ('b res \<times> stream_reader \<times> 's) option" where
  "bind_rd m f = Option.bind m (\<lambda>(r, sr, s).
     case r of
       Ok x \<Rightarrow> f x sr s
     | Err e \<Rightarrow> Some (Err e, sr, s)
     | Panic \<Rightarrow> Some (Panic, sr, s))"

section \<open>Invariant and abstraction\<close>

definition sr_inv :: "stream_reader \<Rightarrow> bool" where
  "sr_inv sr \<longleftrightarrow> sr_start sr \<le> sr_end sr \<and> sr_end sr \<le> length (sr_buf sr)
     \<and> (sr_start sr = sr_end sr \<longrightarrow> sr_start sr = 0)"

lemma sr_inv_new [simp]: "sr_inv (sr_new_with_buffer_size mem cap)"
  by (simp add: sr_inv_def sr_new_with_buffer_size_def)

lemma unparsed_new [simp]: "unparsed_data (sr_new_with_buffer_size mem cap) = []"
  by (simp add: unparsed_data_def sr_new_with_buffer_size_def)

lemma length_unparsed: "sr_inv sr \<Longrightarrow> length (unparsed_data sr) = sr_end sr - sr_start sr"
  by (simp add: sr_inv_def unparsed_data_def)

lemma reset_spec:
  assumes "sr_inv sr"
  shows "sr_inv (reset_buf_offset sr)" "unparsed_data (reset_buf_offset sr) = unparsed_data sr"
    "sr_start (reset_buf_offset sr) = 0" "length (sr_buf (reset_buf_offset sr)) = length (sr_buf sr)"
  using assms
  by (auto simp: sr_inv_def reset_buf_offset_def unparsed_data_def overwrite_def)

lemma reset_room:
  "sr_inv sr \<Longrightarrow> \<not> is_cache_full sr \<Longrightarrow>
   sr_end (reset_buf_offset sr) < length (sr_buf (reset_buf_offset sr))"
  by (auto simp: sr_inv_def reset_buf_offset_def is_cache_full_def overwrite_def)

lemma consume_spec:
  assumes "sr_inv sr" and "len \<le> length (unparsed_data sr)"
  shows "sr_inv (sr_consume len sr)" "unparsed_data (sr_consume len sr) = drop len (unparsed_data sr)"
    "length (sr_buf (sr_consume len sr)) = length (sr_buf sr)"
  using assms
  by (auto simp: sr_inv_def sr_consume_def unparsed_data_def drop_slice length_unparsed)

lemma peeked_eq:
  assumes "sr_inv sr" and "len \<le> length (unparsed_data sr)"
  shows "slice_of (sr_start sr) (sr_start sr + len) (sr_buf sr) = take len (unparsed_data sr)"
proof -
  have "min (sr_end sr) (sr_start sr + len) = sr_start sr + len"
    using assms length_unparsed [OF assms(1)] by (auto simp: sr_inv_def)
  then show ?thesis by (simp add: unparsed_data_def take_slice)
qed

lemma nth_unparsed:
  "sr_inv sr \<Longrightarrow> k < length (unparsed_data sr) \<Longrightarrow> sr_buf sr ! (sr_start sr + k) = unparsed_data sr ! k"
  by (auto simp: unparsed_data_def sr_inv_def nth_slice)

section \<open>Refinement over a byte source\<close>

context byte_source
begin

text \<open>The bytes a reader over \<open>s\<close> still stands for.\<close>

definition pending_bytes :: "stream_reader \<Rightarrow> 's \<Rightarrow> byte list" where
  "pending_bytes sr s = unparsed_data sr @ content s"

definition reader_ok :: "nat \<Rightarrow> stream_reader \<Rightarrow> 's \<Rightarrow> bool" where
  "reader_ok cap sr s \<longleftrightarrow> sr_inv sr \<and> src_inv s \<and> length (sr_buf sr) = cap"

lemma sr_read_loop_total:
  assumes "reader_ok cap sr s" and "sr_end sr < cap"
  shows "\<exists>r sr' s'. sr_read_loop poll_read sr s = Some (r, sr', s') \<and> reader_ok cap sr' s' \<and>
     (case r of
        Ok _ \<Rightarrow> pending_bytes sr' s' = pending_bytes sr s
                  \<and> length (unparsed_data sr) < length (unparsed_data sr')
      | Err e \<Rightarrow> e = eof_while_reading \<and> content s = [] \<or> src_err e
      | Panic \<Rightarrow> False)"
  using assms
proof (induction "delay s" arbitrary: s rule: less_induct)
  case less
  let ?room = "length (sr_buf sr) - sr_end sr"
  have inv: "sr_inv sr" "src_inv s" "length (sr_buf sr) = cap"
    using less.prems by (auto simp: reader_ok_def)
  obtain r s1 where aw: "await_read poll_read s ?room = Some (r, s1)" and post: "read_post s ?room r s1"
    using await_read_total [OF inv(2)] by blast
  show ?case
  proof (cases r)
    case (Ok bs)
    with post have bs: "src_inv s1" "length bs \<le> ?room" "content s = bs @ content s1"
      "0 < ?room \<and> bs = [] \<longrightarrow> content s = []"
      by (auto simp: read_post_def)
    show ?thesis
    proof (cases "bs = []")
      case True
      with aw Ok bs inv less.prems show ?thesis
        by (auto simp: sr_read_loop.simps [of poll_read sr] reader_ok_def)
    next
      case False
      let ?sr = "sr\<lparr>sr_buf := overwrite (sr_end sr) bs (sr_buf sr), sr_end := sr_end sr + length bs\<rparr>"
      have fits: "sr_end sr + length bs \<le> length (sr_buf sr)"
        using bs(2) less.prems inv by simp
      then have u: "unparsed_data ?sr = unparsed_data sr @ bs"
        using inv(1) by (simp add: unparsed_data_def slice_overwrite_extend sr_inv_def)
      have "sr_inv ?sr"
        using inv(1) fits False by (auto simp: sr_inv_def)
      with u fits bs inv False have "reader_ok cap ?sr s1 \<and> pending_bytes ?sr s1 = pending_bytes sr s
          \<and> length (unparsed_data sr) < length (unparsed_data ?sr)"
        by (simp add: reader_ok_def pending_bytes_def)
      with aw Ok False show ?thesis
        by (auto simp: sr_read_loop.simps [of poll_read sr])
    qed
  next
    case (Err e)
    show ?thesis
    proof (cases "err_kind e = Interrupted")
      case True
      with Err post have s1: "src_inv s1" "content s1 = content s" "delay s1 < delay s"
        by (auto simp: read_post_def)
      have loop: "sr_read_loop poll_read sr s = sr_read_loop poll_read sr s1"
        using aw Err True by (simp add: sr_read_loop.simps [of poll_read sr s])
      have ok1: "reader_ok cap sr s1" and eq: "pending_bytes sr s1 = pending_bytes sr s"
        using s1 inv by (auto simp: reader_ok_def pending_bytes_def)
      show ?thesis
        using less.hyps [OF s1(3) ok1 less.prems(2)] unfolding loop eq s1(2) .
    next
      case False
      with aw Err post inv show ?thesis
        by (auto simp: sr_read_loop.simps [of poll_read sr] reader_ok_def read_post_def)
    qed
  next
    case Panic
    with post show ?thesis by (simp add: read_post_def)
  qed
qed

lemma sr_read_total:
  assumes "reader_ok cap sr s" and "length (unparsed_data sr) < cap"
  shows "\<exists>r sr' s'. sr_read poll_read sr s = Some (r, sr', s') \<and> reader_ok cap sr' s' \<and>
     (case r of
        Ok _ \<Rightarrow> pending_bytes sr' s' = pending_bytes sr s
                  \<and> length (unparsed_data sr) < length (unparsed_data sr')
      | Err e \<Rightarrow> e = eof_while_reading \<and> content s = [] \<or> src_err e
      | Panic \<Rightarrow> False)"
proof -
  have inv: "sr_inv sr" and cap: "length (sr_buf sr) = cap"
    using assms(1) by (auto simp: reader_ok_def)
  have nf: "\<not> is_cache_full sr"
    using assms(2) cap length_unparsed [OF inv] by (auto simp: is_cache_full_def)
  have ok: "reader_ok cap (reset_buf_offset sr) s" "sr_end (reset_buf_offset sr) < cap"
    using assms(1) reset_spec [OF inv] reset_room [OF inv nf] by (auto simp: reader_ok_def)
  have eq: "sr_read poll_read sr s = sr_read_loop poll_read (reset_buf_offset sr) s"
    using nf by (simp add: sr_read_def)
  show ?thesis
    using sr_read_loop_total [OF ok] unfolding eq pending_bytes_def reset_spec(2) [OF inv] .
qed

text \<open>The loop stops; it fails only with an error of the source or because the source ends
  before \<open>len\<close> bytes are there, never because the buffer is full.\<close>

lemma sr_ensure_total:
  assumes "reader_ok cap sr s" and "len \<le> cap"
  shows "\<exists>r sr' s'. sr_ensure poll_read len sr s = Some (r, sr', s') \<and> reader_ok cap sr' s' \<and>
     (case r of
        Ok _ \<Rightarrow> pending_bytes sr' s' = pending_bytes sr s \<and> len \<le> length (unparsed_data sr')
      | Err e \<Rightarrow> e = eof_while_reading \<and> length (pending_bytes sr s) < len \<or> src_err e
      | Panic \<Rightarrow> False)"
  using assms(1)
proof (induction "cap - length (unparsed_data sr)" arbitrary: sr s rule: less_induct)
  case less
  have inv: "sr_inv sr" using less.prems by (simp add: reader_ok_def)
  show ?case
  proof (cases "length (unparsed_data sr) < len")
    case False
    then show ?thesis
      using less.prems length_unparsed [OF inv] by (simp add: sr_ensure.simps)
  next
    case True
    then have lt: "length (unparsed_data sr) < cap" using assms(2) by simp
    obtain r sr1 s1 where rd: "sr_read poll_read sr s = Some (r, sr1, s1)" and ok1: "reader_ok cap sr1 s1"
      and post: "case r of
        Ok _ \<Rightarrow> pending_bytes sr1 s1 = pending_bytes sr s
                  \<and> length (unparsed_data sr) < length (unparsed_data sr1)
      | Err e \<Rightarrow> e = eof_while_reading \<and> content s = [] \<or> src_err e
      | Panic \<Rightarrow> False"
      using sr_read_total [OF less.prems lt] by blast
    have unf: "sr_ensure poll_read len sr s = Option.bind (sr_read poll_read sr s) (\<lambda>(r, sr', s').
          case r of Ok _ \<Rightarrow> sr_ensure poll_read len sr' s' | Err e \<Rightarrow> Some (Err e, sr', s')
          | Panic \<Rightarrow> Some (Panic, sr', s'))"
      using True length_unparsed [OF inv] by (simp add: sr_ensure.simps [of poll_read len sr])
    show ?thesis
    proof (cases r)
      case (Ok u)
      with post lt have "cap - length (unparsed_data sr1) < cap - length (unparsed_data sr)"
        by auto
      note IH = less.hyps [OF this ok1]
      have eq: "pending_bytes sr1 s1 = pending_bytes sr s"
        "sr_ensure poll_read len sr s = sr_ensure poll_read len sr1 s1"
        using rd Ok post by (auto simp: unf)
      show ?thesis using IH unfolding eq .
    next
      case (Err e)
      with rd ok1 post True show ?thesis
        by (auto simp: unf pending_bytes_def)
    next
      case Panic
      with post show ?thesis by simp
    qed
  qed
qed

text \<open>Peeking sees the front of the pending bytes and leaves them pending.\<close>

lemma sr_peek_slice_total:
  assumes "reader_ok cap sr s" and "len \<le> cap"
  shows "\<exists>r sr' s'. sr_peek_slice poll_read len sr s = Some (r, sr', s') \<and> reader_ok cap sr' s' \<and>
     (case r of
        Ok bs \<Rightarrow> length bs = len \<and> bs = take len (pending_bytes sr s)
                   \<and> len \<le> length (unparsed_data sr') \<and> pending_bytes sr' s' = pending_bytes sr s
      | Err e \<Rightarrow> e = eof_while_reading \<and> length (pending_bytes sr s) < len \<or> src_err e
      | Panic \<Rightarrow> False)"
proof -
  obtain r sr' s' where en: "sr_ensure poll_read len sr s = Some (r, sr', s')"
    and ok: "reader_ok cap sr' s'"
    and post: "case r of
        Ok _ \<Rightarrow> pending_bytes sr' s' = pending_bytes sr s \<and> len \<le> length (unparsed_data sr')
      | Err e \<Rightarrow> e = eof_while_reading \<and> length (pending_bytes sr s) < len \<or> src_err e
      | Panic \<Rightarrow> False"
    using sr_ensure_total [OF assms] by blast
  have inv: "sr_inv sr'" using ok by (simp add: reader_ok_def)
  have fits: "\<not> length (sr_buf sr) < len" using assms by (auto simp: reader_ok_def)
  show ?thesis
  proof (cases r)
    case (Ok u)
    with post have u: "len \<le> length (unparsed_data sr')" "pending_bytes sr' s' = pending_bytes sr s"
      by auto
    have "take len (unparsed_data sr') = take len (pending_bytes sr' s')"
      "length (take len (unparsed_data sr')) = len"
      using u(1) by (simp_all add: pending_bytes_def)
    with u show ?thesis
      using en ok Ok fits peeked_eq [OF inv u(1)] by (auto simp: sr_peek_slice_def)
  qed (use en ok post fits in \<open>auto simp: sr_peek_slice_def\<close>)
qed

text \<open>Reading takes the front of the pending bytes.\<close>

lemma sr_read_slice_total:
  assumes "reader_ok cap sr s" and "len \<le> cap"
  shows "\<exists>r sr' s'. sr_read_slice poll_read len sr s = Some (r, sr', s') \<and> reader_ok cap sr' s' \<and>
     (case r of
        Ok bs \<Rightarrow> length bs = len \<and> pending_bytes sr s = bs @ pending_bytes sr' s'
      | Err e \<Rightarrow> e = eof_while_reading \<and> length (pending_bytes sr s) < len \<or> src_err e
      | Panic \<Rightarrow> False)"
proof -
  obtain r sr' s' where en: "sr_ensure poll_read len sr s = Some (r, sr', s')"
    and ok: "reader_ok cap sr' s'"
    and post: "case r of
        Ok _ \<Rightarrow> pending_bytes sr' s' = pending_bytes sr s \<and> len \<le> length (unparsed_data sr')
      | Err e \<Rightarrow> e = eof_while_reading \<and> length (pending_bytes sr s) < len \<or> src_err e
      | Panic \<Rightarrow> False"
    using sr_ensure_total [OF assms] by blast
  have inv: "sr_inv sr'" using ok by (simp add: reader_ok_def)
  have fits: "\<not> length (sr_buf sr) < len" using assms by (auto simp: reader_ok_def)
  show ?thesis
  proof (cases r)
    case (Ok u)
    with post have "len \<le> length (unparsed_data sr')" "pending_bytes sr' s' = pending_bytes sr s"
      by auto
    then show ?thesis
      using en ok Ok fits consume_spec [OF inv] peeked_eq [OF inv]
      by (auto simp: sr_read_slice_def reader_ok_def pending_bytes_def)
        (metis append_assoc append_take_drop_id)
  qed (use en ok post fits in \<open>auto simp: sr_read_slice_def\<close>)
qed

lemma sr_read_u8_total:
  assumes "reader_ok cap sr s" and "1 \<le> cap"
  shows "\<exists>r sr' s'. sr_read_u8 poll_read sr s = Some (r, sr', s') \<and> reader_ok cap sr' s' \<and>
     (case r of
        Ok b \<Rightarrow> pending_bytes sr s = b # pending_bytes sr' s'
      | Err e \<Rightarrow> e = eof_while_reading \<and> pending_bytes sr s = [] \<or> src_err e
      | Panic \<Rightarrow> False)"
proof -
  obtain r sr' s' where en: "sr_ensure poll_read 1 sr s = Some (r, sr', s')"
    and ok: "reader_ok cap sr' s'"
    and post: "case r of
        Ok _ \<Rightarrow> pending_bytes sr' s' = pending_bytes sr s \<and> 1 \<le> length (unparsed_data sr')
      | Err e \<Rightarrow> e = eof_while_reading \<and> length (pending_bytes sr s) < 1 \<or> src_err e
      | Panic \<Rightarrow> False"
    using sr_ensure_total [OF assms] by blast
  have inv: "sr_inv sr'" using ok by (simp add: reader_ok_def)
  show ?thesis
  proof (cases r)
    case (Ok u)
    with post have u: "1 \<le> length (unparsed_data sr')" "pending_bytes sr' s' = pending_bytes sr s"
      by auto
    have "unparsed_data sr' = sr_buf sr' ! sr_start sr' # drop 1 (unparsed_data sr')"
      using u(1) nth_unparsed [OF inv, of 0] by (cases "unparsed_data sr'") auto
    then show ?thesis
      using en ok Ok u consume_spec [OF inv u(1)]
      by (auto simp: sr_read_u8_def reader_ok_def pending_bytes_def)
        (metis append_Cons)
  qed (use en ok post in \<open>auto simp: sr_read_u8_def\<close>)
qed

lemma sr_read_u16_be_total:
  assumes "reader_ok cap sr s" and "2 \<le> cap"
  shows "\<exists>r sr' s'. sr_read_u16_be poll_read sr s = Some (r, sr', s') \<and> reader_ok cap sr' s' \<and>
     (case r of
        Ok w \<Rightarrow> pending_bytes sr s = u16_be w @ pending_bytes sr' s'
      | Err e \<Rightarrow> e = eof_while_reading \<and> length (pending_bytes sr s) < 2 \<or> src_err e
      | Panic \<Rightarrow> False)"
proof -
  obtain r sr' s' where en: "sr_ensure poll_read 2 sr s = Some (r, sr', s')"
    and ok: "reader_ok cap sr' s'"
    and post: "case r of
        Ok _ \<Rightarrow> pending_bytes sr' s' = pending_bytes sr s \<and> 2 \<le> length (unparsed_data sr')
      | Err e \<Rightarrow> e = eof_while_reading \<and> length (pending_bytes sr s) < 2 \<or> src_err e
      | Panic \<Rightarrow> False"
    using sr_ensure_total [OF assms] by blast
  have inv: "sr_inv sr'" using ok by (simp add: reader_ok_def)
  show ?thesis
  proof (cases r)
    case (Ok u)
    let ?w = "[sr_buf sr' ! sr_start sr', sr_buf sr' ! (sr_start sr' + 1)]"
    from Ok post have u: "2 \<le> length (unparsed_data sr')" "pending_bytes sr' s' = pending_bytes sr s"
      by auto
    obtain a b us where ab: "unparsed_data sr' = a # b # us"
      using u(1) by (cases "unparsed_data sr'"; cases "tl (unparsed_data sr')") auto
    then have "?w = [a, b]"
      using nth_unparsed [OF inv, of 0] nth_unparsed [OF inv, of 1] by simp
    then show ?thesis
      using en ok Ok u ab consume_spec [OF inv u(1)]
      by (auto simp: sr_read_u16_be_def reader_ok_def pending_bytes_def u16_be_u16_of_be)
  qed (use en ok post in \<open>auto simp: sr_read_u16_be_def\<close>)
qed

end

section \<open>The refinement for any source\<close>

text \<open>C16. Over any source that keeps the contract of \<^verbatim>\<open>AsyncRead\<close>, reading a slice of at most the
  buffer's size always comes to an end. It gives the next bytes of what was buffered
  followed by what the source delivers, and leaves exactly the bytes after them; it fails
  only with an error of the source, or at its end when fewer bytes are left than asked for.\<close>

theorem read_slice_refines_byte_queue:
  assumes src: "byte_source rd content src_inv delay src_err"
    and "sr_inv sr" and "src_inv s" and "len \<le> length (sr_buf sr)"
  shows "\<exists>r sr' s'. sr_read_slice rd len sr s = Some (r, sr', s') \<and> sr_inv sr' \<and> src_inv s' \<and>
     (case r of
        Ok bs \<Rightarrow> length bs = len
                   \<and> unparsed_data sr @ content s = bs @ unparsed_data sr' @ content s'
      | Err e \<Rightarrow> e = eof_while_reading \<and> length (unparsed_data sr @ content s) < len \<or> src_err e
      | Panic \<Rightarrow> False)"
proof -
  note defs = byte_source.reader_ok_def [OF src] byte_source.pending_bytes_def [OF src]
  have "byte_source.reader_ok src_inv (length (sr_buf sr)) sr s"
    using assms by (simp add: defs)
  from byte_source.sr_read_slice_total [OF src this assms(4)] show ?thesis
    unfolding defs by blast
qed

theorem read_slice_refines_byte_queue_witness:
  "\<exists>r sr' s'. sr_read_slice script_read 3 (sr_new (\<lambda>_. 0)) [Chunk [1, 2], Wait, Chunk [3, 4]]
       = Some (r, sr', s') \<and> sr_inv sr' \<and> script_inv s' \<and>
     (case r of
        Ok bs \<Rightarrow> length bs = 3 \<and> unparsed_data (sr_new (\<lambda>_. 0)) @ [1, 2, 3, 4]
                   = bs @ unparsed_data sr' @ script_content s'
      | Err e \<Rightarrow> e = eof_while_reading \<and> length (unparsed_data (sr_new (\<lambda>_. 0)) @ [1, 2, 3, 4]) < 3 \<or> True
      | Panic \<Rightarrow> False)"
proof -
  have inv: "sr_inv (sr_new (\<lambda>_. 0))" "script_inv [Chunk [1, 2], Wait, Chunk [3, 4]]"
    "3 \<le> length (sr_buf (sr_new (\<lambda>_. 0)))"
    "script_content [Chunk [1, 2], Wait, Chunk [3, 4]] = [1, 2, 3, 4]"
    by (simp_all add: sr_new_def script_inv_def)
      (simp add: sr_new_with_buffer_size_def allocate_vec_def)
  show ?thesis
    using read_slice_refines_byte_queue [OF script.byte_source_axioms inv(1-3)] unfolding inv(4) .
qed

end
