(* ===== verification/Anytls_Stream.thy ===== *)
theory Anytls_Stream
  imports Async_Stream
begin

text \<open>
  \<^verbatim>\<open>src/anytls/stream.rs\<close>: one multiplexed stream of an AnyTLS session. It reads the messages
  the session's receive loop pushes into its channel (an empty message is the end of the
  stream) and writes messages to the session's outgoing channel (an empty message is sent
  on as FIN). The two channel ends come from tokio, so their operations are parameters:
  \<open>recv\<close> is \<^verbatim>\<open>Receiver::poll_recv\<close>, \<open>reserve\<close> and \<open>send_item\<close> are those of \<^verbatim>\<open>PollSender\<close>,
  \<open>try_send\<close> is that of the sender it wraps. The locales \<open>chan_rx\<close> and \<open>chan_tx\<close> state what
  their documentation promises; the stream is then a byte source and a byte sink.
\<close>

section \<open>Definitions\<close>

record ('c, 't) anytls_stream =
  as_id :: u32
  as_rx :: 'c
  as_read_buffer :: "byte list"
  as_read_offset :: nat
  as_tx :: 't
  as_session_closed :: bool
  as_stream_closed :: bool
  as_shutdown_in_progress :: bool
  as_eof :: bool

abbreviation max_frame_data_size :: nat where
  "max_frame_data_size \<equiv> 65535"

definition anytls_stream_new :: "u32 \<Rightarrow> 'c \<Rightarrow> 't \<Rightarrow> bool \<Rightarrow> ('c, 't) anytls_stream" where
  "anytls_stream_new i rx tx session_closed =
     \<lparr>as_id = i, as_rx = rx, as_read_buffer = [], as_read_offset = 0, as_tx = tx,
      as_session_closed = session_closed, as_stream_closed = False,
      as_shutdown_in_progress = False, as_eof = False\<rparr>"

definition broken_pipe :: "string \<Rightarrow> io_error" where
  "broken_pipe m = IoError BrokenPipe m"

definition anytls_poll_read ::
  "('c \<Rightarrow> byte list option poll \<times> 'c) \<Rightarrow> ('c, 't) anytls_stream reader" where
  "anytls_poll_read recv st n =
     (if as_stream_closed st then (Ready (Err (broken_pipe ''stream closed'')), st)
      else
        let remaining_in_buffer = length (as_read_buffer st) - as_read_offset st in
        if as_eof st \<and> remaining_in_buffer = 0 then (Ready (Ok []), st)
        else if remaining_in_buffer > 0 then
          let k = min remaining_in_buffer n;
              out = slice_of (as_read_offset st) (as_read_offset st + k) (as_read_buffer st);
              st' = st\<lparr>as_read_offset := as_read_offset st + k\<rparr>
          in (Ready (Ok out),
              if as_read_offset st' \<ge> length (as_read_buffer st')
              then st'\<lparr>as_read_buffer := [], as_read_offset := 0\<rparr> else st')
        else
          (case recv (as_rx st) of
             (Ready (Some data), rx') \<Rightarrow>
               if data = [] then (Ready (Ok []), st\<lparr>as_rx := rx', as_eof := True\<rparr>)
               else
                 let k = min (length data) n; st' = st\<lparr>as_rx := rx'\<rparr> in
                 (Ready (Ok (take k data)),
                  if k < length data then st'\<lparr>as_read_buffer := data, as_read_offset := k\<rparr> else st')
           | (Ready None, rx') \<Rightarrow> (Ready (Ok []), st\<lparr>as_rx := rx', as_eof := True\<rparr>)
           | (Pending, rx') \<Rightarrow> (Pending, st\<lparr>as_rx := rx'\<rparr>)))"

definition anytls_poll_write ::
  "('t \<Rightarrow> bool poll \<times> 't) \<Rightarrow> ('t \<Rightarrow> u32 \<times> byte list \<Rightarrow> bool \<times> 't) \<Rightarrow>
   ('c, 't) anytls_stream writer" where
  "anytls_poll_write reserve send_item st buf =
     (if as_stream_closed st then (Ready (Err (broken_pipe ''stream closed'')), st)
      else if as_shutdown_in_progress st
        then (Ready (Err (broken_pipe ''stream is shutting down'')), st)
      else if as_session_closed st then (Ready (Err (broken_pipe ''session closed'')), st)
      else
        case reserve (as_tx st) of
          (Ready True, tx') \<Rightarrow>
            let write_len = min (length buf) max_frame_data_size in
            (case send_item tx' (as_id st, take write_len buf) of
               (True, tx'') \<Rightarrow> (Ready (Ok write_len), st\<lparr>as_tx := tx''\<rparr>)
             | (False, tx'') \<Rightarrow>
                 (Ready (Err (broken_pipe ''session channel closed'')), st\<lparr>as_tx := tx''\<rparr>))
        | (Ready False, tx') \<Rightarrow>
            (Ready (Err (broken_pipe ''session channel closed'')), st\<lparr>as_tx := tx'\<rparr>)
        | (Pending, tx') \<Rightarrow> (Pending, st\<lparr>as_tx := tx'\<rparr>))"

definition anytls_poll_shutdown ::
  "('t \<Rightarrow> bool poll \<times> 't) \<Rightarrow> ('t \<Rightarrow> u32 \<times> byte list \<Rightarrow> bool \<times> 't) \<Rightarrow>
   ('c, 't) anytls_stream \<Rightarrow> unit res poll \<times> ('c, 't) anytls_stream" where
  "anytls_poll_shutdown reserve send_item st =
     (if as_stream_closed st then (Ready (Ok ()), st)
      else if as_session_closed st then (Ready (Ok ()), st\<lparr>as_stream_closed := True\<rparr>)
      else
        let st1 = st\<lparr>as_shutdown_in_progress := True\<rparr> in
        case reserve (as_tx st1) of
          (Ready True, tx') \<Rightarrow>
            (case send_item tx' (as_id st, []) of
               (True, tx'') \<Rightarrow> (Ready (Ok ()), st1\<lparr>as_tx := tx'', as_stream_closed := True\<rparr>)
             | (False, tx'') \<Rightarrow>
                 (Ready (Err (broken_pipe ''session channel closed during shutdown'')),
                  st1\<lparr>as_tx := tx'', as_stream_closed := True\<rparr>))
        | (Ready False, tx') \<Rightarrow>
            (Ready (Err (broken_pipe ''session channel closed'')),
             st1\<lparr>as_tx := tx', as_stream_closed := True\<rparr>)
        | (Pending, tx') \<Rightarrow> (Pending, st1\<lparr>as_tx := tx'\<rparr>))"

definition send_fin_best_effort ::
  "('t \<Rightarrow> u32 \<times> byte list \<Rightarrow> bool \<times> 't) \<Rightarrow> ('c, 't) anytls_stream \<Rightarrow> ('c, 't) anytls_stream" where
  "send_fin_best_effort try_send st = st\<lparr>as_tx := snd (try_send (as_tx st) (as_id st, []))\<rparr>"

definition anytls_drop ::
  "('t \<Rightarrow> u32 \<times> byte list \<Rightarrow> bool \<times> 't) \<Rightarrow> ('c, 't) anytls_stream \<Rightarrow> ('c, 't) anytls_stream" where
  "anytls_drop try_send st =
     (if as_stream_closed st then st
      else send_fin_best_effort try_send (st\<lparr>as_stream_closed := True\<rparr>))"

text \<open>The stream as an \<^verbatim>\<open>AsyncStream\<close>: there is nothing to flush, and no ping.\<close>

definition anytls_stream_ops ::
  "('c \<Rightarrow> byte list option poll \<times> 'c) \<Rightarrow> ('t \<Rightarrow> bool poll \<times> 't) \<Rightarrow>
   ('t \<Rightarrow> u32 \<times> byte list \<Rightarrow> bool \<times> 't) \<Rightarrow> ('c, 't) anytls_stream async_stream" where
  "anytls_stream_ops recv reserve send_item =
     \<lparr>op_supports_ping = (\<lambda>_. False), op_write_ping = (\<lambda>st. (Ready (Ok False), st)),
      op_read = anytls_poll_read recv, op_write = anytls_poll_write reserve send_item,
      op_flush = (\<lambda>st. (Ready (Ok ()), st)), op_shutdown = anytls_poll_shutdown reserve send_item\<rparr>"

text \<open>What can happen to a stream in its life, and the effect on it: its owner polls it or drops
  it, the session sets the shared closed flag.\<close>

datatype stream_op = OpRead nat | OpWrite "byte list" | OpShutdown | OpDrop | OpSessionClosed

fun stream_apply ::
  "('c \<Rightarrow> byte list option poll \<times> 'c) \<Rightarrow> ('t \<Rightarrow> bool poll \<times> 't) \<Rightarrow>
   ('t \<Rightarrow> u32 \<times> byte list \<Rightarrow> bool \<times> 't) \<Rightarrow> ('t \<Rightarrow> u32 \<times> byte list \<Rightarrow> bool \<times> 't) \<Rightarrow>
   stream_op \<Rightarrow> ('c, 't) anytls_stream \<Rightarrow> ('c, 't) anytls_stream" where
  "stream_apply recv reserve send_item try_send (OpRead n) st = snd (anytls_poll_read recv st n)"
| "stream_apply recv reserve send_item try_send (OpWrite bs) st =
     snd (anytls_poll_write reserve send_item st bs)"
| "stream_apply recv reserve send_item try_send OpShutdown st =
     snd (anytls_poll_shutdown reserve send_item st)"
| "stream_apply recv reserve send_item try_send OpDrop st = anytls_drop try_send st"
| "stream_apply recv reserve send_item try_send OpSessionClosed st = st\<lparr>as_session_closed := True\<rparr>"

section \<open>Channels given by scripts\<close>

text \<open>A receiver given by what each poll finds: a message, or nothing yet. At the end of the
  script the senders are gone.\<close>

fun queue_recv :: "byte list option list \<Rightarrow> byte list option poll \<times> byte list option list" where
  "queue_recv [] = (Ready None, [])"
| "queue_recv (Some d # q) = (Ready (Some d), q)"
| "queue_recv (None # q) = (Pending, q)"

definition queue_msgs :: "byte list option list \<Rightarrow> byte list list" where
  "queue_msgs q = map the (filter (\<lambda>m. m \<noteq> None) q)"

text \<open>A sender given by the number of polls that find the channel full before the next slot
  is free, and for how many messages there is a receiver; with the messages it accepted.\<close>

record queue_tx =
  qt_waits :: "nat list"
  qt_alive :: nat
  qt_sent :: "(u32 \<times> byte list) list"

definition queue_reserve :: "queue_tx \<Rightarrow> bool poll \<times> queue_tx" where
  "queue_reserve t =
     (case qt_waits t of
        Suc n # ws \<Rightarrow> (Pending, t\<lparr>qt_waits := n # ws\<rparr>)
      | _ \<Rightarrow> (Ready (0 < qt_alive t), t))"

definition queue_send :: "queue_tx \<Rightarrow> u32 \<times> byte list \<Rightarrow> bool \<times> queue_tx" where
  "queue_send t m =
     (if 0 < qt_alive t
      then (True, t\<lparr>qt_waits := tl (qt_waits t), qt_alive := qt_alive t - 1, qt_sent := qt_sent t @ [m]\<rparr>)
      else (False, t))"

definition queue_try_send :: "queue_tx \<Rightarrow> u32 \<times> byte list \<Rightarrow> bool \<times> queue_tx" where
  "queue_try_send t m =
     (case qt_waits t of
        Suc n # ws \<Rightarrow> (False, t)
      | _ \<Rightarrow> queue_send t m)"

section \<open>What the channels promise\<close>

text \<open>\<open>rx_msgs c\<close> are the messages the receiver has yet to deliver.\<close>

locale chan_rx =
  fixes recv :: "'c \<Rightarrow> byte list option poll \<times> 'c"
    and rx_msgs :: "'c \<Rightarrow> byte list list"
    and rx_delay :: "'c \<Rightarrow> nat"
  assumes recv_some: "recv c = (Ready (Some d), c') \<Longrightarrow> rx_msgs c = d # rx_msgs c'"
    and recv_none: "recv c = (Ready None, c') \<Longrightarrow> rx_msgs c = []"
    and recv_pending: "recv c = (Pending, c') \<Longrightarrow> rx_msgs c' = rx_msgs c \<and> rx_delay c' < rx_delay c"

text \<open>\<open>tx_sent t\<close> are the messages accepted from this sender so far.\<close>

locale chan_tx =
  fixes reserve :: "'t \<Rightarrow> bool poll \<times> 't"
    and send_item :: "'t \<Rightarrow> u32 \<times> byte list \<Rightarrow> bool \<times> 't"
    and try_send :: "'t \<Rightarrow> u32 \<times> byte list \<Rightarrow> bool \<times> 't"
    and tx_sent :: "'t \<Rightarrow> (u32 \<times> byte list) list"
    and tx_delay :: "'t \<Rightarrow> nat"
  assumes reserve_sent: "reserve t = (p, t') \<Longrightarrow> tx_sent t' = tx_sent t"
    and reserve_pending: "reserve t = (Pending, t') \<Longrightarrow> tx_delay t' < tx_delay t"
    and send_sent: "send_item t m = (ok, t') \<Longrightarrow> tx_sent t' = tx_sent t @ (if ok then [m] else [])"
    and try_sent: "try_send t m = (ok, t') \<Longrightarrow> tx_sent t' = tx_sent t @ (if ok then [m] else [])"

section \<open>The stream as a byte source\<close>

definition stream_ok :: "('c, 't) anytls_stream \<Rightarrow> bool" where
  "stream_ok st \<longleftrightarrow> \<not> as_stream_closed st \<and> as_read_offset st \<le> length (as_read_buffer st)"

text \<open>What a stream still delivers: the rest of the message it is in, then the messages up to
  the first empty one.\<close>

definition stream_content :: "('c \<Rightarrow> byte list list) \<Rightarrow> ('c, 't) anytls_stream \<Rightarrow> byte list" where
  "stream_content msgs st =
     drop (as_read_offset st) (as_read_buffer st)
       @ (if as_eof st then [] else concat (takeWhile (\<lambda>m. m \<noteq> []) (msgs (as_rx st))))"

context chan_rx
begin

lemma poll_read_ok:
  assumes "stream_ok st" and "anytls_poll_read recv st n = (Ready (Ok bs), st')"
  shows "stream_ok st' \<and> length bs \<le> n \<and> stream_content rx_msgs st = bs @ stream_content rx_msgs st'
     \<and> (0 < n \<and> bs = [] \<longrightarrow> stream_content rx_msgs st = [])"
proof -
  let ?rem = "length (as_read_buffer st) - as_read_offset st"
  consider (eof) "as_eof st" "?rem = 0" | (buffered) "0 < ?rem" | (chan) "\<not> as_eof st" "?rem = 0"
    by blast
  then show ?thesis
  proof cases
    case eof
    with assms show ?thesis
      by (auto simp: anytls_poll_read_def stream_ok_def stream_content_def)
  next
    case buffered
    let ?off = "as_read_offset st" and ?buf = "as_read_buffer st"
    define k where "k = min ?rem n"
    have split: "drop ?off ?buf = slice_of ?off (?off + k) ?buf @ drop (?off + k) ?buf"
      using append_take_drop_id [of k "drop ?off ?buf"] by (simp add: slice_of_def add.commute)
    have bs: "bs = slice_of ?off (?off + k) ?buf"
      and st': "st' = (if length ?buf \<le> ?off + k then st\<lparr>as_read_buffer := [], as_read_offset := 0\<rparr>
          else st\<lparr>as_read_offset := ?off + k\<rparr>)"
      using assms buffered by (auto simp: anytls_poll_read_def stream_ok_def Let_def k_def)
    have "length bs = k" using bs buffered by (simp add: k_def)
    moreover have "stream_content rx_msgs st = bs @ stream_content rx_msgs st'"
      using split unfolding bs st' by (simp add: stream_content_def)
    moreover have "stream_ok st'" using assms(1) unfolding st' by (simp add: stream_ok_def)
    moreover have "k \<le> n" "0 < n \<longrightarrow> 0 < k" using buffered by (auto simp: k_def)
    ultimately show ?thesis by auto
  next
    case chan
    obtain p rx' where r: "recv (as_rx st) = (p, rx')" by (cases "recv (as_rx st)")
    with assms chan recv_some [of "as_rx st" _ rx'] recv_none [of "as_rx st" rx'] show ?thesis
      by (auto simp: anytls_poll_read_def stream_ok_def stream_content_def Let_def
          split: if_splits poll.splits option.splits)
  qed
qed

lemma poll_read_pending:
  assumes "stream_ok st" and "anytls_poll_read recv st n = (Pending, st')"
  shows "stream_ok st' \<and> stream_content rx_msgs st' = stream_content rx_msgs st
     \<and> rx_delay (as_rx st') < rx_delay (as_rx st)"
  using assms recv_pending [of "as_rx st"]
  by (auto simp: anytls_poll_read_def stream_ok_def stream_content_def Let_def
      split: if_splits poll.splits option.splits prod.splits)

lemma poll_read_no_fail:
  "stream_ok st \<Longrightarrow> anytls_poll_read recv st n \<noteq> (Ready (Err e), st')"
  "stream_ok st \<Longrightarrow> anytls_poll_read recv st n \<noteq> (Ready Panic, st')"
  by (auto simp: anytls_poll_read_def stream_ok_def Let_def
      split: if_splits poll.splits option.splits prod.splits)

end

text \<open>A stream over a channel is a byte source that raises no error.\<close>

sublocale chan_rx \<subseteq> stream_src: byte_source "anytls_poll_read recv" "stream_content rx_msgs"
    stream_ok "\<lambda>st. rx_delay (as_rx st)" "\<lambda>_. False"
proof (unfold_locales, goal_cases)
  case (1 s n bs s')
  then show ?case by (rule poll_read_ok)
next
  case (2 s n e s')
  then show ?case using poll_read_no_fail by blast
next
  case (3 s n s')
  then show ?case by (rule poll_read_pending)
next
  case (4 s n s')
  then show ?case using poll_read_no_fail by blast
qed


context chan_rx
begin

lemmas stream_byte_source = stream_src.byte_source_axioms

end

section \<open>The stream as a byte sink\<close>

definition stream_writable :: "('c, 't) anytls_stream \<Rightarrow> bool" where
  "stream_writable st \<longleftrightarrow>
     \<not> as_stream_closed st \<and> \<not> as_shutdown_in_progress st \<and> \<not> as_session_closed st"

definition stream_written ::
  "('t \<Rightarrow> (u32 \<times> byte list) list) \<Rightarrow> ('c, 't) anytls_stream \<Rightarrow> byte list" where
  "stream_written sent st = concat (map snd (sent (as_tx st)))"

context chan_tx
begin

lemma poll_write_cases:
  assumes "anytls_poll_write reserve send_item st bs = (p, st')"
  obtains (sent) "stream_writable st" "p = Ready (Ok (min (length bs) max_frame_data_size))"
      "tx_sent (as_tx st') = tx_sent (as_tx st) @ [(as_id st, take max_frame_data_size bs)]"
      "st' = st\<lparr>as_tx := as_tx st'\<rparr>"
    | (failed) m where "p = Ready (Err (broken_pipe m))" "tx_sent (as_tx st') = tx_sent (as_tx st)"
      "st' = st\<lparr>as_tx := as_tx st'\<rparr>"
    | (wait) "p = Pending" "tx_sent (as_tx st') = tx_sent (as_tx st)"
      "tx_delay (as_tx st') < tx_delay (as_tx st)" "st' = st\<lparr>as_tx := as_tx st'\<rparr>"
proof (cases "stream_writable st")
  case False
  with assms that(2) show thesis
    by (auto simp: anytls_poll_write_def stream_writable_def split: if_splits)
next
  case True
  obtain q t where r: "reserve (as_tx st) = (q, t)" by (cases "reserve (as_tx st)")
  obtain ok t' where s: "send_item t (as_id st, take (min (length bs) max_frame_data_size) bs) = (ok, t')"
    by (cases "send_item t (as_id st, take (min (length bs) max_frame_data_size) bs)")
  have tk: "take (min (length bs) max_frame_data_size) bs = take max_frame_data_size bs"
    by (simp add: min_def)
  consider "q = Ready True" ok | "q = Ready True" "\<not> ok" | "q = Ready False" | "q = Pending"
    by (metis (full_types) poll.exhaust)
  then show thesis
  proof cases
    case 1
    with True assms r s reserve_sent [OF r] send_sent [OF s] tk show thesis
      by (intro that(1)) (auto simp: anytls_poll_write_def stream_writable_def Let_def)
  next
    case 2
    with True assms r s reserve_sent [OF r] send_sent [OF s] show thesis
      by (intro that(2) [of "''session channel closed''"])
        (auto simp: anytls_poll_write_def stream_writable_def Let_def)
  next
    case 3
    with True assms r reserve_sent [OF r] show thesis
      by (intro that(2) [of "''session channel closed''"])
        (auto simp: anytls_poll_write_def stream_writable_def)
  next
    case 4
    with True assms r reserve_sent [OF r] reserve_pending [of "as_tx st" t] show thesis
      by (intro that(3)) (auto simp: anytls_poll_write_def stream_writable_def)
  qed
qed

end

text \<open>A stream over a channel is a byte sink whose only errors are broken pipes.\<close>

sublocale chan_tx \<subseteq> stream_snk: byte_sink "anytls_poll_write reserve send_item"
    "stream_written tx_sent" stream_writable "\<lambda>st. tx_delay (as_tx st)" "\<lambda>e. err_kind e = BrokenPipe"
proof (unfold_locales, goal_cases)
  case (1 w bs k w')
  from 1(3) show ?case
  proof (cases rule: poll_write_cases)
    case sent
    then have "stream_writable w'" by (metis "1"(1) anytls_stream.select_convs(5-8) stream_writable_def
        anytls_stream.surjective anytls_stream.update_convs(5))
    moreover have "take k bs = take max_frame_data_size bs" using sent(2) by (simp add: min_def)
    ultimately show ?thesis using sent 1(2) by (simp add: stream_written_def)
  qed simp_all
next
  case (2 w bs e w')
  from 2(3) show ?case
  proof (cases rule: poll_write_cases)
    case (failed m)
    moreover from failed(3) 2(1) have "stream_writable w'"
      by (cases w, cases w') (simp add: stream_writable_def)
    ultimately show ?thesis by (simp add: stream_written_def broken_pipe_def)
  qed simp_all
next
  case (3 w bs w')
  from 3(3) show ?case
  proof (cases rule: poll_write_cases)
    case wait
    moreover from wait(4) 3(1) have "stream_writable w'"
      by (cases w, cases w') (simp add: stream_writable_def)
    ultimately show ?thesis by (simp add: stream_written_def)
  qed simp_all
next
  case (4 w bs w')
  show ?case
  proof
    assume "anytls_poll_write reserve send_item w bs = (Ready Panic, w')"
    then show False by (cases rule: poll_write_cases) simp_all
  qed
qed


context chan_tx
begin

lemmas stream_byte_sink = stream_snk.byte_sink_axioms

end

section \<open>The life of a stream\<close>

text \<open>What a stream has put on the channel since it was created: data messages, then at most
  one FIN, after which the stream is closed.\<close>

definition life_inv :: "u32 \<Rightarrow> (u32 \<times> byte list) list \<Rightarrow> bool \<Rightarrow> (u32 \<times> byte list) list \<Rightarrow> bool" where
  "life_inv i base closed sent \<longleftrightarrow>
     (\<exists>ds. (\<forall>d \<in> set ds. d \<noteq> [] \<and> length d \<le> max_frame_data_size) \<and>
        (sent = base @ map (Pair i) ds \<or> closed \<and> sent = base @ map (Pair i) ds @ [(i, [])]))"

lemma life_inv_data:
  assumes "life_inv i base False sent" and "d \<noteq> []" and "length d \<le> max_frame_data_size"
  shows "life_inv i base False (sent @ [(i, d)])"
proof -
  obtain ds where "\<forall>d \<in> set ds. d \<noteq> [] \<and> length d \<le> max_frame_data_size"
    "sent = base @ map (Pair i) ds"
    using assms(1) by (auto simp: life_inv_def)
  with assms(2,3) show ?thesis
    unfolding life_inv_def by (intro exI [of _ "ds @ [d]"]) auto
qed

lemma life_inv_fin: "life_inv i base False sent \<Longrightarrow> life_inv i base True (sent @ [(i, [])])"
  unfolding life_inv_def by (elim exE conjE) (rule exI, rule conjI, assumption, simp)

lemma life_inv_close: "life_inv i base c sent \<Longrightarrow> life_inv i base True sent"
  unfolding life_inv_def by blast

context chan_tx
begin

lemma poll_shutdown_cases:
  assumes "anytls_poll_shutdown reserve send_item st = (p, st')"
  obtains (kept) "tx_sent (as_tx st') = tx_sent (as_tx st)" "as_id st' = as_id st"
      "as_stream_closed st \<longrightarrow> as_stream_closed st'"
    | (fin) "\<not> as_stream_closed st" "as_stream_closed st'" "as_id st' = as_id st"
      "tx_sent (as_tx st') = tx_sent (as_tx st) @ [(as_id st, [])]"
proof (cases "as_stream_closed st \<or> as_session_closed st")
  case True
  with assms that(1) show thesis
    by (auto simp: anytls_poll_shutdown_def split: if_splits)
next
  case False
  obtain q t where r: "reserve (as_tx st) = (q, t)" by (cases "reserve (as_tx st)")
  obtain ok t' where s: "send_item t (as_id st, []) = (ok, t')"
    by (cases "send_item t (as_id st, [])")
  consider "q = Ready True" ok | "q = Ready True" "\<not> ok" | "q = Ready False" | "q = Pending"
    by (metis (full_types) poll.exhaust)
  then show thesis
  proof cases
    case 1
    with False assms r s reserve_sent [OF r] send_sent [OF s] show thesis
      by (intro that(2)) (auto simp: anytls_poll_shutdown_def Let_def)
  next
    case 2
    with False assms r s reserve_sent [OF r] send_sent [OF s] show thesis
      by (intro that(1)) (auto simp: anytls_poll_shutdown_def Let_def)
  next
    case 3
    with False assms r reserve_sent [OF r] show thesis
      by (intro that(1)) (auto simp: anytls_poll_shutdown_def Let_def)
  next
    case 4
    with False assms r reserve_sent [OF r] show thesis
      by (intro that(1)) (auto simp: anytls_poll_shutdown_def Let_def)
  qed
qed

lemma drop_cases:
  obtains (kept) "tx_sent (as_tx (anytls_drop try_send st)) = tx_sent (as_tx st)"
    | (fin) "\<not> as_stream_closed st"
      "tx_sent (as_tx (anytls_drop try_send st)) = tx_sent (as_tx st) @ [(as_id st, [])]"
proof (cases "as_stream_closed st")
  case True
  with that(1) show thesis by (simp add: anytls_drop_def)
next
  case False
  obtain ok t where s: "try_send (as_tx st) (as_id st, []) = (ok, t)"
    by (cases "try_send (as_tx st) (as_id st, [])")
  with False try_sent [OF s] that show thesis
    by (cases ok) (simp_all add: anytls_drop_def send_fin_best_effort_def)
qed

lemma read_keeps_tx:
  "as_tx (snd (anytls_poll_read recv st n)) = as_tx st
   \<and> as_stream_closed (snd (anytls_poll_read recv st n)) = as_stream_closed st
   \<and> as_id (snd (anytls_poll_read recv st n)) = as_id st"
  by (simp add: anytls_poll_read_def Let_def split: prod.split poll.split option.split)

lemma stream_apply_life:
  assumes "life_inv (as_id st) base (as_stream_closed st) (tx_sent (as_tx st))"
    and "op \<noteq> OpWrite []"
  shows "life_inv (as_id st) base (as_stream_closed (stream_apply recv reserve send_item try_send op st))
       (tx_sent (as_tx (stream_apply recv reserve send_item try_send op st)))
     \<and> as_id (stream_apply recv reserve send_item try_send op st) = as_id st"
proof (cases op)
  case (OpRead n)
  with assms show ?thesis by (simp add: read_keeps_tx)
next
  case (OpWrite bs)
  obtain p st' where w: "anytls_poll_write reserve send_item st bs = (p, st')"
    by (cases "anytls_poll_write reserve send_item st bs")
  then have same: "as_stream_closed st' = as_stream_closed st \<and> as_id st' = as_id st"
    by (cases rule: poll_write_cases) (metis anytls_stream.select_convs(1,7) anytls_stream.surjective
        anytls_stream.update_convs(5))+
  from w show ?thesis
  proof (cases rule: poll_write_cases)
    case sent
    with assms OpWrite w same life_inv_data [of "as_id st" base "tx_sent (as_tx st)"
        "take max_frame_data_size bs"] show ?thesis
      by (auto simp: stream_writable_def)
  qed (use assms OpWrite w same in auto)
next
  case OpShutdown
  obtain p st' where w: "anytls_poll_shutdown reserve send_item st = (p, st')"
    by (cases "anytls_poll_shutdown reserve send_item st")
  then show ?thesis
  proof (cases rule: poll_shutdown_cases)
    case kept
    with assms OpShutdown w life_inv_close show ?thesis
      by (cases "as_stream_closed st") (simp_all, cases "as_stream_closed st'", auto)
  next
    case fin
    with assms OpShutdown w life_inv_fin show ?thesis by simp
  qed
next
  case OpDrop
  have "as_stream_closed (anytls_drop try_send st)" "as_id (anytls_drop try_send st) = as_id st"
    by (simp_all add: anytls_drop_def send_fin_best_effort_def)
  then show ?thesis
    using assms OpDrop life_inv_fin life_inv_close
    by (cases rule: drop_cases [of st]) auto
next
  case OpSessionClosed
  with assms show ?thesis by simp
qed

lemma stream_fold_life:
  "life_inv (as_id st) base (as_stream_closed st) (tx_sent (as_tx st)) \<Longrightarrow> OpWrite [] \<notin> set ops \<Longrightarrow>
   life_inv (as_id st) base (as_stream_closed (fold (stream_apply recv reserve send_item try_send) ops st))
     (tx_sent (as_tx (fold (stream_apply recv reserve send_item try_send) ops st)))"
proof (induction ops arbitrary: st)
  case Nil
  then show ?case by simp
next
  case (Cons op ops)
  let ?st = "stream_apply recv reserve send_item try_send op st"
  have "op \<noteq> OpWrite []" using Cons.prems(2) by auto
  with Cons.prems(1) have st: "life_inv (as_id st) base (as_stream_closed ?st) (tx_sent (as_tx ?st))"
    and i: "as_id ?st = as_id st"
    using stream_apply_life by blast+
  have "OpWrite [] \<notin> set ops" using Cons.prems(2) by simp
  from Cons.IH [OF _ this, of ?st] st show ?case by (simp add: i)
qed

end

section \<open>Interpretations\<close>

interpretation queue_rx: chan_rx queue_recv queue_msgs length
proof (unfold_locales, goal_cases)
  case (1 c d c')
  then show ?case by (cases c rule: queue_recv.cases) (auto simp: queue_msgs_def)
next
  case (2 c c')
  then show ?case by (cases c rule: queue_recv.cases) (auto simp: queue_msgs_def)
next
  case (3 c c')
  then show ?case by (cases c rule: queue_recv.cases) (auto simp: queue_msgs_def)
qed

interpretation queue_tx: chan_tx queue_reserve queue_send queue_try_send qt_sent "\<lambda>t. sum_list (qt_waits t)"
proof (unfold_locales, goal_cases)
  case (1 t p t')
  then show ?case by (auto simp: queue_reserve_def split: list.splits nat.splits)
next
  case (2 t t')
  then show ?case by (auto simp: queue_reserve_def split: list.splits nat.splits)
next
  case (3 t m ok t')
  then show ?case by (auto simp: queue_send_def split: if_splits)
next
  case (4 t m ok t')
  then show ?case
    by (auto simp: queue_try_send_def queue_send_def split: list.splits nat.splits if_splits)
qed

section \<open>Properties\<close>

text \<open>Reading an AnyTLS stream refines reading a byte queue: over any receiver that delivers
  messages in order, \<^verbatim>\<open>poll_read\<close> hands out the bytes of the messages up to the first empty
  one, each exactly once and in order, never more than there is room for, reports the end only
  when nothing is left, and does not fail while the stream is open.\<close>

theorem anytls_stream_is_byte_source:
  assumes "chan_rx recv msgs waits"
  shows "byte_source (anytls_poll_read recv) (stream_content msgs) stream_ok
    (\<lambda>st. waits (as_rx st)) (\<lambda>_. False)"
  by (rule chan_rx.stream_byte_source [OF assms])

theorem anytls_stream_is_byte_source_witness:
  "byte_source (anytls_poll_read queue_recv) (stream_content queue_msgs) stream_ok
     (\<lambda>st. length (as_rx st)) (\<lambda>_. False)
   \<and> stream_ok (anytls_stream_new 1 [Some [7, 8], None, Some [9], Some [], Some [1]] () False)
   \<and> stream_content queue_msgs (anytls_stream_new 1 [Some [7, 8], None, Some [9], Some [], Some [1]] () False)
      = [7, 8, 9]"
  using anytls_stream_is_byte_source [OF queue_rx.chan_rx_axioms]
  by (simp add: anytls_stream_new_def stream_ok_def stream_content_def queue_msgs_def)

text \<open>Writing to an AnyTLS stream refines a byte sink: while the stream is open,
  \<^verbatim>\<open>poll_write\<close> takes a non-empty prefix of the buffer (at most 65535 bytes) and puts exactly
  it on the session's channel; when it fails, with a broken pipe, nothing was put there.\<close>

theorem anytls_stream_is_byte_sink:
  assumes "chan_tx reserve send_item try_send sent waits"
  shows "byte_sink (anytls_poll_write reserve send_item) (stream_written sent) stream_writable
    (\<lambda>st. waits (as_tx st)) (\<lambda>e. err_kind e = BrokenPipe)"
  by (rule chan_tx.stream_byte_sink [OF assms])

theorem anytls_stream_is_byte_sink_witness:
  "byte_sink (anytls_poll_write queue_reserve queue_send) (stream_written qt_sent) stream_writable
     (\<lambda>st. sum_list (qt_waits (as_tx st))) (\<lambda>e. err_kind e = BrokenPipe)
   \<and> stream_writable (anytls_stream_new 1 () \<lparr>qt_waits = [2], qt_alive = 5, qt_sent = []\<rparr> False)"
  using anytls_stream_is_byte_sink [OF queue_tx.chan_tx_axioms]
  by (simp add: anytls_stream_new_def stream_writable_def)



text \<open>An empty write is not a no-op: it puts an empty message on the channel, which the
  session transmits as FIN, while the stream still takes itself for open.\<close>

theorem empty_write_sends_fin:
  assumes "chan_tx reserve send_item try_send sent waits" and "stream_writable st"
    and "anytls_poll_write reserve send_item st [] = (Ready (Ok n), st')"
  shows "sent (as_tx st') = sent (as_tx st) @ [(as_id st, [])] \<and> n = 0 \<and> \<not> as_stream_closed st'"
proof (cases rule: chan_tx.poll_write_cases [OF assms(1) assms(3), case_names sent failed wait])
  case sent
  have "as_stream_closed st' = as_stream_closed st"
    by (subst sent(4)) simp
  with sent assms(2) show ?thesis by (simp add: stream_writable_def)
qed simp_all

theorem empty_write_sends_fin_witness:
  "let st = anytls_stream_new 1 () \<lparr>qt_waits = [], qt_alive = 9, qt_sent = []\<rparr> False;
       st' = snd (anytls_poll_write queue_reserve queue_send st [])
   in qt_sent (as_tx st') = qt_sent (as_tx st) @ [(as_id st, [])] \<and> 0 = (0::nat) \<and> \<not> as_stream_closed st'"
  unfolding Let_def
  by (rule empty_write_sends_fin [OF queue_tx.chan_tx_axioms])
    (simp_all add: anytls_stream_new_def stream_writable_def anytls_poll_write_def
      queue_reserve_def queue_send_def)

text \<open>A stream that was shut down cannot be read any more, even when the peer has sent data that
  is still to be delivered: every read fails. The copy loop shuts a stream down when the
  other side has ended and then goes on reading from it, which this stream does not allow.\<close>

theorem read_after_shutdown_fails:
  assumes "anytls_poll_shutdown reserve send_item st = (Ready r, st')"
  shows "anytls_poll_read recv st' n = (Ready (Err (broken_pipe ''stream closed'')), st')"
proof -
  have "as_stream_closed st'"
    using assms by (auto simp: anytls_poll_shutdown_def Let_def split: if_splits prod.splits poll.splits bool.splits)
  then show ?thesis by (simp add: anytls_poll_read_def)
qed

theorem read_after_shutdown_fails_witness:
  "let st = anytls_stream_new 1 [Some [7, 8]] \<lparr>qt_waits = [], qt_alive = 9, qt_sent = []\<rparr> False;
       st' = snd (anytls_poll_shutdown queue_reserve queue_send st)
   in stream_content queue_msgs st' = [7, 8]
    \<and> anytls_poll_read queue_recv st' 10 = (Ready (Err (broken_pipe ''stream closed'')), st')"
proof -
  let ?st = "anytls_stream_new 1 [Some [7, 8]] \<lparr>qt_waits = [], qt_alive = 9, qt_sent = []\<rparr> False"
  let ?st' = "snd (anytls_poll_shutdown queue_reserve queue_send ?st)"
  have run: "anytls_poll_shutdown queue_reserve queue_send ?st = (Ready (Ok ()), ?st')"
    by (simp add: anytls_stream_new_def anytls_poll_shutdown_def queue_reserve_def queue_send_def)
  have "stream_content queue_msgs ?st' = [7, 8]"
    by (simp add: anytls_stream_new_def anytls_poll_shutdown_def queue_reserve_def queue_send_def
        stream_content_def queue_msgs_def)
  with read_after_shutdown_fails [OF run] show ?thesis by (simp add: Let_def)
qed

end
