(* ===== verification/Message_Codec.thy ===== *)
theory Message_Codec
  imports Async_Stream Address
begin

text \<open>
  The first half of \<^verbatim>\<open>src/message_stream.rs\<close>: the sliding buffer and the UDP-over-TCP
  address codec. The structure \<^verbatim>\<open>AddressCodec\<close>, a pair of function pointers, is the interface
  between the packet stream and the address format; its contract is the locale
  \<open>address_codec\<close>, which \<open>parse_uot_address\<close> and \<open>write_uot_address\<close> interpret.
\<close>

section \<open>SlideBuffer\<close>

record slide_buffer =
  sb_data :: "byte list"
  sb_start :: nat
  sb_end :: nat

definition sb_new :: "(nat \<Rightarrow> byte) \<Rightarrow> nat \<Rightarrow> slide_buffer" where
  "sb_new mem capacity = \<lparr>sb_data = allocate_vec mem capacity, sb_start = 0, sb_end = 0\<rparr>"

definition sb_len :: "slide_buffer \<Rightarrow> nat" where
  "sb_len b = sb_end b - sb_start b"

definition remaining_capacity :: "slide_buffer \<Rightarrow> nat" where
  "remaining_capacity b = length (sb_data b) - sb_end b"

definition as_slice :: "slide_buffer \<Rightarrow> byte list res" where
  "as_slice b =
     (if sb_start b \<le> sb_end b \<and> sb_end b \<le> length (sb_data b)
      then Ok (slice_of (sb_start b) (sb_end b) (sb_data b)) else Panic)"

text \<open>Filling the front of \<^verbatim>\<open>write_slice\<close> and then \<^verbatim>\<open>advance_write\<close>, as the callers do.\<close>

definition advance_write :: "byte list \<Rightarrow> slide_buffer \<Rightarrow> slide_buffer" where
  "advance_write bs b =
     b\<lparr>sb_data := overwrite (sb_end b) bs (sb_data b), sb_end := sb_end b + length bs\<rparr>"

definition sb_consume :: "nat \<Rightarrow> slide_buffer \<Rightarrow> slide_buffer" where
  "sb_consume n b =
     (if sb_start b + n \<ge> sb_end b then b\<lparr>sb_start := 0, sb_end := 0\<rparr>
      else b\<lparr>sb_start := sb_start b + n\<rparr>)"

definition maybe_compact :: "nat \<Rightarrow> slide_buffer \<Rightarrow> slide_buffer" where
  "maybe_compact threshold b =
     (if sb_start b > threshold then
        (if sb_start b < sb_end b
         then b\<lparr>sb_data := overwrite 0 (slice_of (sb_start b) (sb_end b) (sb_data b)) (sb_data b),
                sb_end := sb_end b - sb_start b, sb_start := 0\<rparr>
         else b\<lparr>sb_end := 0, sb_start := 0\<rparr>)
      else b)"

section \<open>The address codec\<close>

definition uot_atyp_ipv4 :: byte where "uot_atyp_ipv4 = 0"
definition uot_atyp_ipv6 :: byte where "uot_atyp_ipv6 = 1"
definition uot_atyp_domain :: byte where "uot_atyp_domain = 2"

definition parse_uot_address :: "byte list \<Rightarrow> (net_location \<times> nat) option res" where
  "parse_uot_address data =
     (if data = [] then Ok None
      else
        let atyp = data ! 0 in
        if atyp = uot_atyp_ipv4 then
          (if length data < 7 then Ok None
           else
             let ip = ipv4_of_octets [data ! 1, data ! 2, data ! 3, data ! 4];
                 port = u16_of_be [data ! 5, data ! 6]
             in Ok (Some (net_location_new (Ipv4 ip) port, 7)))
        else if atyp = uot_atyp_ipv6 then
          (if length data < 19 then Ok None
           else
             let ip = ipv6_of_octets (slice_of 1 17 data);
                 port = u16_of_be [data ! 17, data ! 18]
             in Ok (Some (net_location_new (Ipv6 ip) port, 19)))
        else if atyp = uot_atyp_domain then
          (if length data < 2 then Ok None
           else
             let domain_len = unat (data ! 1); total_len = 1 + 1 + domain_len + 2 in
             if length data < total_len then Ok None
             else bind_res
               (res_of_option (other_error ''invalid domain'') (from_utf8 (slice_of 2 (2 + domain_len) data)))
               (\<lambda>domain.
                  let port = u16_of_be [data ! (2 + domain_len), data ! (3 + domain_len)] in
                  Ok (Some (net_location_new (Hostname domain) port, total_len))))
        else Err (other_error ''unknown UoT ATYP''))"

text \<open>The writer fills the front of a buffer, which has to be long enough, and returns how many
  bytes it filled.\<close>

fun write_uot_address :: "byte list \<Rightarrow> socket_addr \<Rightarrow> (byte list \<times> nat) res" where
  "write_uot_address buf (SockV4 ip port) =
     (if length buf < 7 then Panic
      else Ok (overwrite 5 (u16_be port) (overwrite 1 (ipv4_octets ip) (buf[0 := uot_atyp_ipv4])), 7))"
| "write_uot_address buf (SockV6 ip port scope) =
     (if length buf < 19 then Panic
      else Ok (overwrite 17 (u16_be port) (overwrite 1 (ipv6_octets ip) (buf[0 := uot_atyp_ipv6])), 19))"

record address_codec =
  ac_parse :: "byte list \<Rightarrow> (net_location \<times> nat) option res"
  ac_write :: "byte list \<Rightarrow> socket_addr \<Rightarrow> (byte list \<times> nat) res"

definition uot_addr_codec :: address_codec where
  "uot_addr_codec = \<lparr>ac_parse = parse_uot_address, ac_write = write_uot_address\<rparr>"

section \<open>The sliding buffer as a byte sequence\<close>

definition sb_inv :: "slide_buffer \<Rightarrow> bool" where
  "sb_inv b \<longleftrightarrow> sb_start b \<le> sb_end b \<and> sb_end b \<le> length (sb_data b)"

definition sb_bytes :: "slide_buffer \<Rightarrow> byte list" where
  "sb_bytes b = slice_of (sb_start b) (sb_end b) (sb_data b)"

lemma sb_new_spec [simp]:
  "sb_inv (sb_new mem cap)" "sb_bytes (sb_new mem cap) = []" "length (sb_data (sb_new mem cap)) = cap"
  by (simp_all add: sb_inv_def sb_bytes_def sb_new_def)

lemma as_slice_eq: "sb_inv b \<Longrightarrow> as_slice b = Ok (sb_bytes b)"
  by (simp add: as_slice_def sb_inv_def sb_bytes_def)

lemma length_sb_bytes: "sb_inv b \<Longrightarrow> length (sb_bytes b) = sb_len b"
  by (simp add: sb_inv_def sb_bytes_def sb_len_def)

lemma advance_write_spec:
  assumes "sb_inv b" and "length bs \<le> remaining_capacity b"
  shows "sb_inv (advance_write bs b)" "sb_bytes (advance_write bs b) = sb_bytes b @ bs"
    "length (sb_data (advance_write bs b)) = length (sb_data b)"
    "sb_start (advance_write bs b) = sb_start b"
proof -
  have "sb_end b + length bs \<le> length (sb_data b)"
    using assms by (auto simp: sb_inv_def remaining_capacity_def)
  with assms(1) show "sb_inv (advance_write bs b)" "sb_bytes (advance_write bs b) = sb_bytes b @ bs"
    "length (sb_data (advance_write bs b)) = length (sb_data b)"
    "sb_start (advance_write bs b) = sb_start b"
    by (simp_all add: advance_write_def sb_inv_def sb_bytes_def slice_overwrite_extend)
qed

lemma sb_consume_spec:
  assumes "sb_inv b" and "n \<le> sb_len b"
  shows "sb_inv (sb_consume n b)" "sb_bytes (sb_consume n b) = drop n (sb_bytes b)"
    "length (sb_data (sb_consume n b)) = length (sb_data b)"
  using assms by (auto simp: sb_consume_def sb_inv_def sb_bytes_def sb_len_def drop_slice)
    (simp add: slice_of_def)

lemma maybe_compact_spec:
  assumes "sb_inv b"
  shows "sb_inv (maybe_compact t b)" "sb_bytes (maybe_compact t b) = sb_bytes b"
    "length (sb_data (maybe_compact t b)) = length (sb_data b)"
    "sb_start (maybe_compact t b) \<le> t"
  using assms by (auto simp: maybe_compact_def sb_inv_def sb_bytes_def overwrite_def)

section \<open>The contract of an address codec\<close>

text \<open>The wire form of a location: the type, the address, the port in network order.\<close>

fun uot_bytes :: "net_location \<Rightarrow> byte list" where
  "uot_bytes \<lparr>nl_address = Ipv4 ip, nl_port = p\<rparr> = uot_atyp_ipv4 # ipv4_octets ip @ u16_be p"
| "uot_bytes \<lparr>nl_address = Ipv6 ip, nl_port = p\<rparr> = uot_atyp_ipv6 # ipv6_octets ip @ u16_be p"
| "uot_bytes \<lparr>nl_address = Hostname h, nl_port = p\<rparr> =
     uot_atyp_domain # of_nat (length h) # bytes_of h @ u16_be p"

definition uot_ok :: "net_location \<Rightarrow> bool" where
  "uot_ok l = (case nl_address l of
      Hostname h \<Rightarrow> length h \<le> 255 \<and> utf8_ok (map unat (bytes_of h)) | _ \<Rightarrow> True)"

definition location_of_socket :: "socket_addr \<Rightarrow> net_location" where
  "location_of_socket sa =
     (case sa of SockV4 ip p \<Rightarrow> net_location_new (Ipv4 ip) p | SockV6 ip p _ \<Rightarrow> net_location_new (Ipv6 ip) p)"

locale address_codec =
  fixes codec :: address_codec
    and addr_bytes :: "net_location \<Rightarrow> byte list"
    and addr_ok :: "net_location \<Rightarrow> bool"
  assumes parse_full: "addr_ok l \<Longrightarrow>
      ac_parse codec (addr_bytes l @ rest) = Ok (Some (l, length (addr_bytes l)))"
    and parse_short: "addr_ok l \<Longrightarrow> k < length (addr_bytes l) \<Longrightarrow>
      ac_parse codec (take k (addr_bytes l)) = Ok None"
    and write_addr: "length (addr_bytes (location_of_socket sa)) \<le> length buf \<Longrightarrow>
      ac_write codec buf sa = Ok (overwrite 0 (addr_bytes (location_of_socket sa)) buf,
        length (addr_bytes (location_of_socket sa)))"
    and socket_addr_ok: "addr_ok (location_of_socket sa)"
    and socket_addr_len: "length (addr_bytes (location_of_socket sa)) = (if socket_addr_is_ipv6 sa then 19 else 7)"
    and addr_len: "addr_ok l \<Longrightarrow> length (addr_bytes l) \<le> 259"


section \<open>The UDP-over-TCP codec keeps it\<close>

lemma list_4: "length xs = 4 \<Longrightarrow> [xs ! 0, xs ! 1, xs ! 2, xs ! 3] = xs"
  by (simp add: list_eq_iff_nth_eq less_Suc_eq numeral_eq_Suc)

lemma list_2: "length xs = 2 \<Longrightarrow> [xs ! 0, xs ! 1] = xs"
  by (simp add: list_eq_iff_nth_eq less_Suc_eq numeral_eq_Suc)

lemma parse_uot_full_ipv4:
  "parse_uot_address (uot_atyp_ipv4 # ipv4_octets ip @ u16_be p @ rest) =
     Ok (Some (net_location_new (Ipv4 ip) p, 7))"
proof -
  let ?d = "uot_atyp_ipv4 # ipv4_octets ip @ u16_be p @ rest"
  have "[?d ! 1, ?d ! 2, ?d ! 3, ?d ! 4] = ipv4_octets ip"
    using list_4 [of "ipv4_octets ip"] by (simp add: nth_append numeral_eq_Suc)
  moreover have "[?d ! 5, ?d ! 6] = u16_be p"
    using list_2 [of "u16_be p"] by (simp add: nth_append numeral_eq_Suc)
  ultimately show ?thesis
    by (simp add: parse_uot_address_def Let_def)
qed

lemma parse_uot_full_ipv6:
  "parse_uot_address (uot_atyp_ipv6 # ipv6_octets ip @ u16_be p @ rest) =
     Ok (Some (net_location_new (Ipv6 ip) p, 19))"
proof -
  let ?d = "uot_atyp_ipv6 # ipv6_octets ip @ u16_be p @ rest"
  have "slice_of 1 17 ?d = ipv6_octets ip"
    by (simp add: slice_of_def)
  moreover have "[?d ! 17, ?d ! 18] = u16_be p"
    using list_2 [of "u16_be p"] by (simp add: nth_append)
  ultimately show ?thesis
    by (simp add: parse_uot_address_def Let_def uot_atyp_ipv6_def uot_atyp_ipv4_def)
qed

lemma parse_uot_full_domain:
  assumes "length h \<le> 255" and "utf8_ok (map unat (bytes_of h))"
  shows "parse_uot_address (uot_atyp_domain # of_nat (length h) # bytes_of h @ u16_be p @ rest) =
     Ok (Some (net_location_new (Hostname h) p, 4 + length h))"
proof -
  let ?d = "uot_atyp_domain # of_nat (length h) # bytes_of h @ u16_be p @ rest"
  have n: "unat (of_nat (length h) :: byte) = length h"
    using assms(1) by (simp add: unat_of_nat)
  have "slice_of 2 (2 + length h) ?d = bytes_of h"
    by (simp add: slice_of_def)
  moreover have "[?d ! (2 + length h), ?d ! (3 + length h)] = u16_be p"
    using list_2 [of "u16_be p"] by (simp add: nth_append numeral_3_eq_3)
  ultimately show ?thesis
    using assms(2) n
    by (simp add: parse_uot_address_def Let_def from_utf8_def uot_atyp_ipv6_def uot_atyp_ipv4_def uot_atyp_domain_def)
qed

lemma location_cases:
  obtains (ipv4) ip p where "l = \<lparr>nl_address = Ipv4 ip, nl_port = p\<rparr>"
    | (ipv6) ip p where "l = \<lparr>nl_address = Ipv6 ip, nl_port = p\<rparr>"
    | (host) h p where "l = \<lparr>nl_address = Hostname h, nl_port = p\<rparr>"
  by (cases l, cases "nl_address l") auto

interpretation uot: address_codec uot_addr_codec uot_bytes uot_ok
proof (unfold_locales, goal_cases)
  case (1 l rest)
  then show ?case
    using parse_uot_full_ipv4 parse_uot_full_ipv6 parse_uot_full_domain
    by (cases l rule: location_cases) (auto simp: uot_addr_codec_def uot_ok_def net_location_new_def)
next
  case (2 l k)
  show ?case
  proof (cases l rule: location_cases)
    case (ipv4 ip p)
    with 2 show ?thesis
      by (cases k) (auto simp: uot_addr_codec_def parse_uot_address_def)
  next
    case (ipv6 ip p)
    with 2 show ?thesis
      by (cases k) (auto simp: uot_addr_codec_def parse_uot_address_def uot_atyp_ipv6_def uot_atyp_ipv4_def)
  next
    case (host h p)
    then have "unat (of_nat (length h) :: byte) = length h"
      using 2(1) by (simp add: uot_ok_def unat_of_nat)
    with 2 host show ?thesis
      by (cases k; cases "k - 1")
        (auto simp: uot_addr_codec_def parse_uot_address_def uot_atyp_domain_def uot_atyp_ipv6_def uot_atyp_ipv4_def Let_def)
  qed
next
  case (3 sa buf)
  have "buf \<noteq> [] \<Longrightarrow> take (Suc 0) (buf[0 := a]) = [a]" for a
    by (cases buf) auto
  with 3 show ?case
    by (cases sa; cases "buf = []") (auto simp: uot_addr_codec_def location_of_socket_def net_location_new_def overwrite_def)
next
  case (4 sa)
  show ?case by (simp add: uot_ok_def location_of_socket_def net_location_new_def split: socket_addr.split)
next
  case (5 sa)
  show ?case by (simp add: location_of_socket_def net_location_new_def split: socket_addr.split)
next
  case (6 l)
  then show ?case by (cases l rule: location_cases) (auto simp: uot_ok_def)
qed

section \<open>Properties\<close>

text \<open>C36. What \<^verbatim>\<open>write_uot_address\<close> puts at the front of a buffer, \<^verbatim>\<open>parse_uot_address\<close> reads back
  as the same address and port, whatever the rest of the buffer holds, consuming exactly the
  bytes written; the rest of the buffer is left as it was.\<close>

theorem uot_address_roundtrip:
  assumes "19 \<le> length buf"
  shows "\<exists>buf' n. write_uot_address buf sa = Ok (buf', n)
     \<and> parse_uot_address buf' = Ok (Some (location_of_socket sa, n))
     \<and> length buf' = length buf \<and> drop n buf' = drop n buf"
proof -
  let ?w = "uot_bytes (location_of_socket sa)"
  have len: "length ?w \<le> length buf"
    using assms uot.socket_addr_len [of sa] by auto
  from uot.write_addr [OF len]
  have "write_uot_address buf sa = Ok (overwrite 0 ?w buf, length ?w)"
    by (simp add: uot_addr_codec_def)
  moreover have "parse_uot_address (overwrite 0 ?w buf) = Ok (Some (location_of_socket sa, length ?w))"
    using uot.parse_full [OF uot.socket_addr_ok] by (simp add: uot_addr_codec_def overwrite_def)
  ultimately show ?thesis
    using len by (simp add: overwrite_def)
qed

theorem uot_address_roundtrip_witness:
  "\<exists>buf' n. write_uot_address (replicate 30 7) (SockV4 0x7F000001 53) = Ok (buf', n)
     \<and> parse_uot_address buf' = Ok (Some (location_of_socket (SockV4 0x7F000001 53), n))
     \<and> length buf' = length (replicate 30 (7 :: byte)) \<and> drop n buf' = drop n (replicate 30 7)"
  by (rule uot_address_roundtrip) simp

end
