(* ===== verification/Message_Stream.thy ===== *)
theory Message_Stream
  imports Message_Codec
begin

text \<open>
  \<^verbatim>\<open>PacketAddrStream\<close> of \<^verbatim>\<open>src/message_stream.rs\<close>, which carries datagrams with an address each
  over a byte stream. The operations of the stream underneath are arguments. The loop that
  writes until nothing is left may spin when the stream keeps taking no byte, so it is a
  partial function; the reading loop is total, because every round fills the buffer further.
  The locales \<open>packet_source\<close> and \<open>packet_sink\<close> join the contract of the stream with that of
  the address codec.
\<close>

section \<open>PacketAddrStream\<close>

record 's packet_stream =
  ps_stream :: 's
  ps_codec :: Message_Codec.address_codec
  ps_read_buf :: slide_buffer
  ps_write_buf :: "byte list"
  ps_write_len :: nat
  ps_write_sent :: nat
  ps_eof :: bool

abbreviation packet_buffer_size :: nat where
  "packet_buffer_size \<equiv> 65535"

definition ps_new_with_codec :: "(nat \<Rightarrow> byte) \<Rightarrow> 's \<Rightarrow> Message_Codec.address_codec \<Rightarrow> 's packet_stream" where
  "ps_new_with_codec mem s codec =
     \<lparr>ps_stream = s, ps_codec = codec, ps_read_buf = sb_new mem packet_buffer_size,
      ps_write_buf = allocate_vec mem packet_buffer_size, ps_write_len = 0, ps_write_sent = 0,
      ps_eof = False\<rparr>"

definition new_uot :: "(nat \<Rightarrow> byte) \<Rightarrow> 's \<Rightarrow> 's packet_stream" where
  "new_uot mem s = ps_new_with_codec mem s uot_addr_codec"

definition try_parse_packet ::
  "Message_Codec.address_codec \<Rightarrow> slide_buffer \<Rightarrow> (net_location \<times> nat \<times> nat) option res" where
  "try_parse_packet codec b =
     bind_res (as_slice b) (\<lambda>data.
       bind_res (ac_parse codec data) (\<lambda>r.
         case r of
           None \<Rightarrow> Ok None
         | Some (location, addr_len) \<Rightarrow>
             if length data < addr_len + 2 then Ok None
             else
               let payload_len = unat (u16_of_be [data ! addr_len, data ! (addr_len + 1)]);
                   payload_start = addr_len + 2;
                   total_len = payload_start + payload_len
               in if length data < total_len then Ok None
                  else Ok (Some (location, payload_start, payload_len))))"

lemma try_parse_packet_inv: "try_parse_packet codec b = Ok r \<Longrightarrow> sb_inv b"
  by (auto simp: try_parse_packet_def as_slice_def sb_inv_def split: if_splits)

definition buffer_full :: io_error where
  "buffer_full = other_error ''packet-address read buffer full but no complete packet''"

text \<open>The loop of \<^verbatim>\<open>poll_read_targeted_message\<close>; \<open>n\<close> is the room in the caller's buffer, which
  \<^verbatim>\<open>put_slice\<close> insists on. A \<^verbatim>\<open>ReadBuf\<close> cannot be filled beyond its end.\<close>

function read_targeted_loop ::
  "'s reader \<Rightarrow> 's packet_stream \<Rightarrow> nat \<Rightarrow> (net_location \<times> byte list) res poll \<times> 's packet_stream" where
  "read_targeted_loop rd st n =
     (case try_parse_packet (ps_codec st) (ps_read_buf st) of
        Err e \<Rightarrow> (Ready (Err e), st)
      | Panic \<Rightarrow> (Ready Panic, st)
      | Ok (Some (location, payload_start, payload_len)) \<Rightarrow>
          if payload_len > n then (Ready Panic, st)
          else (Ready (Ok (location,
                  slice_of payload_start (payload_start + payload_len) (sb_bytes (ps_read_buf st)))),
                st\<lparr>ps_read_buf := sb_consume (payload_start + payload_len) (ps_read_buf st)\<rparr>)
      | Ok None \<Rightarrow>
          let b = maybe_compact 4096 (ps_read_buf st); st1 = st\<lparr>ps_read_buf := b\<rparr> in
          if remaining_capacity b = 0 then (Ready (Err buffer_full), st1)
          else
            (case rd (ps_stream st1) (remaining_capacity b) of
               (Ready (Ok bs), s') \<Rightarrow>
                 if bs = [] then
                   (Ready (Ok (net_location_unspecified, [])), st1\<lparr>ps_stream := s', ps_eof := True\<rparr>)
                 else if length bs > remaining_capacity b then (Ready Panic, st1\<lparr>ps_stream := s'\<rparr>)
                 else read_targeted_loop rd (st1\<lparr>ps_stream := s', ps_read_buf := advance_write bs b\<rparr>) n
             | (Ready (Err e), s') \<Rightarrow> (Ready (Err e), st1\<lparr>ps_stream := s'\<rparr>)
             | (Ready Panic, s') \<Rightarrow> (Ready Panic, st1\<lparr>ps_stream := s'\<rparr>)
             | (Pending, s') \<Rightarrow> (Pending, st1\<lparr>ps_stream := s'\<rparr>)))"
  by pat_completeness auto
termination
proof (relation "measure (\<lambda>(rd, st, n). length (sb_data (ps_read_buf st)) - sb_len (ps_read_buf st))",
    goal_cases)
  case 1
  show ?case by simp
next
  case (2 rd st n opt b st1 p s' r bs)
  then have inv: "sb_inv (ps_read_buf st)"
    using try_parse_packet_inv by blast
  note b = maybe_compact_spec [OF inv, of 4096] and a = advance_write_spec [of b bs]
  have "sb_inv b" "length bs \<le> remaining_capacity b" "bs \<noteq> []"
    using 2 b(1) by auto
  moreover have "sb_len b = sb_len (ps_read_buf st)"
    using b inv 2 by (metis length_sb_bytes)
  ultimately have "sb_len (advance_write bs b) = sb_len (ps_read_buf st) + length bs"
    using a by (metis length_append length_sb_bytes)
  moreover have "sb_len (advance_write bs b) \<le> length (sb_data (advance_write bs b))"
    using a(1) [OF \<open>sb_inv b\<close> \<open>length bs \<le> remaining_capacity b\<close>] by (auto simp: sb_inv_def sb_len_def)
  moreover have "length (sb_data (advance_write bs b)) = length (sb_data (ps_read_buf st))"
    using a(3) [OF \<open>sb_inv b\<close> \<open>length bs \<le> remaining_capacity b\<close>] b(3) 2 by simp
  ultimately show ?case
    using \<open>bs \<noteq> []\<close> by (simp add: room_shrinks)
qed

declare read_targeted_loop.simps [simp del]

definition poll_read_targeted_message ::
  "'s reader \<Rightarrow> 's packet_stream \<Rightarrow> nat \<Rightarrow> (net_location \<times> byte list) res poll \<times> 's packet_stream" where
  "poll_read_targeted_message rd st n =
     (if ps_eof st then (Ready (Ok (net_location_unspecified, [])), st)
      else read_targeted_loop rd st n)"

text \<open>The loop that sends what is left of the write buffer.\<close>

partial_function (option) ps_drain ::
  "'s writer \<Rightarrow> 's packet_stream \<Rightarrow> (unit res poll \<times> 's packet_stream) option" where
  "ps_drain wr st =
     (if ps_write_sent st < ps_write_len st then
        (case wr (ps_stream st) (slice_of (ps_write_sent st) (ps_write_len st) (ps_write_buf st)) of
           (Ready (Ok n), s') \<Rightarrow>
             ps_drain wr (st\<lparr>ps_stream := s', ps_write_sent := ps_write_sent st + n\<rparr>)
         | (Ready (Err e), s') \<Rightarrow> Some (Ready (Err e), st\<lparr>ps_stream := s'\<rparr>)
         | (Ready Panic, s') \<Rightarrow> Some (Ready Panic, st\<lparr>ps_stream := s'\<rparr>)
         | (Pending, s') \<Rightarrow> Some (Pending, st\<lparr>ps_stream := s'\<rparr>))
      else Some (Ready (Ok ()), st))"

definition frame_too_large :: io_error where
  "frame_too_large = other_error ''packet-address frame too large''"

definition poll_write_sourced_message ::
  "'s writer \<Rightarrow> 's packet_stream \<Rightarrow> byte list \<Rightarrow> socket_addr \<Rightarrow>
   (unit res poll \<times> 's packet_stream) option" where
  "poll_write_sourced_message wr st buf source =
     Option.bind (ps_drain wr st) (\<lambda>(p, st').
       case p of
         Ready (Ok _) \<Rightarrow>
           let st1 = st'\<lparr>ps_write_len := 0, ps_write_sent := 0\<rparr>;
               addr_len = (case source of SockV4 _ _ \<Rightarrow> 7 | SockV6 _ _ _ \<Rightarrow> 19);
               total_len = addr_len + 2 + length buf
           in if total_len > length (ps_write_buf st1) then Some (Ready (Err frame_too_large), st1)
              else
                (case ac_write (ps_codec st1) (ps_write_buf st1) source of
                   Ok (wbuf, offset) \<Rightarrow>
                     let len_bytes = u16_be (of_nat (length buf)); data_start = offset + 2 in
                     Some (Ready (Ok ()),
                       st1\<lparr>ps_write_buf := overwrite data_start buf (overwrite offset len_bytes wbuf),
                           ps_write_len := data_start + length buf\<rparr>)
                 | Err e \<Rightarrow> Some (Ready (Err e), st1)
                 | Panic \<Rightarrow> Some (Ready Panic, st1))
       | _ \<Rightarrow> Some (p, st'))"

definition ps_poll_flush_message ::
  "'s writer \<Rightarrow> 's flusher \<Rightarrow> 's packet_stream \<Rightarrow> (unit res poll \<times> 's packet_stream) option" where
  "ps_poll_flush_message wr fl st =
     Option.bind (ps_drain wr st) (\<lambda>(p, st').
       case p of
         Ready (Ok _) \<Rightarrow>
           let st1 = st'\<lparr>ps_write_len := 0, ps_write_sent := 0\<rparr>; (q, s') = fl (ps_stream st1)
           in Some (q, st1\<lparr>ps_stream := s'\<rparr>)
       | _ \<Rightarrow> Some (p, st'))"

definition ps_poll_shutdown_message ::
  "'s writer \<Rightarrow> 's flusher \<Rightarrow> 's flusher \<Rightarrow> 's packet_stream \<Rightarrow>
   (unit res poll \<times> 's packet_stream) option" where
  "ps_poll_shutdown_message wr fl sd st =
     Option.bind (ps_poll_flush_message wr fl st) (\<lambda>(p, st').
       case p of
         Ready (Ok _) \<Rightarrow> let (q, s') = sd (ps_stream st') in Some (q, st'\<lparr>ps_stream := s'\<rparr>)
       | _ \<Rightarrow> Some (p, st'))"

text \<open>The stream as a targeted message stream; it has no ping of its own.\<close>

definition packet_stream_ops :: "'s async_stream \<Rightarrow> ('s packet_stream, net_location, socket_addr) targeted_stream" where
  "packet_stream_ops ops =
     \<lparr>op_supports_ping = (\<lambda>_. False), op_write_ping = (\<lambda>st. (Ready (Ok False), st)),
      op_read_targeted = poll_read_targeted_message (op_read ops),
      op_write_sourced = poll_write_sourced_message (op_write ops),
      op_flush_targeted = ps_poll_flush_message (op_write ops) (op_flush ops),
      op_shutdown_targeted = ps_poll_shutdown_message (op_write ops) (op_flush ops) (op_shutdown ops)\<rparr>"

section \<open>Packets on the wire\<close>

definition packet_bytes :: "(net_location \<Rightarrow> byte list) \<Rightarrow> net_location \<Rightarrow> byte list \<Rightarrow> byte list" where
  "packet_bytes addr_bytes l payload =
     addr_bytes l @ u16_be (of_nat (length payload)) @ payload"

lemma length_packet_bytes [simp]:
  "length (packet_bytes addr_bytes l payload) = length (addr_bytes l) + 2 + length payload"
  by (simp add: packet_bytes_def)

lemma unat_u16_length: "length xs \<le> 65535 \<Longrightarrow> unat (of_nat (length xs) :: u16) = length xs"
  by (simp add: unat_of_nat)

lemma u16_after:
  "u16_of_be [(a @ u16_be w @ xs) ! length a, (a @ u16_be w @ xs) ! (length a + 1)] = w"
  using list_2 [of "u16_be w"] by (simp add: nth_append)

text \<open>The invariants of the two halves of a packet stream with a given codec.\<close>

definition ps_read_inv :: "Message_Codec.address_codec \<Rightarrow> 's packet_stream \<Rightarrow> bool" where
  "ps_read_inv codec st \<longleftrightarrow> sb_inv (ps_read_buf st)
     \<and> length (sb_data (ps_read_buf st)) = packet_buffer_size \<and> ps_codec st = codec"

definition ps_write_inv :: "Message_Codec.address_codec \<Rightarrow> 's packet_stream \<Rightarrow> bool" where
  "ps_write_inv codec st \<longleftrightarrow> ps_write_sent st \<le> ps_write_len st \<and> ps_write_len st \<le> length (ps_write_buf st)
     \<and> length (ps_write_buf st) = packet_buffer_size \<and> ps_codec st = codec"

lemma ps_new_invs:
  "ps_read_inv codec (ps_new_with_codec mem s codec)" "ps_write_inv codec (ps_new_with_codec mem s codec)"
  "sb_bytes (ps_read_buf (ps_new_with_codec mem s codec)) = []"
  "ps_stream (ps_new_with_codec mem s codec) = s" "\<not> ps_eof (ps_new_with_codec mem s codec)"
  by (simp_all add: ps_new_with_codec_def ps_read_inv_def ps_write_inv_def)

context address_codec
begin

lemma try_parse_full:
  assumes "sb_inv b" and "addr_ok l" and "length payload \<le> 65535"
    and "sb_bytes b = packet_bytes addr_bytes l payload @ rest"
  shows "try_parse_packet codec b = Ok (Some (l, length (addr_bytes l) + 2, length payload))"
proof -
  let ?a = "addr_bytes l" and ?w = "u16_be (of_nat (length payload))"
  let ?d = "?a @ ?w @ payload @ rest"
  have "unat (u16_of_be [?d ! length ?a, ?d ! (length ?a + 1)]) = length payload"
    unfolding u16_after using assms(3) by (rule unat_u16_length)
  then show ?thesis
    using assms parse_full [OF assms(2), of "?w @ payload @ rest"]
    by (simp add: try_parse_packet_def as_slice_eq packet_bytes_def Let_def)
qed

lemma try_parse_short:
  assumes "sb_inv b" and "addr_ok l" and "length payload \<le> 65535"
    and "sb_bytes b = take k (packet_bytes addr_bytes l payload)"
    and "k < length (packet_bytes addr_bytes l payload)"
  shows "try_parse_packet codec b = Ok None"
proof -
  let ?a = "addr_bytes l" and ?w = "u16_be (of_nat (length payload))"
  consider (addr) "k < length ?a" | (len) "length ?a \<le> k" "k < length ?a + 2" | (data) "length ?a + 2 \<le> k"
    by linarith
  then show ?thesis
  proof cases
    case addr
    then have "sb_bytes b = take k ?a"
      using assms(4) by (simp add: packet_bytes_def)
    with parse_short [OF assms(2) addr] assms(1) show ?thesis
      by (simp add: try_parse_packet_def as_slice_eq)
  next
    case len
    then have d: "sb_bytes b = ?a @ take (k - length ?a) ?w"
      using assms(4) by (simp add: packet_bytes_def)
    with len parse_full [OF assms(2), of "take (k - length ?a) ?w"] assms(1) show ?thesis
      by (simp add: try_parse_packet_def as_slice_eq d)
  next
    case data
    then have d: "sb_bytes b = ?a @ ?w @ take (k - length ?a - 2) payload"
      using assms(4) by (simp add: packet_bytes_def)
    let ?d = "?a @ ?w @ take (k - length ?a - 2) payload"
    have "unat (u16_of_be [?d ! length ?a, ?d ! (length ?a + 1)]) = length payload"
      unfolding u16_after using assms(3) by (rule unat_u16_length)
    moreover have "k - 2 < length ?a + length payload" using data assms(5) by simp
    ultimately show ?thesis
      using data parse_full [OF assms(2), of "?w @ take (k - length ?a - 2) payload"] assms(1)
      by (simp add: try_parse_packet_def as_slice_eq d Let_def)
  qed
qed

end

section \<open>Reading packets\<close>

locale packet_source = byte_source poll_read content src_inv delay src_err
    + address_codec codec addr_bytes addr_ok
  for poll_read :: "'s reader" and content src_inv delay src_err codec addr_bytes addr_ok
begin

text \<open>The bytes still to be parsed: buffered ones, then what the stream will deliver.\<close>

definition unread :: "'s packet_stream \<Rightarrow> byte list" where
  "unread st = sb_bytes (ps_read_buf st) @ content (ps_stream st)"

definition rd_inv :: "'s packet_stream \<Rightarrow> bool" where
  "rd_inv st \<longleftrightarrow> ps_read_inv codec st \<and> src_inv (ps_stream st)"

definition read_packet_post ::
  "'s packet_stream \<Rightarrow> net_location \<Rightarrow> byte list \<Rightarrow> byte list \<Rightarrow>
   (net_location \<times> byte list) res poll \<Rightarrow> 's packet_stream \<Rightarrow> bool" where
  "read_packet_post st l payload rest p st' \<longleftrightarrow>
     (case p of
        Ready (Ok (l', bs)) \<Rightarrow> l' = l \<and> bs = payload \<and> rd_inv st' \<and> unread st' = rest \<and> ps_eof st' = ps_eof st
      | Ready (Err e) \<Rightarrow> src_err e
      | Ready Panic \<Rightarrow> False
      | Pending \<Rightarrow> rd_inv st' \<and> unread st' = unread st \<and> ps_eof st' = ps_eof st
          \<and> src_progress (ps_stream st) (ps_stream st'))"

text \<open>With the packet in the buffer it is delivered.\<close>

lemma read_packet_buffered:
  assumes "rd_inv st" and "addr_ok l" and "length payload \<le> n" and "length payload \<le> 65535"
    and "sb_bytes (ps_read_buf st) = packet_bytes addr_bytes l payload @ later"
    and "rest = later @ content (ps_stream st)"
  shows "case read_targeted_loop poll_read st n of (p, st') \<Rightarrow> read_packet_post st l payload rest p st'"
proof -
  let ?b = "ps_read_buf st" and ?k = "length (addr_bytes l) + 2"
  have inv: "sb_inv ?b" "ps_codec st = codec" using assms(1) by (auto simp: rd_inv_def ps_read_inv_def)
  have len: "?k + length payload \<le> sb_len ?b"
    using assms(5) length_sb_bytes [OF inv(1)] by simp
  have parse: "try_parse_packet (ps_codec st) ?b = Ok (Some (l, ?k, length payload))"
    unfolding inv(2) by (rule try_parse_full [OF inv(1) assms(2,4,5)])
  have pl: "slice_of ?k (?k + length payload) (sb_bytes ?b) = payload"
    using assms(5) by (simp add: packet_bytes_def slice_of_def)
  have "drop (?k + length payload) (sb_bytes ?b) = later"
    using assms(5) by (simp add: packet_bytes_def)
  moreover have "read_targeted_loop poll_read st n
      = (Ready (Ok (l, payload)), st\<lparr>ps_read_buf := sb_consume (?k + length payload) ?b\<rparr>)"
    using assms(3) pl by (subst read_targeted_loop.simps) (simp add: parse)
  ultimately show ?thesis
    using assms(1,6) sb_consume_spec [OF inv(1) len]
    by (simp add: read_packet_post_def rd_inv_def ps_read_inv_def unread_def)
qed

lemma read_packet_post_trans:
  "read_packet_post st2 l payload rest p st' \<Longrightarrow> unread st2 = unread st \<Longrightarrow> ps_eof st2 = ps_eof st \<Longrightarrow>
   length (content (ps_stream st2)) < length (content (ps_stream st)) \<Longrightarrow>
   read_packet_post st l payload rest p st'"
  by (auto simp: read_packet_post_def src_progress_def split: poll.splits res.splits)

text \<open>With a part of the packet in the buffer, there is room to read more of it.\<close>

lemma room_after_compact:
  assumes "sb_inv b" and "sb_len b < length (sb_data b) - 4096"
  shows "0 < remaining_capacity (maybe_compact 4096 b)"
proof -
  let ?b = "maybe_compact 4096 b"
  have "sb_len ?b = sb_len b"
    using maybe_compact_spec [OF assms(1)] assms(1) by (metis length_sb_bytes)
  then show ?thesis
    using maybe_compact_spec [OF assms(1), of 4096] assms
    by (auto simp: remaining_capacity_def sb_inv_def sb_len_def)
qed

lemma read_targeted_short:
  assumes "rd_inv st" and "addr_ok l" and "length payload \<le> 65535"
    and "length (packet_bytes addr_bytes l payload) \<le> packet_buffer_size - 4096"
    and "sb_bytes (ps_read_buf st) = take k (packet_bytes addr_bytes l payload)"
    and "k < length (packet_bytes addr_bytes l payload)"
    and "b = maybe_compact 4096 (ps_read_buf st)" and "st1 = st\<lparr>ps_read_buf := b\<rparr>"
    and "poll_read (ps_stream st) (remaining_capacity b) = (p, s')"
  shows "0 < remaining_capacity b" and
    "p = Pending \<Longrightarrow> read_targeted_loop poll_read st n = (Pending, st1\<lparr>ps_stream := s'\<rparr>)" and
    "p = Ready (Err e) \<Longrightarrow> read_targeted_loop poll_read st n = (Ready (Err e), st1\<lparr>ps_stream := s'\<rparr>)" and
    "p = Ready (Ok bs) \<Longrightarrow> bs \<noteq> [] \<Longrightarrow> length bs \<le> remaining_capacity b \<Longrightarrow>
       read_targeted_loop poll_read st n
       = read_targeted_loop poll_read (st1\<lparr>ps_stream := s', ps_read_buf := advance_write bs b\<rparr>) n"
proof -
  have inv: "sb_inv (ps_read_buf st)" "ps_codec st = codec" "length (sb_data (ps_read_buf st)) = packet_buffer_size"
    using assms(1) by (auto simp: rd_inv_def ps_read_inv_def)
  have parse: "try_parse_packet (ps_codec st) (ps_read_buf st) = Ok None"
    unfolding inv(2) by (rule try_parse_short [OF inv(1) assms(2,3,5,6)])
  have "sb_len (ps_read_buf st) < packet_buffer_size - 4096"
    using assms(4,5,6) length_sb_bytes [OF inv(1)] by simp
  with inv room_after_compact show room: "0 < remaining_capacity b"
    unfolding assms(7) by metis
  note step = read_targeted_loop.simps [of poll_read st n] parse assms(9) assms(7) [symmetric]
  show "p = Pending \<Longrightarrow> read_targeted_loop poll_read st n = (Pending, st1\<lparr>ps_stream := s'\<rparr>)"
    using room by (simp add: step Let_def assms(8))
  show "p = Ready (Err e) \<Longrightarrow> read_targeted_loop poll_read st n = (Ready (Err e), st1\<lparr>ps_stream := s'\<rparr>)"
    using room by (simp add: step Let_def assms(8))
  show "p = Ready (Ok bs) \<Longrightarrow> bs \<noteq> [] \<Longrightarrow> length bs \<le> remaining_capacity b \<Longrightarrow>
      read_targeted_loop poll_read st n
      = read_targeted_loop poll_read (st1\<lparr>ps_stream := s', ps_read_buf := advance_write bs b\<rparr>) n"
    using room by (subst read_targeted_loop.simps) (simp add: parse assms(9) assms(7) [symmetric] Let_def assms(8))
qed

lemma read_packet:
  assumes "rd_inv st" and "addr_ok l" and "length payload \<le> n"
    and "length (packet_bytes addr_bytes l payload) \<le> packet_buffer_size - 4096"
    and "unread st = packet_bytes addr_bytes l payload @ rest"
  shows "case read_targeted_loop poll_read st n of (p, st') \<Rightarrow> read_packet_post st l payload rest p st'"
  using assms
proof (induction "packet_buffer_size - length (sb_bytes (ps_read_buf st))" arbitrary: st rule: less_induct)
  case less
  let ?pk = "packet_bytes addr_bytes l payload" and ?buf = "sb_bytes (ps_read_buf st)"
  have small: "length payload \<le> 65535" using less.prems(4) by simp
  have inv: "sb_inv (ps_read_buf st)" "src_inv (ps_stream st)" using less.prems(1) by (auto simp: rd_inv_def ps_read_inv_def)
  have all: "?buf @ content (ps_stream st) = ?pk @ rest" using less.prems(5) by (simp add: unread_def)
  show ?case
  proof (cases "length ?pk \<le> length ?buf")
    case True
    then have "?buf = ?pk @ drop (length ?pk) ?buf" "rest = drop (length ?pk) ?buf @ content (ps_stream st)"
      using all by (metis append_eq_append_conv_if append_take_drop_id)+
    then show ?thesis
      by (intro read_packet_buffered [OF less.prems(1,2,3) small])
  next
    case False
    define k where "k = length ?buf"
    have buf: "?buf = take k ?pk" "k < length ?pk"
      using all False by (auto simp: k_def append_eq_append_conv_if)
    define b where "b = maybe_compact 4096 (ps_read_buf st)"
    define st1 where "st1 = st\<lparr>ps_read_buf := b\<rparr>"
    obtain p s' where rd: "poll_read (ps_stream st) (remaining_capacity b) = (p, s')"
      by (cases "poll_read (ps_stream st) (remaining_capacity b)")
    note short = read_targeted_short [OF less.prems(1,2) small less.prems(4) buf b_def st1_def rd]
    have b: "sb_inv b" "sb_bytes b = ?buf" "length (sb_data b) = packet_buffer_size"
      using maybe_compact_spec [OF inv(1), of 4096] less.prems(1) by (auto simp: b_def rd_inv_def ps_read_inv_def)
    show ?thesis
    proof (cases p)
      case Pending
      with short(2) read_pending [OF inv(2)] rd b less.prems(1) show ?thesis
        by (auto simp: read_packet_post_def rd_inv_def ps_read_inv_def unread_def st1_def src_progress_def)
    next
      case (Ready r)
      show ?thesis
      proof (cases r)
        case (Ok bs)
        then have r: "src_inv s'" "length bs \<le> remaining_capacity b" "content (ps_stream st) = bs @ content s'"
          "bs = [] \<longrightarrow> content (ps_stream st) = []"
          using read_ok [OF inv(2), of "remaining_capacity b" bs s'] rd Ready short(1) by auto
        have ne: "bs \<noteq> []"
          using r(4) all False by (auto simp: append_eq_append_conv_if)
        let ?st = "st1\<lparr>ps_stream := s', ps_read_buf := advance_write bs b\<rparr>"
        note a = advance_write_spec [OF b(1) r(2)]
        have un: "unread ?st = unread st" and ri: "rd_inv ?st"
          using a b r less.prems(1) by (simp_all add: unread_def rd_inv_def ps_read_inv_def st1_def)
        have "packet_buffer_size - length (sb_bytes (ps_read_buf ?st)) < packet_buffer_size - length ?buf"
          using a b ne length_sb_bytes [OF a(1)] False less.prems(4) by (cases bs) auto
        from less.hyps [OF this ri less.prems(2,3,4)] un less.prems(5)
        have IH: "case read_targeted_loop poll_read ?st n of (p, st') \<Rightarrow> read_packet_post ?st l payload rest p st'"
          by simp
        have less: "length (content s') < length (content (ps_stream st))"
          using r(3) ne by (cases bs) auto
        obtain p' st'' where res: "read_targeted_loop poll_read ?st n = (p', st'')"
          by (cases "read_targeted_loop poll_read ?st n")
        then have "read_packet_post ?st l payload rest p' st''" using IH by simp
        then have "read_packet_post st l payload rest p' st''"
          by (rule read_packet_post_trans) (use un less in \<open>simp_all add: st1_def\<close>)
        then show ?thesis
          using short(4) [OF _ ne r(2)] Ready Ok res by simp
      next
        case (Err e)
        with short(3) read_err [OF inv(2)] rd Ready show ?thesis
          by (auto simp: read_packet_post_def)
      next
        case Panic
        with read_no_panic [OF inv(2)] rd Ready show ?thesis by auto
      qed
    qed
  qed
qed

end

section \<open>Writing packets\<close>

locale packet_sink = byte_sink poll_write written snk_inv snk_delay snk_err
    + address_codec codec addr_bytes addr_ok
  for poll_write :: "'s writer" and written snk_inv snk_delay snk_err codec addr_bytes addr_ok
begin

text \<open>The bytes on their way: written to the stream, then waiting in the write buffer.\<close>

definition wire :: "'s packet_stream \<Rightarrow> byte list" where
  "wire st = written (ps_stream st) @ slice_of (ps_write_sent st) (ps_write_len st) (ps_write_buf st)"

definition wr_inv :: "'s packet_stream \<Rightarrow> bool" where
  "wr_inv st \<longleftrightarrow> ps_write_inv codec st \<and> snk_inv (ps_stream st)"

text \<open>How far the write buffer is from being drained: a pending poll has written something or is closer to the next write.\<close>

definition drain_left :: "'s packet_stream \<Rightarrow> nat \<times> nat" where
  "drain_left st = (ps_write_len st - ps_write_sent st, snk_delay (ps_stream st))"

definition drain_moves :: "'s packet_stream \<Rightarrow> 's packet_stream \<Rightarrow> bool" where
  "drain_moves st st' \<longleftrightarrow> (drain_left st', drain_left st) \<in> less_than <*lex*> less_than"

definition write_keeps :: "'s packet_stream \<Rightarrow> 's packet_stream \<Rightarrow> bool" where
  "write_keeps st st' \<longleftrightarrow> wr_inv st' \<and> ps_read_buf st' = ps_read_buf st \<and> ps_eof st' = ps_eof st"

definition ps_drain_post :: "'s packet_stream \<Rightarrow> unit res poll \<Rightarrow> 's packet_stream \<Rightarrow> bool" where
  "ps_drain_post st p st' \<longleftrightarrow> wire st' = wire st \<and> write_keeps st st' \<and>
     (case p of
        Ready (Ok _) \<Rightarrow> ps_write_sent st' = ps_write_len st' \<and> written (ps_stream st') = wire st
      | Ready (Err e) \<Rightarrow> snk_err e
      | Ready Panic \<Rightarrow> False
      | Pending \<Rightarrow> drain_moves st st')"

lemma drain_moves_trans: "drain_moves st st1 \<Longrightarrow> drain_moves st1 st2 \<Longrightarrow> drain_moves st st2"
  unfolding drain_moves_def by (rule transD [OF trans_lex_prod [OF trans_less_than trans_less_than]])

lemma ps_drain_post_trans:
  "ps_drain_post st1 p st' \<Longrightarrow> wire st1 = wire st \<Longrightarrow> write_keeps st st1 \<Longrightarrow> drain_moves st st1 \<Longrightarrow> ps_drain_post st p st'"
  unfolding ps_drain_post_def write_keeps_def by (auto dest: drain_moves_trans split: poll.splits res.splits)

lemma ps_drain_total:
  assumes "wr_inv st"
  shows "\<exists>p st'. ps_drain poll_write st = Some (p, st') \<and> ps_drain_post st p st'"
  using assms
proof (induction "ps_write_len st - ps_write_sent st" arbitrary: st rule: less_induct)
  case less
  let ?bs = "slice_of (ps_write_sent st) (ps_write_len st) (ps_write_buf st)"
  note step = ps_drain.simps [of poll_write st] and defs = ps_drain_post_def write_keeps_def wire_def wr_inv_def ps_write_inv_def
  show ?case
  proof (cases "ps_write_sent st < ps_write_len st")
    case False
    with less.prems show ?thesis by (auto simp: step defs)
  next
    case True
    with less.prems have snk: "snk_inv (ps_stream st)" and len: "length ?bs = ps_write_len st - ps_write_sent st"
      by (auto simp: wr_inv_def ps_write_inv_def)
    then have ne: "?bs \<noteq> []" using True by auto
    obtain p s' where wr: "poll_write (ps_stream st) ?bs = (p, s')"
      by (cases "poll_write (ps_stream st) ?bs")
    show ?thesis
    proof (cases p rule: poll_res_exhaust)
      case pending
      with True wr have "ps_drain poll_write st = Some (Pending, st\<lparr>ps_stream := s'\<rparr>)" by (simp add: step)
      with less.prems write_pending [OF snk ne, of s'] wr pending show ?thesis
        by (simp add: defs drain_moves_def drain_left_def)
    next
      case (ok n)
      let ?st = "st\<lparr>ps_stream := s', ps_write_sent := ps_write_sent st + n\<rparr>"
      have n: "snk_inv s'" "0 < n" "n \<le> length ?bs" "written s' = written (ps_stream st) @ take n ?bs"
        using write_ok [OF snk ne] wr ok by auto
      have inv: "wr_inv ?st" using less.prems n len by (auto simp: wr_inv_def ps_write_inv_def)
      have "take n ?bs @ drop n ?bs = ?bs" by (rule append_take_drop_id)
      then have w: "wire ?st = wire st" using n by (simp add: wire_def drop_slice)
      have dec: "ps_write_len ?st - ps_write_sent ?st < ps_write_len st - ps_write_sent st"
        using n(2) True by simp
      then have "write_keeps st ?st" "drain_moves st ?st"
        using inv by (simp_all add: write_keeps_def drain_moves_def drain_left_def)
      moreover have "ps_drain poll_write st = ps_drain poll_write ?st" using True wr ok by (simp add: step)
      ultimately show ?thesis using less.hyps [OF dec inv] ps_drain_post_trans [OF _ w] by metis
    next
      case (err e)
      with True wr have "ps_drain poll_write st = Some (Ready (Err e), st\<lparr>ps_stream := s'\<rparr>)" by (simp add: step)
      with less.prems write_err [OF snk ne, of e s'] wr err show ?thesis by (simp add: defs)
    next
      case panic
      with write_no_panic [OF snk ne] wr show ?thesis by auto
    qed
  qed
qed

lemma write_packet:
  assumes "wr_inv st"
  shows "\<exists>p st'. poll_write_sourced_message poll_write st buf source = Some (p, st') \<and> write_keeps st st' \<and>
     (case p of
        Ready (Ok _) \<Rightarrow> wire st' = wire st @ packet_bytes addr_bytes (location_of_socket source) buf
      | Ready (Err e) \<Rightarrow> wire st' = wire st \<and> (snk_err e
          \<or> e = frame_too_large \<and> packet_buffer_size < length (packet_bytes addr_bytes (location_of_socket source) buf))
      | Ready Panic \<Rightarrow> False
      | Pending \<Rightarrow> wire st' = wire st \<and> drain_moves st st')"
proof -
  obtain p st' where dr: "ps_drain poll_write st = Some (p, st')" and post: "ps_drain_post st p st'"
    using ps_drain_total [OF assms] by blast
  note step = poll_write_sourced_message_def [of poll_write st] dr
  show ?thesis
  proof (cases "p = Ready (Ok ())")
    case False
    then have "poll_write_sourced_message poll_write st buf source = Some (p, st')"
      by (simp add: step split: poll.split res.split)
    then show ?thesis using post False by (auto simp: ps_drain_post_def split: poll.splits res.splits)
  next
    case True
    let ?a = "addr_bytes (location_of_socket source)" and ?w = "u16_be (of_nat (length buf))"
    let ?st = "st'\<lparr>ps_write_len := 0, ps_write_sent := 0\<rparr>"
    have st': "write_keeps st st'" "written (ps_stream st') = wire st" "length (ps_write_buf st') = packet_buffer_size"
      "ps_codec st' = codec" "wr_inv st'"
      using post True by (auto simp: ps_drain_post_def write_keeps_def wr_inv_def ps_write_inv_def)
    have al: "(case source of SockV4 _ _ \<Rightarrow> 7 | SockV6 _ _ _ \<Rightarrow> 19) = length ?a"
      using socket_addr_len [of source] by (cases source) simp_all
    have w0: "wire ?st = wire st" "write_keeps st ?st"
      using st' by (simp_all add: wire_def write_keeps_def wr_inv_def ps_write_inv_def)
    show ?thesis
    proof (cases "length ?a + 2 + length buf > packet_buffer_size")
      case big: True
      then have "poll_write_sourced_message poll_write st buf source = Some (Ready (Err frame_too_large), ?st)"
        by (simp add: step True al st' Let_def)
      then show ?thesis using w0 big by simp
    next
      case fits: False
      let ?f = "overwrite (length ?a + 2) buf (overwrite (length ?a) ?w (overwrite 0 ?a (ps_write_buf st')))"
      let ?st2 = "?st\<lparr>ps_write_buf := ?f, ps_write_len := length ?a + 2 + length buf\<rparr>"
      have "ac_write codec (ps_write_buf st') source = Ok (overwrite 0 ?a (ps_write_buf st'), length ?a)"
        using write_addr fits st'(3) by simp
      then have run: "poll_write_sourced_message poll_write st buf source = Some (Ready (Ok ()), ?st2)"
        using fits by (simp add: step True al st' Let_def)
      have "take (length ?a + 2 + length buf) ?f = packet_bytes addr_bytes (location_of_socket source) buf"
        using fits st'(3) by (simp add: overwrite_def packet_bytes_def)
      moreover have "length ?f = packet_buffer_size"
        using fits st'(3) by simp
      ultimately have "wire ?st2 = wire st @ packet_bytes addr_bytes (location_of_socket source) buf" "write_keeps st ?st2"
        using fits st' by (simp_all add: wire_def write_keeps_def wr_inv_def ps_write_inv_def)
      with run show ?thesis by simp
    qed
  qed
qed

end

section \<open>Properties\<close>

interpretation uot_src: packet_source script_read script_content script_inv length "\<lambda>_. True"
    uot_addr_codec uot_bytes uot_ok
  by unfold_locales

interpretation uot_snk: packet_sink script_write snd "\<lambda>_. True" "\<lambda>w. length (fst w)" "\<lambda>_. True"
    uot_addr_codec uot_bytes uot_ok
  by unfold_locales



text \<open>Writing a datagram either queues exactly its packet behind everything written before
  (whatever the stream has already taken of that), or leaves the bytes under way as they were
  and is pending, fails with an error of the stream, or refuses a packet that is larger than
  the buffer. Over a stream that takes at least one byte per ready write it always returns.\<close>

theorem packet_write_appends:
  assumes "byte_sink wr written snk_inv snk_delay snk_err"
    and "ps_write_inv uot_addr_codec st" and "snk_inv (ps_stream st)"
  shows "\<exists>p st'. poll_write_sourced_message wr st buf source = Some (p, st') \<and>
     (let way = (\<lambda>st. written (ps_stream st) @ slice_of (ps_write_sent st) (ps_write_len st) (ps_write_buf st));
          pk = packet_bytes uot_bytes (location_of_socket source) buf
      in case p of
        Ready (Ok _) \<Rightarrow> ps_write_inv uot_addr_codec st' \<and> snk_inv (ps_stream st') \<and> way st' = way st @ pk
      | Ready (Err e) \<Rightarrow> way st' = way st \<and> (snk_err e \<or> e = frame_too_large \<and> 65535 < length pk)
      | Ready Panic \<Rightarrow> False
      | Pending \<Rightarrow> ps_write_inv uot_addr_codec st' \<and> snk_inv (ps_stream st') \<and> way st' = way st)"
proof -
  have ps: "packet_sink wr written snk_inv snk_delay snk_err uot_addr_codec uot_bytes uot_ok"
    using assms(1) uot.address_codec_axioms by (rule packet_sink.intro)
  note defs = packet_sink.write_keeps_def [OF ps] packet_sink.wr_inv_def [OF ps] packet_sink.wire_def [OF ps]
  have "packet_sink.wr_inv snk_inv uot_addr_codec st" using assms(2,3) by (simp add: defs)
  then obtain p st' where "poll_write_sourced_message wr st buf source = Some (p, st')"
    and "packet_sink.write_keeps snk_inv uot_addr_codec st st'"
    and "case p of
        Ready (Ok _) \<Rightarrow> packet_sink.wire written st' = packet_sink.wire written st @ packet_bytes uot_bytes (location_of_socket source) buf
      | Ready (Err e) \<Rightarrow> packet_sink.wire written st' = packet_sink.wire written st \<and> (snk_err e
          \<or> e = frame_too_large \<and> packet_buffer_size < length (packet_bytes uot_bytes (location_of_socket source) buf))
      | Ready Panic \<Rightarrow> False
      | Pending \<Rightarrow> packet_sink.wire written st' = packet_sink.wire written st \<and> packet_sink.drain_moves snk_delay st st'"
    using packet_sink.write_packet [OF ps] by blast
  then show ?thesis unfolding Let_def by (cases p rule: poll_res_exhaust) (simp_all add: defs)
qed

theorem packet_write_appends_witness:
  "let st = new_uot (\<lambda>_. 0) ([Accept 2, AcceptWait], []); buf = [7, 8]; source = SockV4 0x01020304 53 in
   \<exists>p st'. poll_write_sourced_message script_write st buf source = Some (p, st') \<and>
     (let way = (\<lambda>st. snd (ps_stream st) @ slice_of (ps_write_sent st) (ps_write_len st) (ps_write_buf st));
          pk = packet_bytes uot_bytes (location_of_socket source) buf
      in case p of
        Ready (Ok _) \<Rightarrow> ps_write_inv uot_addr_codec st' \<and> True \<and> way st' = way st @ pk
      | Ready (Err e) \<Rightarrow> way st' = way st \<and> (True \<or> e = frame_too_large \<and> 65535 < length pk)
      | Ready Panic \<Rightarrow> False
      | Pending \<Rightarrow> ps_write_inv uot_addr_codec st' \<and> True \<and> way st' = way st)"
  unfolding Let_def [of "new_uot _ _"] Let_def [of "[7, 8]"] Let_def [of "SockV4 _ _"]
  by (rule packet_write_appends [OF script_sink.byte_sink_axioms])
    (simp_all add: new_uot_def ps_new_invs)

text \<open>The buffer is moved to the front only when more than 4096 bytes at its start are used up,
  so a packet that fits the buffer can still be refused: one that begins further in, reaches
  the end of the buffer and is not complete there makes the read fail, although moving it to
  the front would have made room for the rest.\<close>

theorem packet_read_full_before_compaction:
  assumes "ps_read_inv uot_addr_codec st" and "\<not> ps_eof st"
    and "0 < sb_start (ps_read_buf st)" and "sb_start (ps_read_buf st) \<le> 4096"
    and "sb_end (ps_read_buf st) = 65535"
    and "uot_ok l" and "length payload \<le> 65535"
    and "length (packet_bytes uot_bytes l payload) \<le> 65535"
    and "sb_bytes (ps_read_buf st) = take k (packet_bytes uot_bytes l payload)"
    and "k < length (packet_bytes uot_bytes l payload)"
  shows "poll_read_targeted_message rd st n = (Ready (Err buffer_full), st)"
proof -
  have inv: "sb_inv (ps_read_buf st)" "ps_codec st = uot_addr_codec" "length (sb_data (ps_read_buf st)) = 65535"
    using assms(1) by (auto simp: ps_read_inv_def)
  have "try_parse_packet (ps_codec st) (ps_read_buf st) = Ok None"
    unfolding inv(2) by (rule uot.try_parse_short [OF inv(1) assms(6,7,9,10)])
  moreover have "maybe_compact 4096 (ps_read_buf st) = ps_read_buf st"
    using assms(4) by (simp add: maybe_compact_def)
  ultimately show ?thesis
    using assms(2,5) inv(3)
    by (simp add: poll_read_targeted_message_def read_targeted_loop.simps [of rd st] Let_def
        remaining_capacity_def)
qed

theorem packet_read_full_before_compaction_witness:
  "let l = net_location_new (Ipv4 0x01020304) 53;
       pk = packet_bytes uot_bytes l (replicate 65521 0);
       b = \<lparr>sb_data = replicate 10 0 @ take 65525 pk, sb_start = 10, sb_end = 65535\<rparr>;
       st = (new_uot (\<lambda>_. 0) [Chunk (drop 65525 pk)])\<lparr>ps_read_buf := b\<rparr>
   in poll_read_targeted_message script_read st 65535 = (Ready (Err buffer_full), st)"
proof -
  let ?l = "net_location_new (Ipv4 0x01020304) 53"
  let ?pk = "packet_bytes uot_bytes ?l (replicate 65521 0)"
  let ?b = "\<lparr>sb_data = replicate 10 0 @ take 65525 ?pk, sb_start = 10, sb_end = 65535\<rparr>"
  let ?st = "(new_uot (\<lambda>_. 0) [Chunk (drop 65525 ?pk)])\<lparr>ps_read_buf := ?b\<rparr>"
  have len: "length ?pk = 65530" by (simp add: net_location_new_def)
  have inv: "ps_read_inv uot_addr_codec ?st"
    using len by (simp add: ps_read_inv_def sb_inv_def new_uot_def ps_new_with_codec_def del: length_packet_bytes)
  have bytes: "sb_bytes (ps_read_buf ?st) = take 65525 ?pk"
    by (simp add: sb_bytes_def slice_of_def)
  show ?thesis
    unfolding Let_def
    by (rule packet_read_full_before_compaction [OF inv _ _ _ _ _ _ _ bytes])
      (simp_all add: len uot_ok_def net_location_new_def new_uot_def ps_new_with_codec_def)
qed

end
