(* ===== verification/Vless_Message.thy ===== *)
theory Vless_Message
  imports Message_Stream
begin

text \<open>
  \<^verbatim>\<open>VlessMessageStream\<close> of \<^verbatim>\<open>src/message_stream.rs\<close>: messages with a two-byte length prefix over a
  byte stream. Both loops end whatever the stream does: a read fills the buffer further and a
  write of no byte is an error.
\<close>

section \<open>VlessMessageStream\<close>

record 's vless_stream =
  vs_stream :: 's
  vs_read_buf :: "byte list"
  vs_read_end :: nat
  vs_pending_write :: "byte list"
  vs_write_offset :: nat
  vs_eof :: bool

definition vless_new :: "(nat \<Rightarrow> byte) \<Rightarrow> 's \<Rightarrow> 's vless_stream" where
  "vless_new mem s =
     \<lparr>vs_stream = s, vs_read_buf = allocate_vec mem 65537, vs_read_end = 0, vs_pending_write = [],
      vs_write_offset = 0, vs_eof = False\<rparr>"

definition out_buf_too_small :: io_error where
  "out_buf_too_small = other_error ''out_buf is too small to hold the message''"

definition eof_in_message :: io_error where
  "eof_in_message = IoError UnexpectedEof ''EOF reached in the middle of a message''"

text \<open>The length of the message at the front of the buffer, once its two length bytes are in,
  and whether all of it is.\<close>

definition vless_complete :: "'s vless_stream \<Rightarrow> nat option" where
  "vless_complete st =
     (if vs_read_end st \<ge> 2 then
        (let payload_len = unat (u16_of_be [vs_read_buf st ! 0, vs_read_buf st ! 1]) in
         if vs_read_end st \<ge> 2 + payload_len then Some payload_len else None)
      else None)"

function vless_read_loop ::
  "'s reader \<Rightarrow> 's vless_stream \<Rightarrow> nat \<Rightarrow> byte list res poll \<times> 's vless_stream" where
  "vless_read_loop rd st n =
     (case vless_complete st of
        Some payload_len \<Rightarrow>
          let total_len = 2 + payload_len in
          if n < payload_len then (Ready (Err out_buf_too_small), st)
          else (Ready (Ok (slice_of 2 total_len (vs_read_buf st))),
                if vs_read_end st > total_len
                then st\<lparr>vs_read_buf := overwrite 0 (slice_of total_len (vs_read_end st) (vs_read_buf st)) (vs_read_buf st),
                        vs_read_end := vs_read_end st - total_len\<rparr>
                else st\<lparr>vs_read_end := 0\<rparr>)
      | None \<Rightarrow>
          let room = length (vs_read_buf st) - vs_read_end st in
          if vs_read_end st \<ge> length (vs_read_buf st) then (Ready Panic, st)
          else
            (case rd (vs_stream st) room of
               (Ready (Ok bs), s') \<Rightarrow>
                 if bs = [] then
                   (if vs_read_end st = 0 then (Ready (Ok []), st\<lparr>vs_stream := s', vs_eof := True\<rparr>)
                    else (Ready (Err eof_in_message), st\<lparr>vs_stream := s', vs_eof := True\<rparr>))
                 else if length bs > room then (Ready Panic, st\<lparr>vs_stream := s'\<rparr>)
                 else vless_read_loop rd
                   (st\<lparr>vs_stream := s', vs_read_buf := overwrite (vs_read_end st) bs (vs_read_buf st),
                       vs_read_end := vs_read_end st + length bs\<rparr>) n
             | (Ready (Err e), s') \<Rightarrow> (Ready (Err e), st\<lparr>vs_stream := s'\<rparr>)
             | (Ready Panic, s') \<Rightarrow> (Ready Panic, st\<lparr>vs_stream := s'\<rparr>)
             | (Pending, s') \<Rightarrow> (Pending, st\<lparr>vs_stream := s'\<rparr>)))"
  by pat_completeness auto
termination
proof (relation "measure (\<lambda>(rd, st, n). length (vs_read_buf st) - vs_read_end st)", goal_cases)
  case 1
  show ?case by simp
next
  case (2 rd st n room p s' r bs)
  then show ?case by (simp add: room_shrinks)
qed

declare vless_read_loop.simps [simp del]

definition poll_read_message ::
  "'s reader \<Rightarrow> 's vless_stream \<Rightarrow> nat \<Rightarrow> byte list res poll \<times> 's vless_stream" where
  "poll_read_message rd st n =
     (if vs_eof st then (Ready (Ok []), st) else vless_read_loop rd st n)"

definition write_zero :: io_error where
  "write_zero = IoError WriteZero ''failed to write message''"

function vless_drain :: "'s writer \<Rightarrow> 's vless_stream \<Rightarrow> unit res poll \<times> 's vless_stream" where
  "vless_drain wr st =
     (if vs_write_offset st < length (vs_pending_write st) then
        (case wr (vs_stream st) (drop (vs_write_offset st) (vs_pending_write st)) of
           (Ready (Ok n), s') \<Rightarrow>
             if n = 0 then (Ready (Err write_zero), st\<lparr>vs_stream := s'\<rparr>)
             else vless_drain wr (st\<lparr>vs_stream := s', vs_write_offset := vs_write_offset st + n\<rparr>)
         | (Ready (Err e), s') \<Rightarrow> (Ready (Err e), st\<lparr>vs_stream := s'\<rparr>)
         | (Ready Panic, s') \<Rightarrow> (Ready Panic, st\<lparr>vs_stream := s'\<rparr>)
         | (Pending, s') \<Rightarrow> (Pending, st\<lparr>vs_stream := s'\<rparr>))
      else (Ready (Ok ()), st))"
  by pat_completeness auto
termination
  by (relation "measure (\<lambda>(wr, st). length (vs_pending_write st) - vs_write_offset st)") auto

declare vless_drain.simps [simp del]

definition vless_poll_flush_message ::
  "'s writer \<Rightarrow> 's flusher \<Rightarrow> 's vless_stream \<Rightarrow> unit res poll \<times> 's vless_stream" where
  "vless_poll_flush_message wr fl st =
     (case vless_drain wr st of
        (Ready (Ok _), st') \<Rightarrow>
          (case fl (vs_stream st') of
             (Ready (Ok _), s') \<Rightarrow>
               (Ready (Ok ()), st'\<lparr>vs_stream := s', vs_pending_write := [], vs_write_offset := 0\<rparr>)
           | (q, s') \<Rightarrow> (q, st'\<lparr>vs_stream := s'\<rparr>))
      | (p, st') \<Rightarrow> (p, st'))"

definition message_too_large :: io_error where
  "message_too_large = IoError InvalidInput ''message size too large''"

definition vless_enqueue :: "'s vless_stream \<Rightarrow> byte list \<Rightarrow> unit res poll \<times> 's vless_stream" where
  "vless_enqueue st buf =
     (if length buf > 65535 then (Ready (Err message_too_large), st)
      else (Ready (Ok ()),
            st\<lparr>vs_pending_write := vs_pending_write st @ u16_be (of_nat (length buf)) @ buf,
                vs_write_offset := 0\<rparr>))"

definition poll_write_message ::
  "'s writer \<Rightarrow> 's flusher \<Rightarrow> 's vless_stream \<Rightarrow> byte list \<Rightarrow> unit res poll \<times> 's vless_stream" where
  "poll_write_message wr fl st buf =
     (if vs_pending_write st \<noteq> [] then
        (case vless_poll_flush_message wr fl st of
           (Ready (Err e), st') \<Rightarrow> (Ready (Err e), st')
         | (Ready Panic, st') \<Rightarrow> (Ready Panic, st')
         | (_, st') \<Rightarrow> if vs_pending_write st' \<noteq> [] then (Pending, st') else vless_enqueue st' buf)
      else vless_enqueue st buf)"

definition vless_poll_shutdown_message ::
  "'s writer \<Rightarrow> 's flusher \<Rightarrow> 's flusher \<Rightarrow> 's vless_stream \<Rightarrow> unit res poll \<times> 's vless_stream" where
  "vless_poll_shutdown_message wr fl sd st =
     (case vless_poll_flush_message wr fl st of
        (Ready (Ok _), st') \<Rightarrow> (let (q, s') = sd (vs_stream st') in (q, st'\<lparr>vs_stream := s'\<rparr>))
      | (p, st') \<Rightarrow> (p, st'))"

text \<open>The stream as an \<^verbatim>\<open>AsyncMessageStream\<close>; pings are those of the stream underneath.\<close>

definition vless_message_ops :: "'s async_stream \<Rightarrow> 's vless_stream message_stream" where
  "vless_message_ops ops =
     \<lparr>op_supports_ping = (\<lambda>st. op_supports_ping ops (vs_stream st)),
      op_write_ping = (\<lambda>st. let (p, s') = op_write_ping ops (vs_stream st) in (p, st\<lparr>vs_stream := s'\<rparr>)),
      op_read_message = poll_read_message (op_read ops),
      op_write_message = poll_write_message (op_write ops) (op_flush ops),
      op_flush_message = vless_poll_flush_message (op_write ops) (op_flush ops),
      op_shutdown_message = vless_poll_shutdown_message (op_write ops) (op_flush ops) (op_shutdown ops)\<rparr>"

section \<open>Messages on the wire\<close>

definition vless_bytes :: "byte list \<Rightarrow> byte list" where
  "vless_bytes m = u16_be (of_nat (length m)) @ m"

lemma length_vless_bytes [simp]: "length (vless_bytes m) = 2 + length m"
  by (simp add: vless_bytes_def)

definition vless_read_inv :: "'s vless_stream \<Rightarrow> bool" where
  "vless_read_inv st \<longleftrightarrow> length (vs_read_buf st) = 65537 \<and> vs_read_end st \<le> 65537"

definition vless_write_inv :: "'s vless_stream \<Rightarrow> bool" where
  "vless_write_inv st \<longleftrightarrow> vs_write_offset st \<le> length (vs_pending_write st)"

definition vless_buffered :: "'s vless_stream \<Rightarrow> byte list" where
  "vless_buffered st = take (vs_read_end st) (vs_read_buf st)"

lemma vless_new_invs:
  "vless_read_inv (vless_new mem s)" "vless_write_inv (vless_new mem s)"
  "vless_buffered (vless_new mem s) = []" "vs_stream (vless_new mem s) = s" "\<not> vs_eof (vless_new mem s)"
  by (simp_all add: vless_new_def vless_read_inv_def vless_write_inv_def vless_buffered_def)

lemma vless_length_bytes:
  assumes "length m \<le> 65535" and "vless_buffered st = take k (vless_bytes m @ rest)" and "2 \<le> k"
    and "vless_read_inv st" and "2 \<le> vs_read_end st"
  shows "unat (u16_of_be [vs_read_buf st ! 0, vs_read_buf st ! 1]) = length m"
proof -
  have "vs_read_buf st ! i = u16_be (of_nat (length m)) ! i" if "i < 2" for i
  proof -
    have "vs_read_buf st ! i = vless_buffered st ! i"
      using that assms(5) by (simp add: vless_buffered_def)
    then show ?thesis
      using that assms(2,3) by (simp add: vless_bytes_def nth_append)
  qed
  then have "[vs_read_buf st ! 0, vs_read_buf st ! 1] = u16_be (of_nat (length m))"
    using list_2 [of "u16_be (of_nat (length m))"] by simp
  then show ?thesis
    using assms(1) by (simp add: unat_u16_length)
qed

lemma length_vless_buffered: "vless_read_inv st \<Longrightarrow> length (vless_buffered st) = vs_read_end st"
  by (simp add: vless_read_inv_def vless_buffered_def)

lemma vless_complete_full:
  assumes "length m \<le> 65535" and "vless_buffered st = vless_bytes m @ later" and "vless_read_inv st"
  shows "vless_complete st = Some (length m)"
proof -
  have e: "vs_read_end st = 2 + length m + length later"
    using assms(2) length_vless_buffered [OF assms(3)] by simp
  have "vless_buffered st = take (vs_read_end st) (vless_bytes m @ later)"
    using e assms(2) by simp
  from vless_length_bytes [OF assms(1) this _ assms(3)] e show ?thesis
    by (simp add: vless_complete_def)
qed

lemma vless_complete_short:
  assumes "length m \<le> 65535" and "vless_buffered st = take k (vless_bytes m)" and "k < length (vless_bytes m)"
    and "vless_read_inv st"
  shows "vless_complete st = None"
proof -
  have e: "vs_read_end st = k"
    using assms(2,3) length_vless_buffered [OF assms(4)] by simp
  have "vless_buffered st = take k (vless_bytes m @ [])" using assms(2) by simp
  from vless_length_bytes [OF assms(1) this _ assms(4)] e assms(3) show ?thesis
    by (simp add: vless_complete_def)
qed

section \<open>Reading messages\<close>

context byte_source
begin

definition vless_unread :: "'s vless_stream \<Rightarrow> byte list" where
  "vless_unread st = vless_buffered st @ content (vs_stream st)"

definition vless_ok :: "'s vless_stream \<Rightarrow> bool" where
  "vless_ok st \<longleftrightarrow> vless_read_inv st \<and> src_inv (vs_stream st)"

definition vless_read_post ::
  "'s vless_stream \<Rightarrow> byte list \<Rightarrow> byte list \<Rightarrow> byte list res poll \<Rightarrow> 's vless_stream \<Rightarrow> bool" where
  "vless_read_post st m rest p st' \<longleftrightarrow>
     (case p of
        Ready (Ok bs) \<Rightarrow> bs = m \<and> vless_ok st' \<and> vless_unread st' = rest \<and> vs_eof st' = vs_eof st
      | Ready (Err e) \<Rightarrow> src_err e
      | Ready Panic \<Rightarrow> False
      | Pending \<Rightarrow> vless_ok st' \<and> vless_unread st' = vless_unread st \<and> vs_eof st' = vs_eof st
          \<and> src_progress (vs_stream st) (vs_stream st'))"

lemma vless_read_post_trans:
  "vless_read_post st2 m rest p st' \<Longrightarrow> vless_unread st2 = vless_unread st \<Longrightarrow> vs_eof st2 = vs_eof st \<Longrightarrow>
   length (content (vs_stream st2)) < length (content (vs_stream st)) \<Longrightarrow>
   vless_read_post st m rest p st'"
  by (auto simp: vless_read_post_def src_progress_def split: poll.splits res.splits)

lemma vless_read_buffered:
  assumes "vless_ok st" and "length m \<le> n" and "length m \<le> 65535"
    and "vless_buffered st = vless_bytes m @ later" and "rest = later @ content (vs_stream st)"
  shows "case vless_read_loop poll_read st n of (p, st') \<Rightarrow> vless_read_post st m rest p st'"
proof -
  have inv: "vless_read_inv st" using assms(1) by (simp add: vless_ok_def)
  let ?t = "2 + length m"
  let ?st = "if vs_read_end st > ?t
      then st\<lparr>vs_read_buf := overwrite 0 (slice_of ?t (vs_read_end st) (vs_read_buf st)) (vs_read_buf st),
              vs_read_end := vs_read_end st - ?t\<rparr>
      else st\<lparr>vs_read_end := 0\<rparr>"
  have c: "vless_complete st = Some (length m)"
    by (rule vless_complete_full [OF assms(3,4) inv])
  have e: "vs_read_end st = ?t + length later"
    using assms(4) length_vless_buffered [OF inv] by simp
  have "slice_of 2 ?t (vs_read_buf st) = take (length m) (drop 2 (vless_buffered st))"
    using e by (simp add: slice_of_def vless_buffered_def drop_take)
  also have "\<dots> = m" using assms(4) by (simp add: vless_bytes_def)
  finally have run: "vless_read_loop poll_read st n = (Ready (Ok m), ?st)"
    using assms(2) by (subst vless_read_loop.simps) (simp add: c Let_def)
  have "slice_of ?t (vs_read_end st) (vs_read_buf st) = drop ?t (vless_buffered st)"
    by (simp add: slice_of_def vless_buffered_def drop_take)
  also have "\<dots> = later" using assms(4) by (simp add: vless_bytes_def)
  finally have "vless_buffered ?st = later \<and> vless_read_inv ?st"
    using e inv by (auto simp: vless_buffered_def vless_read_inv_def overwrite_def)
  moreover have "vs_stream ?st = vs_stream st" "vs_eof ?st = vs_eof st" by simp_all
  ultimately show ?thesis
    unfolding run prod.case using assms(1,5)
    by (simp only: vless_read_post_def vless_ok_def vless_unread_def poll.case res.case simp_thms)
qed

text \<open>With a part of the message in the buffer the loop is done, or goes on with more of it.\<close>

lemma vless_read_more:
  assumes ok: "vless_ok st" and m: "length m \<le> 65535" and unread: "vless_unread st = vless_bytes m @ rest"
    and short: "length (vless_buffered st) < length (vless_bytes m)"
  shows "(case vless_read_loop poll_read st n of (p, st') \<Rightarrow> vless_read_post st m rest p st') \<or>
    (\<exists>st1. vless_read_loop poll_read st n = vless_read_loop poll_read st1 n \<and> vless_ok st1 \<and> vless_unread st1 = vless_unread st
      \<and> vs_eof st1 = vs_eof st \<and> vs_read_end st < vs_read_end st1 \<and> vs_read_end st < 65537
      \<and> length (content (vs_stream st1)) < length (content (vs_stream st)))"
proof -
  have inv: "vless_read_inv st" "src_inv (vs_stream st)" using ok by (auto simp: vless_ok_def)
  have all: "vless_buffered st @ content (vs_stream st) = vless_bytes m @ rest" using unread by (simp add: vless_unread_def)
  then have "vless_buffered st = take (length (vless_buffered st)) (vless_bytes m)"
    using short by (auto simp: append_eq_append_conv_if)
  note c = vless_complete_short [OF m this short inv(1)]
  define room where "room = 65537 - vs_read_end st"
  have e: "vs_read_end st < 65537" "length (vs_read_buf st) = 65537" "0 < room"
    using short m length_vless_buffered [OF inv(1)] inv(1) by (auto simp: vless_read_inv_def room_def)
  obtain p s' where rd: "poll_read (vs_stream st) room = (p, s')" by (cases "poll_read (vs_stream st) room")
  note step = vless_read_loop.simps [of poll_read st n] c room_def [symmetric] rd
  show ?thesis
  proof (cases p rule: poll_res_exhaust)
    case pending
    then have "vless_read_loop poll_read st n = (Pending, st\<lparr>vs_stream := s'\<rparr>)" using e by (simp add: step Let_def)
    with read_pending [OF inv(2)] rd pending inv show ?thesis
      by (auto simp: vless_read_post_def vless_ok_def vless_unread_def src_progress_def vless_read_inv_def vless_buffered_def)
  next
    case (ok bs)
    then have r: "src_inv s'" "length bs \<le> room" "content (vs_stream st) = bs @ content s'" "bs = [] \<longrightarrow> content (vs_stream st) = []"
      using read_ok [OF inv(2), of room bs s'] rd e by auto
    have ne: "bs \<noteq> []" using r(4) all short by (auto simp: append_eq_append_conv_if)
    let ?st = "st\<lparr>vs_stream := s', vs_read_buf := overwrite (vs_read_end st) bs (vs_read_buf st),
        vs_read_end := vs_read_end st + length bs\<rparr>"
    have "vs_read_end st + length bs \<le> 65537" using r(2) e by (simp add: room_def)
    then have "vless_unread ?st = vless_unread st" "vless_ok ?st"
      using e r(1,3) by (simp_all add: vless_unread_def vless_ok_def vless_read_inv_def vless_buffered_def overwrite_def)
    moreover have "vless_read_loop poll_read st n = vless_read_loop poll_read ?st n"
      using ok ne r(2) e by (subst vless_read_loop.simps) (simp add: c room_def [symmetric] rd Let_def)
    ultimately show ?thesis using e(1) r(3) ne by (intro disjI2 exI [of _ ?st]) simp
  next
    case (err er)
    then have "vless_read_loop poll_read st n = (Ready (Err er), st\<lparr>vs_stream := s'\<rparr>)" using e by (simp add: step Let_def)
    with read_err [OF inv(2)] rd err show ?thesis by (auto simp: vless_read_post_def)
  next
    case panic
    with read_no_panic [OF inv(2)] rd show ?thesis by auto
  qed
qed

lemma vless_read:
  assumes "vless_ok st" and "length m \<le> n" and "length m \<le> 65535"
    and "vless_unread st = vless_bytes m @ rest"
  shows "case vless_read_loop poll_read st n of (p, st') \<Rightarrow> vless_read_post st m rest p st'"
  using assms
proof (induction "65537 - vs_read_end st" arbitrary: st rule: less_induct)
  case less
  let ?pk = "vless_bytes m" and ?buf = "vless_buffered st"
  have all: "?buf @ content (vs_stream st) = ?pk @ rest" using less.prems(4) by (simp add: vless_unread_def)
  show ?case
  proof (cases "length ?pk \<le> length ?buf")
    case True
    then have "?buf = ?pk @ drop (length ?pk) ?buf" "rest = drop (length ?pk) ?buf @ content (vs_stream st)"
      using all by (metis append_eq_append_conv_if append_take_drop_id)+
    then show ?thesis by (intro vless_read_buffered [OF less.prems(1,2,3)])
  next
    case False
    show ?thesis
    proof (rule disjE [OF vless_read_more [OF less.prems(1,3,4), of n]], goal_cases)
      case 3
      then obtain st1 where st1: "vless_read_loop poll_read st n = vless_read_loop poll_read st1 n" "vless_ok st1"
        "vless_unread st1 = vless_unread st" "vs_eof st1 = vs_eof st"
        "length (content (vs_stream st1)) < length (content (vs_stream st))" "65537 - vs_read_end st1 < 65537 - vs_read_end st"
        by (auto intro: diff_less_mono2)
      from less.hyps [OF st1(6,2) less.prems(2,3)] less.prems(4) st1(3)
      have "case vless_read_loop poll_read st1 n of (p, st') \<Rightarrow> vless_read_post st1 m rest p st'" by simp
      with vless_read_post_trans [OF _ st1(3,4,5)] show ?case unfolding st1(1) by (auto split: prod.splits)
    qed (use False in simp_all)
  qed
qed

end

section \<open>Writing messages\<close>

text \<open>What flushing the stream underneath has to keep: it takes nothing and loses nothing.\<close>

definition flush_keeps ::
  "('w \<Rightarrow> byte list) \<Rightarrow> ('w \<Rightarrow> bool) \<Rightarrow> (io_error \<Rightarrow> bool) \<Rightarrow> 'w flusher \<Rightarrow> bool" where
  "flush_keeps written snk_inv snk_err fl \<longleftrightarrow> (\<forall>w p w'. fl w = (p, w') \<longrightarrow>
     written w' = written w \<and> (snk_inv w \<longrightarrow> snk_inv w')
     \<and> (\<forall>e. p = Ready (Err e) \<longrightarrow> snk_err e) \<and> p \<noteq> Ready Panic)"

context byte_sink
begin

definition vless_wire :: "'w vless_stream \<Rightarrow> byte list" where
  "vless_wire st = written (vs_stream st) @ drop (vs_write_offset st) (vs_pending_write st)"

lemma vless_drain_spec:
  assumes "vless_write_inv st" and "snk_inv (vs_stream st)"
    and "vless_drain poll_write st = (p, st')"
  shows "vless_wire st' = vless_wire st \<and> vless_write_inv st' \<and> vs_pending_write st' = vs_pending_write st \<and>
     (case p of
        Ready (Ok _) \<Rightarrow> snk_inv (vs_stream st') \<and> vs_write_offset st' = length (vs_pending_write st')
      | Ready (Err e) \<Rightarrow> snk_err e
      | Ready Panic \<Rightarrow> False
      | Pending \<Rightarrow> snk_inv (vs_stream st') \<and> vs_pending_write st' \<noteq> [])"
  using assms
proof (induction "length (vs_pending_write st) - vs_write_offset st" arbitrary: st rule: less_induct)
  case less
  let ?bs = "drop (vs_write_offset st) (vs_pending_write st)"
  note step = vless_drain.simps [of poll_write st]
  show ?case
  proof (cases "vs_write_offset st < length (vs_pending_write st)")
    case False
    with less.prems show ?thesis by (auto simp: step vless_write_inv_def)
  next
    case True
    then have ne: "?bs \<noteq> []" by simp
    obtain q s' where wr: "poll_write (vs_stream st) ?bs = (q, s')"
      by (cases "poll_write (vs_stream st) ?bs")
    show ?thesis
    proof (cases q)
      case Pending
      then have "p = Pending" "st' = st\<lparr>vs_stream := s'\<rparr>"
        using less.prems(3) True wr by (simp_all add: step)
      with less.prems write_pending [OF less.prems(2) ne] wr Pending True show ?thesis
        by (auto simp: vless_wire_def vless_write_inv_def)
    next
      case (Ready r)
      show ?thesis
      proof (cases r)
        case (Ok n)
        let ?st = "st\<lparr>vs_stream := s', vs_write_offset := vs_write_offset st + n\<rparr>"
        have n: "snk_inv s'" "0 < n" "n \<le> length ?bs" "written s' = written (vs_stream st) @ take n ?bs"
          using write_ok [OF less.prems(2) ne] wr Ready Ok by auto
        have inv: "vless_write_inv ?st" "snk_inv (vs_stream ?st)"
          using less.prems n True by (auto simp: vless_write_inv_def)
        have w: "vless_wire ?st = vless_wire st"
          using n append_take_drop_id [of n ?bs] by (simp add: vless_wire_def add.commute)
        have run: "vless_drain poll_write ?st = (p, st')"
          using less.prems(3) True wr Ready Ok n(2) by (simp add: step)
        have "length (vs_pending_write ?st) - vs_write_offset ?st < length (vs_pending_write st) - vs_write_offset st"
          using n(2) True by simp
        from less.hyps [OF this inv run] show ?thesis unfolding w by simp
      next
        case (Err e)
        then have "p = Ready (Err e)" "st' = st\<lparr>vs_stream := s'\<rparr>"
          using less.prems(3) True wr Ready by (simp_all add: step)
        with write_err [OF less.prems(2) ne] wr Ready Err less.prems(1) show ?thesis
          by (auto simp: vless_wire_def vless_write_inv_def)
      next
        case Panic
        with write_no_panic [OF less.prems(2) ne] wr Ready show ?thesis by auto
      qed
    qed
  qed
qed

lemma vless_flush_spec:
  assumes "flush_keeps written snk_inv snk_err fl" and "vless_write_inv st" and "snk_inv (vs_stream st)"
    and "vs_pending_write st \<noteq> []"
    and "vless_poll_flush_message poll_write fl st = (p, st')"
  shows "vless_wire st' = vless_wire st \<and> vless_write_inv st' \<and>
     (case p of
        Ready (Ok _) \<Rightarrow> snk_inv (vs_stream st') \<and> vs_pending_write st' = [] \<and> written (vs_stream st') = vless_wire st
      | Ready (Err e) \<Rightarrow> snk_err e
      | Ready Panic \<Rightarrow> False
      | Pending \<Rightarrow> snk_inv (vs_stream st') \<and> vs_pending_write st' \<noteq> [])"
proof -
  obtain q st1 where d: "vless_drain poll_write st = (q, st1)" by (cases "vless_drain poll_write st")
  note dr = vless_drain_spec [OF assms(2,3) d]
  have keep: "vs_pending_write st1 = vs_pending_write st" using dr by blast
  show ?thesis
  proof (cases "q = Ready (Ok ())")
    case False
    then have "p = q" "st' = st1"
      using assms(5) d by (auto simp: vless_poll_flush_message_def split: poll.splits res.splits)
    with dr False show ?thesis by (auto split: poll.splits res.splits)
  next
    case True
    obtain f s' where fl: "fl (vs_stream st1) = (f, s')" by (cases "fl (vs_stream st1)")
    have f: "written s' = written (vs_stream st1)" "snk_inv (vs_stream st1) \<longrightarrow> snk_inv s'"
      "\<And>e. f = Ready (Err e) \<Longrightarrow> snk_err e" "f \<noteq> Ready Panic"
      using assms(1) fl by (auto simp: flush_keeps_def)
    have d1: "vs_write_offset st1 = length (vs_pending_write st1)" "snk_inv (vs_stream st1)"
      "vless_wire st1 = vless_wire st"
      using dr True by auto
    then have w: "written (vs_stream st1) = vless_wire st" by (simp add: vless_wire_def)
    have "p = f" and st': "st' = (if f = Ready (Ok ()) then st1\<lparr>vs_stream := s', vs_pending_write := [], vs_write_offset := 0\<rparr>
        else st1\<lparr>vs_stream := s'\<rparr>)"
      using assms(5) d True fl by (auto simp: vless_poll_flush_message_def split: poll.splits res.splits)
    with f d1 w keep assms(4) show ?thesis
      by (auto simp: vless_wire_def vless_write_inv_def split: poll.splits res.splits)
  qed
qed

lemma vless_enqueue_spec:
  assumes "vless_write_inv st" and "snk_inv (vs_stream st)" and "vs_pending_write st = []"
    and "vless_enqueue st buf = (p, st')"
  shows "(p = Ready (Ok ()) \<and> vless_wire st' = vless_wire st @ vless_bytes buf
       \<or> p = Ready (Err message_too_large) \<and> 65535 < length buf \<and> vless_wire st' = vless_wire st)
     \<and> vless_write_inv st' \<and> snk_inv (vs_stream st')"
  using assms
  by (auto simp: vless_enqueue_def vless_wire_def vless_write_inv_def vless_bytes_def split: if_splits)

lemma vless_write:
  assumes "flush_keeps written snk_inv snk_err fl" and "vless_write_inv st" and "snk_inv (vs_stream st)"
    and "poll_write_message poll_write fl st buf = (p, st')"
  shows "vless_write_inv st' \<and>
     (case p of
        Ready (Ok _) \<Rightarrow> snk_inv (vs_stream st') \<and> vless_wire st' = vless_wire st @ vless_bytes buf
      | Ready (Err e) \<Rightarrow> vless_wire st' = vless_wire st \<and> (snk_err e \<or> e = message_too_large \<and> 65535 < length buf)
      | Ready Panic \<Rightarrow> False
      | Pending \<Rightarrow> snk_inv (vs_stream st') \<and> vless_wire st' = vless_wire st)"
proof (cases "vs_pending_write st = []")
  case True
  with assms(4) have "vless_enqueue st buf = (p, st')" by (simp add: poll_write_message_def)
  from vless_enqueue_spec [OF assms(2,3) True this] show ?thesis by auto
next
  case False
  obtain q st1 where fl: "vless_poll_flush_message poll_write fl st = (q, st1)"
    by (cases "vless_poll_flush_message poll_write fl st")
  note f = vless_flush_spec [OF assms(1-3) False fl]
  show ?thesis
  proof (cases "q = Ready (Ok ())")
    case True
    with f have st1: "vless_wire st1 = vless_wire st" "vless_write_inv st1" "snk_inv (vs_stream st1)"
      "vs_pending_write st1 = []" by auto
    have "vless_enqueue st1 buf = (p, st')"
      using assms(4) False fl True st1(4) by (simp add: poll_write_message_def)
    from vless_enqueue_spec [OF st1(2,3,4) this] show ?thesis unfolding st1(1) by auto
  next
    case other: False
    then have "p = q \<and> st' = st1"
      using assms(4) False fl f by (auto simp: poll_write_message_def split: poll.splits res.splits)
    with f other show ?thesis by (auto split: poll.splits res.splits)
  qed
qed

end

section \<open>Properties\<close>

text \<open>C34. Reading a message off a byte stream is independent of how the stream is cut into reads:
  when what is buffered followed by what the stream delivers starts with a message of at most
  65535 bytes that fits the caller's buffer, polling delivers exactly it and leaves exactly
  the bytes after it, or is pending with nothing lost and the stream closer to its next
  result, or passes on an error of the stream; the assertion that the buffer has room holds.\<close>

theorem vless_read_refines:
  assumes "byte_source rd content src_inv delay src_err"
    and "vless_read_inv st" and "src_inv (vs_stream st)" and "\<not> vs_eof st"
    and "length m \<le> n" and "length m \<le> 65535"
    and "vless_buffered st @ content (vs_stream st) = vless_bytes m @ rest"
    and "poll_read_message rd st n = (p, st')"
  shows "case p of
      Ready (Ok bs) \<Rightarrow> bs = m \<and> \<not> vs_eof st' \<and> vless_read_inv st' \<and> src_inv (vs_stream st')
        \<and> vless_buffered st' @ content (vs_stream st') = rest
    | Ready (Err e) \<Rightarrow> src_err e
    | Ready Panic \<Rightarrow> False
    | Pending \<Rightarrow> \<not> vs_eof st' \<and> vless_read_inv st' \<and> src_inv (vs_stream st')
        \<and> vless_buffered st' @ content (vs_stream st') = vless_bytes m @ rest
        \<and> (length (content (vs_stream st')) < length (content (vs_stream st))
           \<or> content (vs_stream st') = content (vs_stream st) \<and> delay (vs_stream st') < delay (vs_stream st))"
proof -
  note src = assms(1)
  note defs = byte_source.vless_ok_def [OF src] byte_source.vless_unread_def [OF src]
    byte_source.vless_read_post_def [OF src] byte_source.src_progress_def [OF src]
  have "vless_read_loop rd st n = (p, st')"
    using assms(4,8) by (simp add: poll_read_message_def)
  with byte_source.vless_read [OF src, of st m n rest] assms(2-7) show ?thesis
    by (auto simp: defs split: poll.splits res.splits)
qed

theorem vless_read_refines_witness:
  "let st = vless_new (\<lambda>_. 0) [Chunk [0], Wait, Chunk [2, 7, 8, 9]];
       (p, st') = poll_read_message script_read st 100
   in case p of
      Ready (Ok bs) \<Rightarrow> bs = [7, 8] \<and> \<not> vs_eof st' \<and> vless_read_inv st' \<and> script_inv (vs_stream st')
        \<and> vless_buffered st' @ script_content (vs_stream st') = [9]
    | Ready (Err e) \<Rightarrow> True
    | Ready Panic \<Rightarrow> False
    | Pending \<Rightarrow> \<not> vs_eof st' \<and> vless_read_inv st' \<and> script_inv (vs_stream st')
        \<and> vless_buffered st' @ script_content (vs_stream st') = vless_bytes [7, 8] @ [9]
        \<and> (length (script_content (vs_stream st')) < length (script_content (vs_stream st))
           \<or> script_content (vs_stream st') = script_content (vs_stream st)
             \<and> length (vs_stream st') < length (vs_stream st))"
proof -
  let ?s = "[Chunk [0], Wait, Chunk [2, 7, 8, 9]]"
  let ?st = "vless_new (\<lambda>_. 0) ?s"
  note new = vless_new_invs [where mem = "\<lambda>_. 0" and s = ?s]
  have src: "script_inv (vs_stream ?st)" by (simp add: new script_inv_def)
  have bytes: "vless_buffered ?st @ script_content (vs_stream ?st) = vless_bytes [7, 8] @ [9]"
    by (simp add: new vless_bytes_def u_be_eval)
  obtain p st' where run: "poll_read_message script_read ?st 100 = (p, st')"
    by (cases "poll_read_message script_read ?st 100")
  show ?thesis
    unfolding Let_def run prod.case
    by (rule vless_read_refines [OF script.byte_source_axioms new(1) src new(5) _ _ bytes run]) simp_all
qed

text \<open>C35. Writing a message queues its length prefix and its bytes behind everything written
  before, exactly once, or changes nothing of what is under way: when it is pending, when
  the stream fails, and when the message is longer than 65535 bytes, which is refused.\<close>

theorem vless_write_appends:
  assumes "byte_sink wr written snk_inv snk_delay snk_err"
    and "flush_keeps written snk_inv snk_err fl"
    and "vless_write_inv st" and "snk_inv (vs_stream st)"
    and "poll_write_message wr fl st buf = (p, st')"
  shows "let way = (\<lambda>st. written (vs_stream st) @ drop (vs_write_offset st) (vs_pending_write st)) in
     vless_write_inv st' \<and>
     (case p of
        Ready (Ok _) \<Rightarrow> snk_inv (vs_stream st') \<and> way st' = way st @ vless_bytes buf
      | Ready (Err e) \<Rightarrow> way st' = way st \<and> (snk_err e \<or> e = message_too_large \<and> 65535 < length buf)
      | Ready Panic \<Rightarrow> False
      | Pending \<Rightarrow> snk_inv (vs_stream st') \<and> way st' = way st)"
  using byte_sink.vless_write [OF assms]
  unfolding byte_sink.vless_wire_def [OF assms(1)] Let_def .

theorem vless_write_appends_witness:
  "let st = (vless_new (\<lambda>_. 0) ([Accept 1, AcceptWait], []))\<lparr>vs_pending_write := [0, 1, 5]\<rparr>;
       (p, st') = poll_write_message script_write (\<lambda>w. (Ready (Ok ()), w)) st [7, 8];
       way = (\<lambda>st. snd (vs_stream st) @ drop (vs_write_offset st) (vs_pending_write st))
   in vless_write_inv st' \<and>
     (case p of
        Ready (Ok _) \<Rightarrow> True \<and> way st' = way st @ vless_bytes [7, 8]
      | Ready (Err e) \<Rightarrow> way st' = way st \<and> (True \<or> e = message_too_large \<and> 65535 < length [7, 8 :: byte])
      | Ready Panic \<Rightarrow> False
      | Pending \<Rightarrow> True \<and> way st' = way st)"
proof -
  let ?st = "(vless_new (\<lambda>_. 0) ([Accept 1, AcceptWait], []))\<lparr>vs_pending_write := [0, 1, 5]\<rparr>"
  obtain p st' where run: "poll_write_message script_write (\<lambda>w. (Ready (Ok ()), w)) ?st [7, 8] = (p, st')"
    by (cases "poll_write_message script_write (\<lambda>w. (Ready (Ok ()), w)) ?st [7, 8]")
  have inv: "vless_write_inv ?st" by (simp add: vless_new_def vless_write_inv_def)
  have fl: "flush_keeps snd (\<lambda>_. True) (\<lambda>_. True) (\<lambda>w. (Ready (Ok ()), w))"
    by (simp add: flush_keeps_def)
  show ?thesis
    using vless_write_appends [OF script_sink.byte_sink_axioms fl inv _ run]
    unfolding Let_def run prod.case by simp
qed

end
