(* ===== verification/Copy_Bidirectional.thy ===== *)
theory Copy_Bidirectional
  imports Async_Stream
begin

text \<open>
  \<^verbatim>\<open>src/copy_bidirectional.rs\<close>: the ring buffer that moves bytes from one stream to another, the
  three states of a direction, and the future that polls both directions.

  The loops that fill and that drain the buffer end because each round changes the number of
  cached bytes; the loop around them runs as long as both streams are ready, so it is a
  partial function. \<open>proceed\<close> is whether tokio's cooperative budget lets the task go on.
\<close>

section \<open>The ring buffer\<close>

record copy_buffer =
  cb_read_done :: bool
  cb_need_flush :: bool
  cb_need_write_ping :: bool
  cb_start :: nat
  cb_len :: nat
  cb_size :: nat
  cb_buf :: "byte list"

definition copy_buffer_new :: "(nat \<Rightarrow> byte) \<Rightarrow> nat \<Rightarrow> bool \<Rightarrow> copy_buffer" where
  "copy_buffer_new mem sz need_initial_flush =
     \<lparr>cb_read_done = False, cb_need_flush = need_initial_flush, cb_need_write_ping = False,
      cb_start = 0, cb_len = 0, cb_size = sz, cb_buf = allocate_vec mem sz\<rparr>"

text \<open>The first loop: read into the free part after the cached bytes, up to the end of the
  buffer or to the start of the cached bytes. The result says whether a read was pending.\<close>

definition unused_start :: "copy_buffer \<Rightarrow> nat" where
  "unused_start cb = (cb_start cb + cb_len cb) mod cb_size cb"

definition unused_end :: "copy_buffer \<Rightarrow> nat" where
  "unused_end cb = (if unused_start cb < cb_start cb then cb_start cb else cb_size cb)"

function copy_fill :: "'r reader \<Rightarrow> copy_buffer \<Rightarrow> 'r \<Rightarrow> bool res \<times> copy_buffer \<times> 'r" where
  "copy_fill rd cb r =
     (if \<not> cb_read_done cb \<and> cb_len cb < cb_size cb then
        (let i = unused_start cb; j = unused_end cb in
         if j > length (cb_buf cb) then (Panic, cb, r)
         else
           (case rd r (j - i) of
              (Ready (Ok bs), r') \<Rightarrow>
                if bs = [] then copy_fill rd (cb\<lparr>cb_read_done := True\<rparr>) r'
                else if length bs > j - i then (Panic, cb, r')
                else copy_fill rd
                  (cb\<lparr>cb_buf := overwrite i bs (cb_buf cb), cb_len := cb_len cb + length bs\<rparr>) r'
            | (Ready (Err e), r') \<Rightarrow> (Err e, cb, r')
            | (Ready Panic, r') \<Rightarrow> (Panic, cb, r')
            | (Pending, r') \<Rightarrow> (Ok True, cb, r')))
      else (Ok False, cb, r))"
  by pat_completeness auto
termination
  by (relation "measures [\<lambda>(rd, cb, r). if cb_read_done cb then 0 else 1, \<lambda>(rd, cb, r). cb_size cb - cb_len cb]")
    (auto simp: room_shrinks_below)

declare copy_fill.simps [simp del]

text \<open>The ping: only when nothing is cached; the result says whether it was pending.\<close>

definition copy_ping :: "'w async_stream \<Rightarrow> copy_buffer \<Rightarrow> 'w \<Rightarrow> bool res \<times> copy_buffer \<times> 'w" where
  "copy_ping ops cb w =
     (if cb_need_write_ping cb then
        (if cb_len cb = 0 then
           (case op_write_ping ops w of
              (Ready (Ok sent), w') \<Rightarrow>
                (Ok False,
                 if sent then cb\<lparr>cb_need_write_ping := False, cb_need_flush := True\<rparr>
                 else cb\<lparr>cb_need_write_ping := False\<rparr>, w')
            | (Ready (Err e), w') \<Rightarrow> (Err e, cb, w')
            | (Ready Panic, w') \<Rightarrow> (Panic, cb, w')
            | (Pending, w') \<Rightarrow> (Ok True, cb, w'))
         else (Ok False, cb\<lparr>cb_need_write_ping := False\<rparr>, w))
      else (Ok False, cb, w))"

definition write_zero_byte :: io_error where
  "write_zero_byte = IoError WriteZero ''write zero byte into writer''"

text \<open>The second loop: write the cached bytes up to the end of the buffer. A stream that claims
  to have taken more than it was given would underflow the count.\<close>

function copy_drain :: "'w writer \<Rightarrow> copy_buffer \<Rightarrow> 'w \<Rightarrow> bool res \<times> copy_buffer \<times> 'w" where
  "copy_drain wr cb w =
     (if cb_len cb > 0 then
        (let i = cb_start cb; j = min (cb_start cb + cb_len cb) (cb_size cb) in
         if \<not> (i \<le> j \<and> j \<le> length (cb_buf cb)) then (Panic, cb, w)
         else
           (case wr w (slice_of i j (cb_buf cb)) of
              (Ready (Ok written), w') \<Rightarrow>
                if written = 0 then (Err write_zero_byte, cb, w')
                else if written > cb_len cb then (Panic, cb, w')
                else
                  let len = cb_len cb - written in
                  copy_drain wr
                    (cb\<lparr>cb_len := len,
                        cb_start := (if len = 0 then 0 else (cb_start cb + written) mod cb_size cb),
                        cb_need_flush := True\<rparr>) w'
            | (Ready (Err e), w') \<Rightarrow> (Err e, cb, w')
            | (Ready Panic, w') \<Rightarrow> (Panic, cb, w')
            | (Pending, w') \<Rightarrow> (Ok True, cb, w')))
      else (Ok False, cb, w))"
  by pat_completeness auto
termination
  by (relation "measure (\<lambda>(wr, cb, w). cb_len cb)") auto

declare copy_drain.simps [simp del]

text \<open>One round of the outer loop: the result is what the poll returns, or nothing when the loop
  goes round again.\<close>

definition copy_flush :: "'w flusher \<Rightarrow> copy_buffer \<Rightarrow> 'w \<Rightarrow> unit res poll \<times> copy_buffer \<times> 'w" where
  "copy_flush fl cb w =
     (if cb_need_flush cb then
        (case fl w of
           (Ready (Ok _), w') \<Rightarrow> (Ready (Ok ()), cb\<lparr>cb_need_flush := False\<rparr>, w')
         | (p, w') \<Rightarrow> (p, cb, w'))
      else (Ready (Ok ()), cb, w))"

definition copy_round ::
  "'r reader \<Rightarrow> 'w async_stream \<Rightarrow> copy_buffer \<Rightarrow> 'r \<Rightarrow> 'w \<Rightarrow>
   unit res poll option \<times> copy_buffer \<times> 'r \<times> 'w" where
  "copy_round rd ops cb r w =
     (case copy_fill rd cb r of
        (Ok read_pending, cb1, r1) \<Rightarrow>
          (case copy_ping ops cb1 w of
             (Ok ping_pending, cb2, w2) \<Rightarrow>
               (case copy_drain (op_write ops) cb2 w2 of
                  (Ok drain_pending, cb3, w3) \<Rightarrow>
                    (case copy_flush (op_flush ops) cb3 w3 of
                       (Ready (Ok _), cb4, w4) \<Rightarrow>
                         (if cb_read_done cb4 \<and> cb_len cb4 = 0 then Some (Ready (Ok ()))
                          else if read_pending \<or> ping_pending \<or> drain_pending then Some Pending
                          else None, cb4, r1, w4)
                     | (p, cb4, w4) \<Rightarrow> (Some p, cb4, r1, w4))
                | (Err e, cb3, w3) \<Rightarrow> (Some (Ready (Err e)), cb3, r1, w3)
                | (Panic, cb3, w3) \<Rightarrow> (Some (Ready Panic), cb3, r1, w3))
           | (Err e, cb2, w2) \<Rightarrow> (Some (Ready (Err e)), cb2, r1, w2)
           | (Panic, cb2, w2) \<Rightarrow> (Some (Ready Panic), cb2, r1, w2))
      | (Err e, cb1, r1) \<Rightarrow> (Some (Ready (Err e)), cb1, r1, w)
      | (Panic, cb1, r1) \<Rightarrow> (Some (Ready Panic), cb1, r1, w))"

partial_function (option) copy_loop ::
  "'r reader \<Rightarrow> 'w async_stream \<Rightarrow> copy_buffer \<Rightarrow> 'r \<Rightarrow> 'w \<Rightarrow>
   (unit res poll \<times> copy_buffer \<times> 'r \<times> 'w) option" where
  "copy_loop rd ops cb r w =
     (case copy_round rd ops cb r w of
        (Some p, cb', r', w') \<Rightarrow> Some (p, cb', r', w')
      | (None, cb', r', w') \<Rightarrow> copy_loop rd ops cb' r' w')"

definition poll_copy ::
  "bool \<Rightarrow> 'r reader \<Rightarrow> 'w async_stream \<Rightarrow> copy_buffer \<Rightarrow> 'r \<Rightarrow> 'w \<Rightarrow>
   (unit res poll \<times> copy_buffer \<times> 'r \<times> 'w) option" where
  "poll_copy proceed rd ops cb r w =
     (if proceed then copy_loop rd ops cb r w else Some (Pending, cb, r, w))"

section \<open>The two directions\<close>

datatype transfer_state = Running | ShuttingDown | Done

fun state_rank :: "transfer_state \<Rightarrow> nat" where
  "state_rank Running = 2" | "state_rank ShuttingDown = 1" | "state_rank Done = 0"

function transfer_one_direction ::
  "bool \<Rightarrow> 'r reader \<Rightarrow> 'w async_stream \<Rightarrow> transfer_state \<Rightarrow> copy_buffer \<Rightarrow> 'r \<Rightarrow> 'w \<Rightarrow>
   (unit res poll \<times> transfer_state \<times> copy_buffer \<times> 'r \<times> 'w) option" where
  "transfer_one_direction proceed rd ops Running buf r w =
     Option.bind (poll_copy proceed rd ops buf r w) (\<lambda>(p, buf', r', w').
       case p of
         Ready (Ok _) \<Rightarrow> transfer_one_direction proceed rd ops ShuttingDown buf' r' w'
       | _ \<Rightarrow> Some (p, Running, buf', r', w'))"
| "transfer_one_direction proceed rd ops ShuttingDown buf r w =
     (case op_shutdown ops w of
        (Ready (Ok _), w') \<Rightarrow> transfer_one_direction proceed rd ops Done buf r w'
      | (p, w') \<Rightarrow> Some (p, ShuttingDown, buf, r, w'))"
| "transfer_one_direction proceed rd ops Done buf r w = Some (Ready (Ok ()), Done, buf, r, w)"
  by pat_completeness auto
termination
  by (relation "measure (\<lambda>(proceed, rd, ops, state, buf, r, w). state_rank state)") auto

text \<open>Awaiting one direction: it is polled again as long as it is pending. (In the program the two
  directions are polled by one future, below.)\<close>

partial_function (option) await_transfer ::
  "'r reader \<Rightarrow> 'w async_stream \<Rightarrow> transfer_state \<Rightarrow> copy_buffer \<Rightarrow> 'r \<Rightarrow> 'w \<Rightarrow>
   (unit res \<times> transfer_state \<times> copy_buffer \<times> 'r \<times> 'w) option" where
  "await_transfer rd ops state buf r w =
     Option.bind (transfer_one_direction True rd ops state buf r w) (\<lambda>(p, state', buf', r', w').
       case p of
         Ready x \<Rightarrow> Some (x, state', buf', r', w')
       | Pending \<Rightarrow> await_transfer rd ops state' buf' r' w')"

record ('a, 'b) copy_bidi =
  bi_a :: 'a
  bi_b :: 'b
  bi_a_buf :: copy_buffer
  bi_b_buf :: copy_buffer
  bi_a_to_b :: transfer_state
  bi_b_to_a :: transfer_state
  bi_sleep :: "instant option"

text \<open>The keep-alive timer: when it has fired, both directions are asked for a ping and the timer
  is set again, 60 seconds from now.\<close>

definition bidi_timer ::
  "instant \<Rightarrow> 'a async_stream \<Rightarrow> 'b async_stream \<Rightarrow> ('a, 'b) copy_bidi \<Rightarrow> ('a, 'b) copy_bidi" where
  "bidi_timer now opa opb c =
     (case bi_sleep c of
        Some deadline \<Rightarrow>
          if deadline \<le> now
          then c\<lparr>bi_a_buf := (bi_a_buf c)\<lparr>cb_need_write_ping := op_supports_ping opb (bi_b c)\<rparr>,
                 bi_b_buf := (bi_b_buf c)\<lparr>cb_need_write_ping := op_supports_ping opa (bi_a c)\<rparr>,
                 bi_sleep := Some (now + secs 60)\<rparr>
          else c
      | None \<Rightarrow> c)"

definition bidi_result :: "unit res poll \<Rightarrow> unit res poll \<Rightarrow> unit res poll" where
  "bidi_result a_to_b b_to_a =
     (if a_to_b = Ready Panic \<or> b_to_a = Ready Panic then Ready Panic
      else
        case a_to_b of
          Ready (Err e) \<Rightarrow> Ready (Err e)
        | _ \<Rightarrow>
           (case b_to_a of
              Ready (Err e) \<Rightarrow> Ready (Err e)
            | _ \<Rightarrow> if a_to_b = Ready (Ok ()) \<and> b_to_a = Ready (Ok ()) then Ready (Ok ()) else Pending))"

definition bidi_poll ::
  "instant \<Rightarrow> bool \<Rightarrow> bool \<Rightarrow> 'a async_stream \<Rightarrow> 'b async_stream \<Rightarrow> ('a, 'b) copy_bidi \<Rightarrow>
   (unit res poll \<times> ('a, 'b) copy_bidi) option" where
  "bidi_poll now proceed_a proceed_b opa opb c0 =
     (let c = bidi_timer now opa opb c0 in
      Option.bind
        (transfer_one_direction proceed_a (op_read opa) opb (bi_a_to_b c) (bi_a_buf c) (bi_a c) (bi_b c))
        (\<lambda>(p, st_a, buf_a, a1, b1).
          Option.bind
            (transfer_one_direction proceed_b (op_read opb) opa (bi_b_to_a c) (bi_b_buf c) b1 a1)
            (\<lambda>(q, st_b, buf_b, b2, a2).
              Some (bidi_result p q,
                c\<lparr>bi_a := a2, bi_b := b2, bi_a_buf := buf_a, bi_b_buf := buf_b,
                  bi_a_to_b := st_a, bi_b_to_a := st_b\<rparr>))))"

definition copy_bidirectional_with_sizes ::
  "(nat \<Rightarrow> byte) \<Rightarrow> instant \<Rightarrow> 'a async_stream \<Rightarrow> 'b async_stream \<Rightarrow> 'a \<Rightarrow> 'b \<Rightarrow> bool \<Rightarrow> bool \<Rightarrow> nat \<Rightarrow> nat \<Rightarrow>
   ('a, 'b) copy_bidi" where
  "copy_bidirectional_with_sizes mem now opa opb a b a_need_initial_flush b_need_initial_flush
       a_to_b_buf_size b_to_a_buf_size =
     \<lparr>bi_a = a, bi_b = b, bi_a_buf = copy_buffer_new mem a_to_b_buf_size b_need_initial_flush,
      bi_b_buf = copy_buffer_new mem b_to_a_buf_size a_need_initial_flush,
      bi_a_to_b = Running, bi_b_to_a = Running,
      bi_sleep = (if op_supports_ping opa a \<or> op_supports_ping opb b then Some (now + secs 60) else None)\<rparr>"

abbreviation default_buf_size :: nat where
  "default_buf_size \<equiv> 16384"

definition copy_bidirectional ::
  "(nat \<Rightarrow> byte) \<Rightarrow> instant \<Rightarrow> 'a async_stream \<Rightarrow> 'b async_stream \<Rightarrow> 'a \<Rightarrow> 'b \<Rightarrow> bool \<Rightarrow> bool \<Rightarrow>
   ('a, 'b) copy_bidi" where
  "copy_bidirectional mem now opa opb a b a_need_initial_flush b_need_initial_flush =
     copy_bidirectional_with_sizes mem now opa opb a b a_need_initial_flush b_need_initial_flush
       default_buf_size default_buf_size"

text \<open>Awaiting a bidirectional copy: it is polled at the times of \<open>clock\<close> with the budgets of \<open>budget\<close>.\<close>

partial_function (option) await_bidi ::
  "(nat \<Rightarrow> instant) \<Rightarrow> (nat \<Rightarrow> bool \<times> bool) \<Rightarrow> nat \<Rightarrow> 'a async_stream \<Rightarrow> 'b async_stream \<Rightarrow>
   ('a, 'b) copy_bidi \<Rightarrow> (unit res \<times> ('a, 'b) copy_bidi) option" where
  "await_bidi clock budget k opa opb c =
     Option.bind (bidi_poll (clock k) (fst (budget k)) (snd (budget k)) opa opb c) (\<lambda>(p, c').
       case p of
         Ready r \<Rightarrow> Some (r, c')
       | Pending \<Rightarrow> await_bidi clock budget (Suc k) opa opb c')"

text \<open>The runtime's share in a copy: the memory of its buffers, the times and budgets of its polls.\<close>

record copy_env =
  ce_mem :: "nat \<Rightarrow> byte"
  ce_clock :: "nat \<Rightarrow> instant"
  ce_budget :: "nat \<Rightarrow> bool \<times> bool"

text \<open>A copy that is awaited, after which both streams are shut down whatever its result.\<close>

definition run_copy ::
  "copy_env \<Rightarrow> 'a async_stream \<Rightarrow> 'b async_stream \<Rightarrow> ('a, 'b) copy_bidi \<Rightarrow> (unit res \<times> 'a \<times> 'b) option" where
  "run_copy ce opa opb c0 =
     Option.bind (await_bidi (ce_clock ce) (ce_budget ce) 0 opa opb c0) (\<lambda>(result, c).
       Option.bind (await_flush (op_shutdown opa) (bi_a c)) (\<lambda>(_, a').
       Option.bind (await_flush (op_shutdown opb) (bi_b c)) (\<lambda>(_, b').
       Some (result, a', b'))))"

section \<open>The ring buffer as a queue\<close>

definition cb_inv :: "copy_buffer \<Rightarrow> bool" where
  "cb_inv cb \<longleftrightarrow> length (cb_buf cb) = cb_size cb \<and> cb_start cb < cb_size cb \<and> cb_len cb \<le> cb_size cb"

text \<open>The cached bytes, oldest first: up to the end of the buffer, then from its beginning.\<close>

definition ring :: "copy_buffer \<Rightarrow> byte list" where
  "ring cb = slice_of (cb_start cb) (min (cb_start cb + cb_len cb) (cb_size cb)) (cb_buf cb)
     @ take (cb_start cb + cb_len cb - cb_size cb) (cb_buf cb)"

lemma cb_new_spec:
  "0 < sz \<Longrightarrow> cb_inv (copy_buffer_new mem sz fl)" "ring (copy_buffer_new mem sz fl) = []"
  "\<not> cb_read_done (copy_buffer_new mem sz fl)"
  by (simp_all add: cb_inv_def ring_def copy_buffer_new_def)

lemma length_ring: "cb_inv cb \<Longrightarrow> length (ring cb) = cb_len cb"
  by (auto simp: cb_inv_def ring_def min_def)

lemma ring_empty: "cb_len cb = 0 \<Longrightarrow> cb_inv cb \<Longrightarrow> ring cb = []"
  using length_ring by fastforce

lemma unused_range:
  assumes "cb_inv cb" and "cb_len cb < cb_size cb"
  shows "unused_start cb < unused_end cb" "unused_end cb \<le> length (cb_buf cb)"
    "cb_len cb + (unused_end cb - unused_start cb) \<le> cb_size cb"
proof -
  have "unused_start cb = (if cb_start cb + cb_len cb < cb_size cb then cb_start cb + cb_len cb
      else cb_start cb + cb_len cb - cb_size cb)"
    using assms by (auto simp: unused_start_def cb_inv_def mod_if)
  then show "unused_start cb < unused_end cb" "unused_end cb \<le> length (cb_buf cb)"
    "cb_len cb + (unused_end cb - unused_start cb) \<le> cb_size cb"
    using assms by (auto simp: unused_end_def cb_inv_def)
qed

text \<open>Filling puts the bytes at the back of the queue.\<close>

lemma ring_fill:
  assumes "cb_inv cb" and "cb_len cb < cb_size cb" and "length bs \<le> unused_end cb - unused_start cb"
  defines "cb' \<equiv> cb\<lparr>cb_buf := overwrite (unused_start cb) bs (cb_buf cb), cb_len := cb_len cb + length bs\<rparr>"
  shows "cb_inv cb'" "ring cb' = ring cb @ bs"
proof -
  note ur = unused_range [OF assms(1,2)]
  have fits: "unused_start cb + length bs \<le> length (cb_buf cb)" using ur assms(3) by simp
  show "cb_inv cb'"
    using assms(1,3) ur fits by (simp add: cb_inv_def cb'_def)
  show "ring cb' = ring cb @ bs"
  proof (cases "cb_start cb + cb_len cb < cb_size cb")
    case True
    then have "unused_start cb = cb_start cb + cb_len cb" by (simp add: unused_start_def)
    then show ?thesis
      using True fits assms(1) slice_overwrite_extend [of "cb_start cb" "unused_start cb" bs "cb_buf cb"]
      by (simp add: ring_def cb'_def cb_inv_def min_def add.assoc)
  next
    case False
    then have us: "unused_start cb = cb_start cb + cb_len cb - cb_size cb"
      using assms(1,2) by (auto simp: unused_start_def cb_inv_def mod_if)
    then have "unused_start cb < cb_start cb"
      using False assms(2) by simp
    then have "unused_start cb + length bs \<le> cb_start cb"
      using assms(3) by (simp add: unused_end_def)
    moreover have "cb_start cb + (cb_len cb + length bs) - cb_size cb = unused_start cb + length bs"
      using us False by simp
    moreover have "min (cb_start cb + (cb_len cb + length bs)) (cb_size cb) = cb_size cb"
      "min (cb_start cb + cb_len cb) (cb_size cb) = cb_size cb"
      using False by (simp_all add: min_def)
    ultimately show ?thesis
      using fits
      by (simp add: ring_def cb'_def slice_overwrite_after take_overwrite_end flip: us)
  qed
qed

text \<open>Draining takes bytes from the front of the queue; what is offered to the writer is a
  non-empty beginning of it.\<close>

definition ring_front :: "copy_buffer \<Rightarrow> byte list" where
  "ring_front cb = slice_of (cb_start cb) (min (cb_start cb + cb_len cb) (cb_size cb)) (cb_buf cb)"

definition cb_take :: "nat \<Rightarrow> copy_buffer \<Rightarrow> copy_buffer" where
  "cb_take k cb = cb\<lparr>cb_len := cb_len cb - k,
     cb_start := (if cb_len cb - k = 0 then 0 else (cb_start cb + k) mod cb_size cb),
     cb_need_flush := True\<rparr>"

lemma ring_front_spec:
  assumes "cb_inv cb" and "0 < cb_len cb"
  shows "ring_front cb \<noteq> []" "length (ring_front cb) \<le> cb_len cb"
    "take (length (ring_front cb)) (ring cb) = ring_front cb"
proof -
  have l: "length (ring_front cb) = min (cb_start cb + cb_len cb) (cb_size cb) - cb_start cb"
    using assms by (auto simp: ring_front_def cb_inv_def)
  then have "0 < length (ring_front cb)" using assms by (auto simp: cb_inv_def min_def)
  then show "ring_front cb \<noteq> []" by blast
  show "length (ring_front cb) \<le> cb_len cb" using l by (auto simp: min_def)
  show "take (length (ring_front cb)) (ring cb) = ring_front cb"
    by (simp add: ring_def ring_front_def)
qed

lemma ring_drain:
  assumes "cb_inv cb" and "0 < k" and "k \<le> length (ring_front cb)" and "0 < cb_len cb"
  shows "cb_inv (cb_take k cb)" "ring cb = take k (ring_front cb) @ ring (cb_take k cb)"
proof -
  have kl: "k \<le> cb_len cb" using assms ring_front_spec by fastforce
  have l: "length (ring_front cb) = min (cb_start cb + cb_len cb) (cb_size cb) - cb_start cb"
    using assms by (auto simp: ring_front_def cb_inv_def)
  show inv: "cb_inv (cb_take k cb)"
    using assms(1) by (auto simp: cb_inv_def cb_take_def)
  have tk: "take k (ring cb) = take k (ring_front cb)"
    using assms(3) by (simp add: ring_def ring_front_def)
  have "ring (cb_take k cb) = drop k (ring cb)"
  proof (cases "cb_len cb = k")
    case True
    then show ?thesis
      using ring_empty [OF _ inv] length_ring [OF assms(1)] by (simp add: cb_take_def)
  next
    case False
    then have more: "cb_len cb - k \<noteq> 0" using kl by simp
    show ?thesis
    proof (cases "cb_start cb + k < cb_size cb")
      case True
      then have "ring (cb_take k cb) = drop k (ring_front cb) @ take (cb_start cb + cb_len cb - cb_size cb) (cb_buf cb)"
        using more kl by (simp add: ring_def ring_front_def cb_take_def drop_slice)
      then show ?thesis using assms(3) by (simp add: ring_def ring_front_def)
    next
      case False
      then have k: "cb_start cb + k = cb_size cb" "k = length (ring_front cb)"
        using assms(1,3) l by (auto simp: min_def cb_inv_def split: if_splits)
      then have "ring (cb_take k cb) = take (cb_start cb + cb_len cb - cb_size cb) (cb_buf cb)"
        using more kl assms(1) by (auto simp: ring_def cb_take_def cb_inv_def intro: arg_cong [where f = "\<lambda>n. take n (cb_buf cb)"])
      moreover have "drop k (ring cb) = take (cb_start cb + cb_len cb - cb_size cb) (cb_buf cb)"
        using k(2) by (simp add: ring_def ring_front_def)
      ultimately show ?thesis by simp
    qed
  qed
  then show "ring cb = take k (ring_front cb) @ ring (cb_take k cb)"
    using tk by (metis append_take_drop_id)
qed

section \<open>One direction over its contracts\<close>

text \<open>The order in which a copy makes progress.\<close>

definition rank_less :: "nat \<times> nat \<times> nat \<Rightarrow> nat \<times> nat \<times> nat \<Rightarrow> bool" where
  "rank_less x y \<longleftrightarrow> (x, y) \<in> less_than <*lex*> less_than <*lex*> less_than"

lemma wf_rank_less: "wfP rank_less"
proof -
  have "wf (less_than <*lex*> less_than <*lex*> (less_than :: nat rel))" by auto
  then show ?thesis by (simp add: rank_less_def [abs_def] wfp_wf_eq)
qed

lemma rank_less_trans: "rank_less x y \<Longrightarrow> rank_less y z \<Longrightarrow> rank_less x z"
  by (cases x, cases y, cases z) (auto simp: rank_less_def)

text \<open>A reader that is a byte source and a writer that is a byte sink. \<open>pings\<close> says that the writer
  supports pings; otherwise it is never asked for one. Neither a flush nor a ping nor a
  shutdown takes from or adds to the bytes written. \<open>sd_inv\<close> is what holds of a writer that is
  being shut down.\<close>

locale copy_dir = src: byte_source rd content src_inv delay src_err
    + snk: byte_sink "op_write ops" written snk_inv snk_delay snk_err
  for rd :: "'r reader" and content src_inv delay src_err
    and ops :: "'w async_stream" and written snk_inv snk_delay snk_err +
  fixes pings :: bool and sd_inv :: "'w \<Rightarrow> bool"
  assumes flush_law: "snk_inv w \<Longrightarrow> op_flush ops w = (p, w') \<Longrightarrow> written w' = written w \<and>
      (case p of
         Ready (Ok _) \<Rightarrow> snk_inv w' \<and> snk_delay w' \<le> snk_delay w
       | Ready (Err e) \<Rightarrow> snk_inv w' \<and> snk_err e
       | Ready Panic \<Rightarrow> False
       | Pending \<Rightarrow> snk_inv w' \<and> snk_delay w' < snk_delay w)"
    and ping_law: "pings \<Longrightarrow> snk_inv w \<Longrightarrow> op_write_ping ops w = (q, w') \<Longrightarrow> written w' = written w \<and>
      (case q of
         Ready (Ok _) \<Rightarrow> snk_inv w' \<and> snk_delay w' \<le> snk_delay w
       | Ready (Err e) \<Rightarrow> snk_inv w' \<and> snk_err e
       | Ready Panic \<Rightarrow> False
       | Pending \<Rightarrow> snk_inv w' \<and> snk_delay w' < snk_delay w)"
    and shutdown_law: "sd_inv w \<Longrightarrow> op_shutdown ops w = (p, w') \<Longrightarrow> written w' = written w \<and>
      (case p of
         Ready (Ok _) \<Rightarrow> sd_inv w'
       | Ready (Err e) \<Rightarrow> sd_inv w' \<and> snk_err e
       | Ready Panic \<Rightarrow> False
       | Pending \<Rightarrow> sd_inv w' \<and> snk_delay w' < snk_delay w)"
    and sd_inv: "snk_inv w \<Longrightarrow> sd_inv w"
begin

definition fill_ok :: "copy_buffer \<Rightarrow> 'r \<Rightarrow> bool" where
  "fill_ok cb r \<longleftrightarrow> cb_inv cb \<and> src_inv r \<and> (cb_read_done cb \<longrightarrow> content r = [])"

definition fill_post :: "copy_buffer \<Rightarrow> 'r \<Rightarrow> bool res \<Rightarrow> copy_buffer \<Rightarrow> 'r \<Rightarrow> bool" where
  "fill_post cb r res cb' r' \<longleftrightarrow>
     cb_need_write_ping cb' = cb_need_write_ping cb \<and>
     (case res of
        Ok pending \<Rightarrow> fill_ok cb' r' \<and> ring cb' @ content r' = ring cb @ content r
          \<and> (\<not> pending \<longrightarrow> cb_read_done cb' \<or> cb_len cb' = cb_size cb')
          \<and> (length (content r') < length (content r)
             \<or> content r' = content r \<and> (\<not> cb_read_done cb \<and> cb_read_done cb'
                \<or> cb_read_done cb' = cb_read_done cb \<and> (if pending then delay r' < delay r else r' = r)))
      | Err e \<Rightarrow> src_inv r' \<and> src_err e
      | Panic \<Rightarrow> False)"

lemma fill_post_trans:
  assumes "fill_post cb1 r1 res cb' r'" and "ring cb1 @ content r1 = ring cb @ content r"
    and "cb_need_write_ping cb1 = cb_need_write_ping cb"
    and "length (content r1) < length (content r)
      \<or> content r1 = content r \<and> \<not> cb_read_done cb \<and> cb_read_done cb1"
  shows "fill_post cb r res cb' r'"
  using assms by (cases res) (auto simp: fill_post_def)

lemma copy_fill_spec:
  assumes "fill_ok cb r" and "copy_fill rd cb r = (res, cb', r')"
  shows "fill_post cb r res cb' r'"
  using assms
proof (induction "cb_size cb - cb_len cb + (if cb_read_done cb then 0 else 1)" arbitrary: cb r rule: less_induct)
  case less
  have inv: "cb_inv cb" "src_inv r" using less.prems(1) by (auto simp: fill_ok_def)
  show ?case
  proof (cases "\<not> cb_read_done cb \<and> cb_len cb < cb_size cb")
    case False
    with less.prems have "res = Ok False" "cb' = cb" "r' = r"
      by (simp_all add: copy_fill.simps [of rd cb] split: if_splits)
    with False less.prems(1) show ?thesis by (auto simp: fill_post_def fill_ok_def cb_inv_def)
  next
    case True
    define room where "room = unused_end cb - unused_start cb"
    note ur = unused_range [OF inv(1)]
    have room: "0 < room" using ur True by (simp add: room_def)
    obtain p r1 where r: "rd r room = (p, r1)" by (cases "rd r room")
    have step: "copy_fill rd cb r = (case (p, r1) of
              (Ready (Ok bs), r') \<Rightarrow>
                if bs = [] then copy_fill rd (cb\<lparr>cb_read_done := True\<rparr>) r'
                else if length bs > room then (Panic, cb, r')
                else copy_fill rd
                  (cb\<lparr>cb_buf := overwrite (unused_start cb) bs (cb_buf cb), cb_len := cb_len cb + length bs\<rparr>) r'
            | (Ready (Err e), r') \<Rightarrow> (Err e, cb, r')
            | (Ready Panic, r') \<Rightarrow> (Panic, cb, r')
            | (Pending, r') \<Rightarrow> (Ok True, cb, r'))"
      using True ur(2) r unfolding room_def by (simp add: copy_fill.simps [of rd cb r] Let_def)
    show ?thesis
    proof (cases p)
      case Pending
      with step less.prems(2) have "res = Ok True" "cb' = cb" "r' = r1" by simp_all
      with less.prems(1) src.read_pending [OF inv(2)] r Pending True show ?thesis
        by (auto simp: fill_post_def fill_ok_def)
    next
      case (Ready x)
      show ?thesis
      proof (cases x)
        case (Ok bs)
        have ok: "src_inv r1" "length bs \<le> room" "content r = bs @ content r1" "bs = [] \<longrightarrow> content r = []"
          using src.read_ok [OF inv(2), of room bs r1] r Ready Ok room by auto
        show ?thesis
        proof (cases "bs = []")
          case nil: True
          let ?cb = "cb\<lparr>cb_read_done := True\<rparr>"
          have run: "copy_fill rd ?cb r1 = (res, cb', r')"
            using step less.prems(2) Ready Ok nil by simp
          have "fill_ok ?cb r1" using inv ok nil by (simp add: fill_ok_def cb_inv_def)
          from less.hyps [OF _ this run] True have "fill_post ?cb r1 res cb' r'" by simp
          then show ?thesis
            by (rule fill_post_trans) (use ok nil True in \<open>simp_all add: ring_def\<close>)
        next
          case ne: False
          let ?cb = "cb\<lparr>cb_buf := overwrite (unused_start cb) bs (cb_buf cb), cb_len := cb_len cb + length bs\<rparr>"
          have run: "copy_fill rd ?cb r1 = (res, cb', r')"
            using step less.prems(2) Ready Ok ne ok(2) by simp
          note rf = ring_fill [OF inv(1), of bs]
          have "fill_ok ?cb r1" using rf ok True by (simp add: fill_ok_def room_def)
          from less.hyps [OF _ this run] True ne
          have "fill_post ?cb r1 res cb' r'" by (simp add: room_shrinks_below)
          then show ?thesis
            by (rule fill_post_trans) (use rf ok ne True in \<open>simp_all add: room_def\<close>)
        qed
      next
        case (Err e)
        with step less.prems(2) src.read_err [OF inv(2)] r Ready show ?thesis
          by (auto simp: fill_post_def)
      next
        case Panic
        with src.read_no_panic [OF inv(2)] r Ready show ?thesis by auto
      qed
    qed
  qed
qed

definition drain_post :: "copy_buffer \<Rightarrow> 'w \<Rightarrow> bool res \<Rightarrow> copy_buffer \<Rightarrow> 'w \<Rightarrow> bool" where
  "drain_post cb w res cb' w' \<longleftrightarrow>
     cb_inv cb' \<and> written w' @ ring cb' = written w @ ring cb \<and> cb_read_done cb' = cb_read_done cb
     \<and> cb_need_write_ping cb' = cb_need_write_ping cb \<and>
     (case res of
        Ok pending \<Rightarrow> snk_inv w' \<and> (\<not> pending \<longrightarrow> cb_len cb' = 0)
          \<and> (length (ring cb') < length (ring cb)
             \<or> ring cb' = ring cb \<and> (if pending then snk_delay w' < snk_delay w else w' = w))
      | Err e \<Rightarrow> snk_inv w' \<and> snk_err e
      | Panic \<Rightarrow> False)"

lemma copy_drain_spec:
  assumes "cb_inv cb" and "snk_inv w" and "copy_drain (op_write ops) cb w = (res, cb', w')"
  shows "drain_post cb w res cb' w'"
  using assms
proof (induction "cb_len cb" arbitrary: cb w rule: less_induct)
  case less
  show ?case
  proof (cases "0 < cb_len cb")
    case False
    with less.prems show ?thesis
      by (auto simp: drain_post_def copy_drain.simps [of "op_write ops" cb] split: if_splits)
  next
    case True
    note rf = ring_front_spec [OF less.prems(1) True]
    obtain p w1 where w: "op_write ops w (ring_front cb) = (p, w1)" by (cases "op_write ops w (ring_front cb)")
    have step: "copy_drain (op_write ops) cb w = (case (p, w1) of
              (Ready (Ok written), w') \<Rightarrow>
                if written = 0 then (Err write_zero_byte, cb, w')
                else if written > cb_len cb then (Panic, cb, w')
                else copy_drain (op_write ops) (cb_take written cb) w'
            | (Ready (Err e), w') \<Rightarrow> (Err e, cb, w')
            | (Ready Panic, w') \<Rightarrow> (Panic, cb, w')
            | (Pending, w') \<Rightarrow> (Ok True, cb, w'))"
      using True w less.prems(1)
      by (auto simp: copy_drain.simps [of "op_write ops" cb w] Let_def cb_inv_def cb_take_def ring_front_def
          split: poll.split res.split)
    show ?thesis
    proof (cases p)
      case Pending
      with step less.prems(3) have "res = Ok True" "cb' = cb" "w' = w1" by simp_all
      with less.prems(1) snk.write_pending [OF less.prems(2) rf(1)] w Pending show ?thesis
        by (auto simp: drain_post_def)
    next
      case (Ready x)
      show ?thesis
      proof (cases x)
        case (Ok k)
        have k: "snk_inv w1" "0 < k" "k \<le> length (ring_front cb)" "written w1 = written w @ take k (ring_front cb)"
          using snk.write_ok [OF less.prems(2) rf(1)] w Ready Ok by auto
        have run: "copy_drain (op_write ops) (cb_take k cb) w1 = (res, cb', w')"
          using step less.prems(3) Ready Ok k rf(2) by simp
        note rd = ring_drain [OF less.prems(1) k(2,3) True]
        have "drain_post (cb_take k cb) w1 res cb' w'"
          by (rule less.hyps [OF _ rd(1) k(1) run]) (use k(2) True in \<open>simp add: cb_take_def\<close>)
        moreover have "length (ring (cb_take k cb)) < length (ring cb)"
          using rd(2) k(2) rf(1) by simp
        moreover have "written w1 @ ring (cb_take k cb) = written w @ ring cb"
          using k(4) rd(2) by simp
        moreover have "cb_read_done (cb_take k cb) = cb_read_done cb"
          "cb_need_write_ping (cb_take k cb) = cb_need_write_ping cb"
          by (simp_all add: cb_take_def)
        ultimately show ?thesis
          by (cases res) (auto simp: drain_post_def)
      next
        case (Err e)
        with step less.prems snk.write_err [OF less.prems(2) rf(1)] w Ready show ?thesis
          by (auto simp: drain_post_def)
      next
        case Panic
        with snk.write_no_panic [OF less.prems(2) rf(1)] w Ready show ?thesis by auto
      qed
    qed
  qed
qed

definition copy_ok :: "copy_buffer \<Rightarrow> 'r \<Rightarrow> 'w \<Rightarrow> bool" where
  "copy_ok cb r w \<longleftrightarrow> fill_ok cb r \<and> snk_inv w \<and> (cb_need_write_ping cb \<longrightarrow> pings)"

text \<open>All bytes of the direction: written, cached, still to be read.\<close>

definition all_bytes :: "copy_buffer \<Rightarrow> 'r \<Rightarrow> 'w \<Rightarrow> byte list" where
  "all_bytes cb r w = written w @ ring cb @ content r"

definition copy_rank :: "copy_buffer \<Rightarrow> 'r \<Rightarrow> 'w \<Rightarrow> nat \<times> nat \<times> nat" where
  "copy_rank cb r w =
     (2 * length (content r) + length (ring cb), if cb_read_done cb then 0 else 1, delay r + snk_delay w)"

definition ping_post :: "copy_buffer \<Rightarrow> 'w \<Rightarrow> bool res \<Rightarrow> copy_buffer \<Rightarrow> 'w \<Rightarrow> bool" where
  "ping_post cb w res cb' w' \<longleftrightarrow> cb_inv cb' \<and> ring cb' = ring cb \<and> cb_len cb' = cb_len cb \<and> cb_size cb' = cb_size cb
    \<and> cb_read_done cb' = cb_read_done cb
    \<and> (cb_need_write_ping cb' \<longrightarrow> pings) \<and> written w' = written w \<and>
    (case res of
       Ok pending \<Rightarrow> snk_inv w' \<and> (if pending then snk_delay w' < snk_delay w else snk_delay w' \<le> snk_delay w)
     | Err e \<Rightarrow> snk_inv w' \<and> snk_err e
     | Panic \<Rightarrow> False)"

lemma copy_ping_spec:
  assumes "cb_inv cb" and "snk_inv w" and "cb_need_write_ping cb \<longrightarrow> pings"
    and "copy_ping ops cb w = (res, cb', w')"
  shows "ping_post cb w res cb' w'"
proof (cases "cb_need_write_ping cb \<and> cb_len cb = 0")
  case False
  with assms show ?thesis
    unfolding ping_post_def by (auto simp: copy_ping_def cb_inv_def ring_def split: if_splits)
next
  case True
  obtain p w1 where w: "op_write_ping ops w = (p, w1)" by (cases "op_write_ping ops w")
  have "pings" using True assms(3) by blast
  from ping_law [OF this assms(2) w] assms True w show ?thesis
    unfolding ping_post_def by (auto simp: copy_ping_def cb_inv_def ring_def split: poll.splits res.splits if_splits)
qed

lemma copy_flush_spec:
  assumes "cb_inv cb" and "snk_inv w" and "copy_flush (op_flush ops) cb w = (p, cb', w')"
  shows "cb_inv cb' \<and> ring cb' = ring cb \<and> cb_len cb' = cb_len cb
    \<and> cb_read_done cb' = cb_read_done cb
    \<and> cb_need_write_ping cb' = cb_need_write_ping cb \<and> written w' = written w \<and>
    (case p of
       Ready (Ok _) \<Rightarrow> snk_inv w' \<and> snk_delay w' \<le> snk_delay w
     | Ready (Err e) \<Rightarrow> snk_inv w' \<and> snk_err e
     | Ready Panic \<Rightarrow> False
     | Pending \<Rightarrow> snk_inv w' \<and> snk_delay w' < snk_delay w)"
proof (cases "cb_need_flush cb")
  case False
  with assms show ?thesis by (auto simp: copy_flush_def)
next
  case True
  obtain q w1 where w: "op_flush ops w = (q, w1)" by (cases "op_flush ops w")
  from flush_law [OF assms(2) w] assms True w show ?thesis
    by (auto simp: copy_flush_def cb_inv_def ring_def split: poll.splits res.splits)
qed

definition round_post ::
  "copy_buffer \<Rightarrow> 'r \<Rightarrow> 'w \<Rightarrow> unit res poll option \<Rightarrow> copy_buffer \<Rightarrow> 'r \<Rightarrow> 'w \<Rightarrow> bool" where
  "round_post cb r w res cb' r' w' \<longleftrightarrow>
     (case res of
        Some (Ready (Ok _)) \<Rightarrow> copy_ok cb' r' w' \<and> written w' = all_bytes cb r w \<and> ring cb' = [] \<and> content r' = []
      | Some (Ready (Err e)) \<Rightarrow> src_inv r' \<and> snk_inv w' \<and> (src_err e \<or> snk_err e) \<and> (\<exists>rest. all_bytes cb r w = written w' @ rest)
      | Some (Ready Panic) \<Rightarrow> False
      | _ \<Rightarrow> copy_ok cb' r' w' \<and> all_bytes cb' r' w' = all_bytes cb r w
          \<and> rank_less (copy_rank cb' r' w') (copy_rank cb r w))"

lemma rank_less_moved:
  "2 * length (content r') + length (ring cb') < 2 * length (content r) + length (ring cb) \<Longrightarrow>
   rank_less (copy_rank cb' r' w') (copy_rank cb r w)"
  by (simp add: rank_less_def copy_rank_def)

text \<open>The bytes and the rank after the filling, the ping, the draining and the flush of a round.\<close>

lemma round_progress:
  assumes fill: "fill_post cb r (Ok rp) cb1 r1"
    and pinged: "ping_post cb1 w (Ok pp) cb2 w2"
    and drain: "drain_post cb2 w2 (Ok dp) cb3 w3"
    and flush: "ring cb4 = ring cb3" "cb_read_done cb4 = cb_read_done cb3"
      "if fp then snk_delay w4 < snk_delay w3 else snk_delay w4 \<le> snk_delay w3"
    and some: "rp \<or> pp \<or> dp \<or> fp \<or> 0 < cb_len cb3 \<or> \<not> cb_read_done cb3"
    and inv: "cb_inv cb" "0 < cb_size cb1" "cb_inv cb1"
  shows "rank_less (copy_rank cb4 r1 w4) (copy_rank cb r w)"
proof -
  have ping: "ring cb2 = ring cb1" "cb_read_done cb2 = cb_read_done cb1"
    "if pp then snk_delay w2 < snk_delay w else snk_delay w2 \<le> snk_delay w"
    using pinged by (simp_all add: ping_post_def)
  have len: "length (ring cb1) + length (content r1) = length (ring cb) + length (content r)"
  proof -
    have "ring cb1 @ content r1 = ring cb @ content r" using fill by (simp add: fill_post_def)
    then show ?thesis by (metis length_append)
  qed
  have "length (ring cb3) < length (ring cb2) \<or> ring cb3 = ring cb2"
    "length (content r1) < length (content r) \<or> content r1 = content r"
    using drain fill by (auto simp: drain_post_def fill_post_def)
  then have le: "length (ring cb3) \<le> length (ring cb1)" "length (content r1) \<le> length (content r)"
    using ping(1) by auto
  show ?thesis
  proof (cases "length (content r1) < length (content r) \<or> length (ring cb3) < length (ring cb1)")
    case True
    then show ?thesis
      using len le flush(1) by (intro rank_less_moved) auto
  next
    case False
    then have same: "content r1 = content r" "ring cb3 = ring cb1" "length (ring cb1) = length (ring cb)"
      "if dp then snk_delay w3 < snk_delay w2 else w3 = w2"
      using fill drain ping(1) len by (auto simp: fill_post_def drain_post_def split: if_splits)
    have rd: "cb_read_done cb3 = cb_read_done cb1" using drain ping(2) by (simp add: drain_post_def)
    consider (eof) "\<not> cb_read_done cb" "cb_read_done cb1"
      | (wait) "cb_read_done cb1 = cb_read_done cb" "if rp then delay r1 < delay r else r1 = r"
      using fill False same by (auto simp: fill_post_def)
    then show ?thesis
    proof cases
      case eof
      with same flush rd show ?thesis by (simp add: rank_less_def copy_rank_def)
    next
      case wait
      have "rp \<or> pp \<or> dp \<or> fp"
      proof (rule ccontr)
        assume n: "\<not> (rp \<or> pp \<or> dp \<or> fp)"
        then have "cb_len cb3 = 0" using drain by (auto simp: drain_post_def)
        moreover from n some this have "\<not> cb_read_done cb1" using rd by simp
        with n fill have "cb_len cb1 = cb_size cb1" by (auto simp: fill_post_def)
        ultimately show False
          using same(2) length_ring [OF inv(3)] inv(2) drain length_ring [of cb3]
          by (auto simp: drain_post_def)
      qed
      then have "delay r1 + snk_delay w4 < delay r + snk_delay w"
        using wait(2) ping(3) same(4) flush(3) by (auto split: if_splits)
      with same flush rd wait(1) show ?thesis by (simp add: rank_less_def copy_rank_def)
    qed
  qed
qed

lemma round_bytes:
  assumes "fill_post cb r (Ok rp) cb1 r1" and "ping_post cb1 w (Ok pp) cb2 w2" and "drain_post cb2 w2 d cb3 w3"
  shows "written w3 @ ring cb3 @ content r1 = all_bytes cb r w"
proof -
  have "ring cb1 @ content r1 = ring cb @ content r" "written w3 @ ring cb3 = written w @ ring cb1"
    using assms by (simp_all add: fill_post_def ping_post_def drain_post_def)
  then show ?thesis unfolding all_bytes_def by (metis append_assoc)
qed

text \<open>The end of a round: the flush, and what the round returns.\<close>

lemma round_end_spec:
  assumes fill: "fill_post cb r (Ok rp) cb1 r1" and inv: "cb_inv cb" and ping: "ping_post cb1 w (Ok pp) cb2 w2"
    and drain: "drain_post cb2 w2 (Ok dp) cb3 w3" and flush: "copy_flush (op_flush ops) cb3 w3 = (p, cb4, w4)"
    and res: "res = (if p \<noteq> Ready (Ok ()) then Some p else if cb_read_done cb4 \<and> cb_len cb4 = 0 then Some (Ready (Ok ()))
      else if rp \<or> pp \<or> dp then Some Pending else None)"
  shows "round_post cb r w res cb4 r1 w4"
proof -
  have o1: "fill_ok cb1 r1" "cb_inv cb1" "0 < cb_size cb1" and o3: "cb_inv cb3" "snk_inv w3"
    using fill drain by (auto simp: fill_post_def fill_ok_def drain_post_def cb_inv_def)
  note fl = copy_flush_spec [OF o3 flush]
  have b4: "written w4 @ ring cb4 @ content r1 = all_bytes cb r w" using round_bytes [OF fill ping drain] fl by simp
  have ok4: "copy_ok cb4 r1 w4" if "snk_inv w4"
    using that o1(1) ping drain fl by (auto simp: copy_ok_def fill_ok_def drain_post_def ping_post_def)
  have less: "rank_less (copy_rank cb4 r1 w4) (copy_rank cb r w)"
    if "if fp then snk_delay w4 < snk_delay w3 else snk_delay w4 \<le> snk_delay w3"
      "rp \<or> pp \<or> dp \<or> fp \<or> 0 < cb_len cb3 \<or> \<not> cb_read_done cb3" for fp
    by (rule round_progress [OF fill ping drain]) (use fl that inv o1 in blast)+
  have done_: "ring cb4 = [] \<and> content r1 = []" if "cb_read_done cb4 \<and> cb_len cb4 = 0"
    using that fl ring_empty [of cb4] o1(1) ping drain by (auto simp: fill_ok_def drain_post_def ping_post_def)
  show ?thesis
  proof (cases p rule: poll_res_exhaust)
    case (ok u)
    then have w4: "snk_inv w4" "snk_delay w4 \<le> snk_delay w3" and more: "cb_len cb4 = cb_len cb3" "cb_read_done cb4 = cb_read_done cb3"
      using fl by auto
    with ok res done_ less [of False] b4 ok4 show ?thesis
      by (auto simp: round_post_def all_bytes_def [of cb4])
  next
    case (err e)
    moreover have "\<exists>rest. all_bytes cb r w = written w4 @ rest" using b4 by metis
    ultimately show ?thesis using fl res o1(1) by (auto simp: round_post_def fill_ok_def)
  next
    case pending
    with res fl b4 ok4 less [of True] show ?thesis by (auto simp: round_post_def all_bytes_def [of cb4])
  qed (use fl in simp)
qed

lemma copy_round_spec:
  assumes ok: "copy_ok cb r w" and run: "copy_round rd ops cb r w = (res, cb', r', w')"
  shows "round_post cb r w res cb' r' w'"
proof -
  have fo: "fill_ok cb r" and inv: "cb_inv cb" "snk_inv w" "cb_need_write_ping cb \<longrightarrow> pings"
    using ok by (auto simp: copy_ok_def fill_ok_def)
  obtain f cb1 r1 where fill: "copy_fill rd cb r = (f, cb1, r1)" by (cases "copy_fill rd cb r")
  note fp = copy_fill_spec [OF fo fill]
  show ?thesis
  proof (cases f)
    case (Err e)
    with run fill fp inv(2) show ?thesis
      by (auto simp: copy_round_def round_post_def fill_post_def all_bytes_def)
  next
    case (Ok rp)
    have o1: "src_inv r1" "cb_inv cb1" "cb_need_write_ping cb1 \<longrightarrow> pings"
      using fp Ok inv(3) by (auto simp: fill_post_def fill_ok_def)
    obtain g cb2 w2 where ping: "copy_ping ops cb1 w = (g, cb2, w2)" by (cases "copy_ping ops cb1 w")
    note pp = copy_ping_spec [OF o1(2) inv(2) o1(3) ping]
    obtain d cb3 w3 where drain: "copy_drain (op_write ops) cb2 w2 = (d, cb3, w3)"
      by (cases "copy_drain (op_write ops) cb2 w2")
    obtain p cb4 w4 where flush: "copy_flush (op_flush ops) cb3 w3 = (p, cb4, w4)"
      by (cases "copy_flush (op_flush ops) cb3 w3")
    note step = copy_round_def [of rd ops cb r w] fill Ok ping drain flush
    show ?thesis
    proof (cases g)
      case (Err e)
      with run pp o1(1) show ?thesis by (auto simp: step round_post_def all_bytes_def ping_post_def)
    next
      case g: (Ok pw)
      have "cb_inv cb2" "snk_inv w2" using pp g by (simp_all add: ping_post_def)
      note dp = copy_drain_spec [OF this drain]
      show ?thesis
      proof (cases d)
        case (Err e)
        have "\<exists>rest. all_bytes cb r w = written w3 @ rest"
          using round_bytes [OF fp [unfolded Ok] pp [unfolded g] dp] by metis
        with run dp g Err o1(1) show ?thesis by (auto simp: step round_post_def drain_post_def)
      next
        case d: (Ok dw)
        show ?thesis
          using run g d round_end_spec [OF fp [unfolded Ok] inv(1) pp [unfolded g] dp [unfolded d] flush refl]
          by (cases p rule: poll_res_exhaust) (auto simp: step)
      qed (use dp in \<open>simp add: drain_post_def\<close>)
    qed (use pp in \<open>simp add: ping_post_def\<close>)
  qed (use fp in \<open>simp add: fill_post_def\<close>)
qed

lemma round_post_trans:
  assumes "round_post cb1 r1 w1 (Some p) cb' r' w'" and "all_bytes cb1 r1 w1 = all_bytes cb r w"
    and "rank_less (copy_rank cb1 r1 w1) (copy_rank cb r w)"
  shows "round_post cb r w (Some p) cb' r' w'"
  using assms by (auto simp: round_post_def split: poll.splits res.splits intro: rank_less_trans)

lemma copy_loop_total:
  "copy_ok cb r w \<Longrightarrow>
   \<exists>p cb' r' w'. copy_loop rd ops cb r w = Some (p, cb', r', w') \<and> round_post cb r w (Some p) cb' r' w'"
proof (induction "copy_rank cb r w" arbitrary: cb r w rule: wfp_induct_rule [OF wf_rank_less])
  case 1
  note IH = 1(1) and ok = 1(2)
  obtain o1 cb1 r1 w1 where rnd: "copy_round rd ops cb r w = (o1, cb1, r1, w1)"
    by (cases "copy_round rd ops cb r w")
  note post = copy_round_spec [OF ok rnd]
  show ?case
  proof (cases o1)
    case (Some p)
    with rnd post show ?thesis by (auto simp: copy_loop.simps [of rd ops cb])
  next
    case None
    with post have c: "copy_ok cb1 r1 w1" "all_bytes cb1 r1 w1 = all_bytes cb r w"
      "rank_less (copy_rank cb1 r1 w1) (copy_rank cb r w)"
      by (auto simp: round_post_def)
    from IH [OF c(3) c(1)] obtain p cb' r' w' where
      "copy_loop rd ops cb1 r1 w1 = Some (p, cb', r', w')" "round_post cb1 r1 w1 (Some p) cb' r' w'"
      by blast
    with rnd None c round_post_trans show ?thesis
      by (auto simp: copy_loop.simps [of rd ops cb])
  qed
qed

text \<open>What holds of a direction in each of its states.\<close>

definition transfer_ok :: "transfer_state \<Rightarrow> copy_buffer \<Rightarrow> 'r \<Rightarrow> 'w \<Rightarrow> bool" where
  "transfer_ok st cb r w \<longleftrightarrow>
     (case st of
        Running \<Rightarrow> copy_ok cb r w
      | _ \<Rightarrow> src_inv r \<and> sd_inv w \<and> ring cb = [] \<and> content r = [])"

definition transfer_post ::
  "copy_buffer \<Rightarrow> 'r \<Rightarrow> 'w \<Rightarrow> unit res \<Rightarrow> transfer_state \<Rightarrow> copy_buffer \<Rightarrow> 'r \<Rightarrow> 'w \<Rightarrow> bool" where
  "transfer_post cb r w x st' cb' r' w' \<longleftrightarrow>
     (case x of
        Ok _ \<Rightarrow> st' = Done \<and> written w' = all_bytes cb r w
      | Err e \<Rightarrow> (src_err e \<or> snk_err e) \<and> (\<exists>rest. all_bytes cb r w = written w' @ rest)
      | Panic \<Rightarrow> False)"

lemma transfer_post_trans:
  "transfer_post cb1 r1 w1 x st' cb' r' w' \<Longrightarrow> all_bytes cb1 r1 w1 = all_bytes cb r w \<Longrightarrow>
   transfer_post cb r w x st' cb' r' w'"
  by (cases x) (simp_all add: transfer_post_def)

lemma shutdown_step:
  assumes "sd_inv w" and "ring cb = []" and "content r = []"
  shows "\<exists>p st' w'. transfer_one_direction True rd ops ShuttingDown cb r w = Some (p, st', cb, r, w') \<and>
     (case p of
        Ready x \<Rightarrow> transfer_post cb r w x st' cb r w' \<and> (x = Ok () \<longrightarrow> sd_inv w')
      | Pending \<Rightarrow> st' = ShuttingDown \<and> sd_inv w' \<and> written w' = written w \<and> snk_delay w' < snk_delay w)"
proof -
  obtain p w1 where sd: "op_shutdown ops w = (p, w1)" by (cases "op_shutdown ops w")
  from shutdown_law [OF assms(1) sd] sd assms show ?thesis
    by (cases p) (auto simp: transfer_post_def all_bytes_def split: res.splits)
qed

lemma await_shutdown:
  "sd_inv w \<Longrightarrow> ring cb = [] \<Longrightarrow> content r = [] \<Longrightarrow>
   \<exists>x st' w'. await_transfer rd ops ShuttingDown cb r w = Some (x, st', cb, r, w')
     \<and> transfer_post cb r w x st' cb r w'"
proof (induction "snk_delay w" arbitrary: w rule: less_induct)
  case less
  from shutdown_step [OF less.prems] obtain p st' w'
    where t: "transfer_one_direction True rd ops ShuttingDown cb r w = Some (p, st', cb, r, w')"
      and post: "case p of
          Ready x \<Rightarrow> transfer_post cb r w x st' cb r w' \<and> (x = Ok () \<longrightarrow> sd_inv w')
        | Pending \<Rightarrow> st' = ShuttingDown \<and> sd_inv w' \<and> written w' = written w \<and> snk_delay w' < snk_delay w"
    by blast
  note step = await_transfer.simps [of rd ops ShuttingDown cb r w]
  show ?case
  proof (cases p)
    case (Ready x)
    with t post show ?thesis by (auto simp: step simp del: transfer_one_direction.simps)
  next
    case Pending
    with post have w': "st' = ShuttingDown" "sd_inv w'" "written w' = written w" "snk_delay w' < snk_delay w"
      by auto
    from less.hyps [OF w'(4,2) less.prems(2,3)] obtain x st2 w2
      where "await_transfer rd ops ShuttingDown cb r w' = Some (x, st2, cb, r, w2)"
        "transfer_post cb r w' x st2 cb r w2" by blast
    moreover from this have "transfer_post cb r w x st2 cb r w2"
      using w'(3) by (auto intro: transfer_post_trans simp: all_bytes_def)
    ultimately show ?thesis
      using Pending t w' by (auto simp: step simp del: transfer_one_direction.simps)
  qed
qed

lemma await_transfer_total:
  "copy_ok cb r w \<Longrightarrow>
   \<exists>x st' cb' r' w'. await_transfer rd ops Running cb r w = Some (x, st', cb', r', w')
     \<and> transfer_post cb r w x st' cb' r' w'"
proof (induction "copy_rank cb r w" arbitrary: cb r w rule: wfp_induct_rule [OF wf_rank_less])
  case 1
  note IH = 1(1) and ok = 1(2)
  from copy_loop_total [OF ok] obtain p cb1 r1 w1
    where lp: "copy_loop rd ops cb r w = Some (p, cb1, r1, w1)" and post: "round_post cb r w (Some p) cb1 r1 w1"
    by blast
  note step = await_transfer.simps [of rd ops Running cb r w] poll_copy_def lp
  show ?case
  proof (cases p)
    case Pending
    with post have c: "copy_ok cb1 r1 w1" "all_bytes cb1 r1 w1 = all_bytes cb r w"
      "rank_less (copy_rank cb1 r1 w1) (copy_rank cb r w)"
      by (auto simp: round_post_def)
    have "await_transfer rd ops Running cb r w = await_transfer rd ops Running cb1 r1 w1"
      using Pending by (simp add: step)
    with IH [OF c(3,1)] transfer_post_trans [OF _ c(2)] show ?thesis by metis
  next
    case (Ready x)
    show ?thesis
    proof (cases x)
      case (Ok u)
      with post Ready sd_inv have c: "sd_inv w1" "written w1 = all_bytes cb r w" "ring cb1 = []" "content r1 = []"
        by (auto simp: round_post_def copy_ok_def)
      have "await_transfer rd ops Running cb r w = await_transfer rd ops ShuttingDown cb1 r1 w1"
        using Ready Ok
        by (simp add: step await_transfer.simps [of rd ops ShuttingDown cb1 r1 w1]
            del: transfer_one_direction.simps(2))
      with await_shutdown [OF c(1,3,4)] transfer_post_trans [of cb1 r1 w1 _ _ _ _ _ cb r w] c
      show ?thesis by (auto simp: all_bytes_def)
    next
      case (Err e)
      with post Ready show ?thesis by (auto simp: step round_post_def transfer_post_def)
    next
      case Panic
      with post Ready show ?thesis by (simp add: round_post_def)
    qed
  qed
qed

text \<open>A single poll of a direction, in any of its states.\<close>

definition poll_post ::
  "copy_buffer \<Rightarrow> 'r \<Rightarrow> 'w \<Rightarrow> unit res poll \<Rightarrow> transfer_state \<Rightarrow> copy_buffer \<Rightarrow> 'r \<Rightarrow> 'w \<Rightarrow> bool" where
  "poll_post cb r w p st' cb' r' w' \<longleftrightarrow>
     (case p of
        Ready (Ok _) \<Rightarrow> st' = Done \<and> transfer_ok st' cb' r' w' \<and> written w' = all_bytes cb r w
      | Ready (Err e) \<Rightarrow> src_inv r' \<and> sd_inv w' \<and> (src_err e \<or> snk_err e) \<and> (\<exists>rest. all_bytes cb r w = written w' @ rest)
      | Ready Panic \<Rightarrow> False
      | Pending \<Rightarrow> transfer_ok st' cb' r' w' \<and> all_bytes cb' r' w' = all_bytes cb r w)"

lemma poll_post_trans:
  "poll_post cb1 r1 w1 p st' cb' r' w' \<Longrightarrow> all_bytes cb1 r1 w1 = all_bytes cb r w \<Longrightarrow>
   poll_post cb r w p st' cb' r' w'"
  by (auto simp: poll_post_def split: poll.splits res.splits)

lemma transfer_poll_shutdown:
  assumes "src_inv r" and "sd_inv w" and "ring cb = []" and "content r = []"
  shows "\<exists>p st' w'. transfer_one_direction proceed rd ops ShuttingDown cb r w = Some (p, st', cb, r, w')
     \<and> poll_post cb r w p st' cb r w'"
proof -
  obtain p w2 where sd: "op_shutdown ops w = (p, w2)" by (cases "op_shutdown ops w")
  from shutdown_law [OF assms(2) sd] sd assms show ?thesis
    by (cases p) (auto simp: transfer_ok_def poll_post_def all_bytes_def split: res.splits)
qed

lemma transfer_poll:
  assumes "transfer_ok st cb r w"
  shows "\<exists>p st' cb' r' w'. transfer_one_direction proceed rd ops st cb r w = Some (p, st', cb', r', w')
     \<and> poll_post cb r w p st' cb' r' w'"
proof (cases st)
  case Done
  with assms show ?thesis by (auto simp: transfer_ok_def all_bytes_def poll_post_def)
next
  case ShuttingDown
  with assms have "src_inv r" "sd_inv w" "ring cb = []" "content r = []"
    by (simp_all add: transfer_ok_def)
  from transfer_poll_shutdown [OF this] show ?thesis unfolding ShuttingDown by blast
next
  case Running
  have ok: "copy_ok cb r w" using assms Running by (simp add: transfer_ok_def)
  show ?thesis
  proof (cases proceed)
    case False
    with Running assms show ?thesis
      by (simp add: poll_copy_def poll_post_def)
  next
    case True
    obtain p cb1 r1 w1 where lp: "copy_loop rd ops cb r w = Some (p, cb1, r1, w1)"
      and post: "round_post cb r w (Some p) cb1 r1 w1"
      using copy_loop_total [OF ok] by blast
    show ?thesis
    proof (cases "p = Ready (Ok ())")
      case fin: True
      with post sd_inv have c: "src_inv r1" "sd_inv w1" "ring cb1 = []" "content r1 = []"
        "all_bytes cb1 r1 w1 = all_bytes cb r w"
        by (auto simp: round_post_def copy_ok_def fill_ok_def all_bytes_def [of cb1])
      have "transfer_one_direction proceed rd ops st cb r w
          = transfer_one_direction proceed rd ops ShuttingDown cb1 r1 w1"
        using True Running fin lp by (simp add: poll_copy_def del: transfer_one_direction.simps(2))
      with transfer_poll_shutdown [OF c(1-4)] poll_post_trans [OF _ c(5)] show ?thesis by metis
    next
      case False
      have "transfer_one_direction proceed rd ops st cb r w = Some (p, Running, cb1, r1, w1)"
        using True Running False lp by (simp add: poll_copy_def split: poll.split res.split)
      moreover have "poll_post cb r w p Running cb1 r1 w1"
        using post False sd_inv by (auto simp: round_post_def poll_post_def transfer_ok_def split: poll.splits res.splits)
      ultimately show ?thesis by blast
    qed
  qed
qed

end

section \<open>Both directions\<close>

text \<open>A stream that is read and written independently: reading leaves what was written as it is,
  writing leaves what is still to be read as it is, and so do flushing, pinging and shutting
  down. This is what the copy loop expects of both its streams.\<close>

locale duplex_stream =
  fixes ops :: "'s async_stream"
    and content :: "'s \<Rightarrow> byte list" and written :: "'s \<Rightarrow> byte list" and inv :: "'s \<Rightarrow> bool"
    and rd_delay :: "'s \<Rightarrow> nat" and wr_delay :: "'s \<Rightarrow> nat" and io_err :: "io_error \<Rightarrow> bool"
    and pings :: bool
  assumes duplex_read: "byte_source (op_read ops) content (\<lambda>s. inv s \<and> written s = ws) rd_delay io_err"
    and duplex_write: "byte_sink (op_write ops) written (\<lambda>s. inv s \<and> content s = cs) wr_delay io_err"
    and duplex_flush: "inv s \<Longrightarrow> op_flush ops s = (p, s') \<Longrightarrow> written s' = written s \<and>
      (case p of
         Ready (Ok _) \<Rightarrow> inv s' \<and> content s' = content s \<and> wr_delay s' \<le> wr_delay s
       | Ready (Err e) \<Rightarrow> inv s' \<and> content s' = content s \<and> io_err e
       | Ready Panic \<Rightarrow> False
       | Pending \<Rightarrow> inv s' \<and> content s' = content s \<and> wr_delay s' < wr_delay s)"
    and duplex_ping: "pings \<Longrightarrow> inv s \<Longrightarrow> op_write_ping ops s = (q, s') \<Longrightarrow> written s' = written s \<and>
      (case q of
         Ready (Ok _) \<Rightarrow> inv s' \<and> content s' = content s \<and> wr_delay s' \<le> wr_delay s
       | Ready (Err e) \<Rightarrow> inv s' \<and> content s' = content s \<and> io_err e
       | Ready Panic \<Rightarrow> False
       | Pending \<Rightarrow> inv s' \<and> content s' = content s \<and> wr_delay s' < wr_delay s)"
    and duplex_shutdown: "inv s \<Longrightarrow> op_shutdown ops s = (p, s') \<Longrightarrow> written s' = written s \<and>
      (case p of
         Ready (Ok _) \<Rightarrow> inv s' \<and> content s' = content s
       | Ready (Err e) \<Rightarrow> inv s' \<and> content s' = content s \<and> io_err e
       | Ready Panic \<Rightarrow> False
       | Pending \<Rightarrow> inv s' \<and> content s' = content s \<and> wr_delay s' < wr_delay s)"
    and duplex_supports: "op_supports_ping ops s \<Longrightarrow> pings"

lemma duplex_copy_dir:
  assumes "duplex_stream opa ca wa inva rda wra ea pa" and "duplex_stream opb cb wb invb rdb wrb eb pb"
  shows "copy_dir (op_read opa) ca (\<lambda>s. inva s \<and> wa s = ws) rda ea
    opb wb (\<lambda>s. invb s \<and> cb s = cs) wrb eb pb (\<lambda>s. invb s \<and> cb s = cs)"
proof (intro copy_dir.intro copy_dir_axioms.intro, goal_cases)
  case 1
  show ?case by (rule duplex_stream.duplex_read [OF assms(1)])
next
  case 2
  show ?case by (rule duplex_stream.duplex_write [OF assms(2)])
next
  case (3 w p w')
  then show ?case using duplex_stream.duplex_flush [OF assms(2), of w p w']
    by (auto split: poll.splits res.splits)
next
  case (4 w p w')
  then show ?case using duplex_stream.duplex_ping [OF assms(2), of w p w']
    by (auto split: poll.splits res.splits)
next
  case (5 w p w')
  then show ?case using duplex_stream.duplex_shutdown [OF assms(2), of w p w']
    by (auto split: poll.splits res.splits)
qed simp

definition dir_ok :: "bool \<Rightarrow> transfer_state \<Rightarrow> copy_buffer \<Rightarrow> byte list \<Rightarrow> bool" where
  "dir_ok pings st cb cs \<longleftrightarrow>
     (case st of
        Running \<Rightarrow> cb_inv cb \<and> (cb_read_done cb \<longrightarrow> cs = []) \<and> (cb_need_write_ping cb \<longrightarrow> pings)
      | _ \<Rightarrow> ring cb = [] \<and> cs = [])"

lemma dir_ok_Done [simp]: "dir_ok pings Done cb cs \<longleftrightarrow> ring cb = [] \<and> cs = []"
  by (simp add: dir_ok_def)

lemma duplex_transfer_poll:
  assumes "duplex_stream opa ca wa inva rda wra ea pa" and "duplex_stream opb cb wb invb rdb wrb eb pb"
    and "inva a" and "invb b" and "dir_ok pb st buf (ca a)"
  shows "\<exists>p st' buf' a' b'. transfer_one_direction proceed (op_read opa) opb st buf a b = Some (p, st', buf', a', b')
     \<and> inva a' \<and> invb b' \<and> wa a' = wa a \<and> cb b' = cb b \<and>
     (case p of
        Ready (Ok _) \<Rightarrow> st' = Done \<and> dir_ok pb st' buf' (ca a') \<and> wb b' = wb b @ ring buf @ ca a
      | Ready (Err e) \<Rightarrow> (ea e \<or> eb e) \<and> (\<exists>rest. wb b @ ring buf @ ca a = wb b' @ rest)
      | Ready Panic \<Rightarrow> False
      | Pending \<Rightarrow> dir_ok pb st' buf' (ca a') \<and> wb b' @ ring buf' @ ca a' = wb b @ ring buf @ ca a)"
proof -
  note cd = duplex_copy_dir [OF assms(1,2), of "wa a" "cb b"]
  note defs = copy_dir.transfer_ok_def [OF cd] copy_dir.copy_ok_def [OF cd] copy_dir.fill_ok_def [OF cd]
    copy_dir.poll_post_def [OF cd] copy_dir.all_bytes_def [OF cd]
  have ok: "copy_dir.transfer_ok ca (\<lambda>s. inva s \<and> wa s = wa a) (\<lambda>s. invb s \<and> cb s = cb b) pb
      (\<lambda>s. invb s \<and> cb s = cb b) st buf a b"
    using assms(3-5) by (cases st) (auto simp: defs dir_ok_def)
  obtain p st' buf' a' b' where run: "transfer_one_direction proceed (op_read opa) opb st buf a b = Some (p, st', buf', a', b')"
    and post: "copy_dir.poll_post ca (\<lambda>s. inva s \<and> wa s = wa a) ea wb (\<lambda>s. invb s \<and> cb s = cb b) eb pb
      (\<lambda>s. invb s \<and> cb s = cb b) buf a b p st' buf' a' b'"
    using copy_dir.transfer_poll [OF cd ok, of proceed] by blast
  have "inva a' \<and> invb b' \<and> wa a' = wa a \<and> cb b' = cb b"
    using post by (cases st') (auto simp: defs split: poll.splits res.splits)
  moreover have "case p of
        Ready (Ok _) \<Rightarrow> st' = Done \<and> dir_ok pb st' buf' (ca a') \<and> wb b' = wb b @ ring buf @ ca a
      | Ready (Err e) \<Rightarrow> (ea e \<or> eb e) \<and> (\<exists>rest. wb b @ ring buf @ ca a = wb b' @ rest)
      | Ready Panic \<Rightarrow> False
      | Pending \<Rightarrow> dir_ok pb st' buf' (ca a') \<and> wb b' @ ring buf' @ ca a' = wb b @ ring buf @ ca a"
    using post by (cases st') (auto simp: defs dir_ok_def split: poll.splits res.splits)
  ultimately show ?thesis using run by blast
qed

text \<open>What holds of the future that copies in both directions, and all the bytes of each of them.\<close>

definition bidi_ok ::
  "('a \<Rightarrow> byte list) \<Rightarrow> ('a \<Rightarrow> bool) \<Rightarrow> bool \<Rightarrow> ('b \<Rightarrow> byte list) \<Rightarrow> ('b \<Rightarrow> bool) \<Rightarrow> bool \<Rightarrow>
   ('a, 'b) copy_bidi \<Rightarrow> bool" where
  "bidi_ok ca inva pa cb invb pb c \<longleftrightarrow> inva (bi_a c) \<and> invb (bi_b c)
     \<and> dir_ok pb (bi_a_to_b c) (bi_a_buf c) (ca (bi_a c)) \<and> dir_ok pa (bi_b_to_a c) (bi_b_buf c) (cb (bi_b c))"

definition bytes_to_b ::
  "('a \<Rightarrow> byte list) \<Rightarrow> ('b \<Rightarrow> byte list) \<Rightarrow> ('a, 'b) copy_bidi \<Rightarrow> byte list" where
  "bytes_to_b ca wb c = wb (bi_b c) @ ring (bi_a_buf c) @ ca (bi_a c)"

definition bytes_to_a ::
  "('a \<Rightarrow> byte list) \<Rightarrow> ('b \<Rightarrow> byte list) \<Rightarrow> ('a, 'b) copy_bidi \<Rightarrow> byte list" where
  "bytes_to_a wa cb c = wa (bi_a c) @ ring (bi_b_buf c) @ cb (bi_b c)"

lemma bidi_timer_ok:
  assumes "duplex_stream opa ca wa inva rda wra ea pa" and "duplex_stream opb cb wb invb rdb wrb eb pb"
    and "bidi_ok ca inva pa cb invb pb c"
  shows "bidi_ok ca inva pa cb invb pb (bidi_timer now opa opb c)
     \<and> bytes_to_b ca wb (bidi_timer now opa opb c) = bytes_to_b ca wb c
     \<and> bytes_to_a wa cb (bidi_timer now opa opb c) = bytes_to_a wa cb c"
proof -
  have r: "ring (b\<lparr>cb_need_write_ping := x\<rparr>) = ring b" for b x by (simp add: ring_def)
  have d: "dir_ok ps st (b\<lparr>cb_need_write_ping := x\<rparr>) cs" if "dir_ok ps st b cs" "x \<longrightarrow> ps" for ps st b x cs
    using that r by (cases st) (auto simp: dir_ok_def cb_inv_def)
  show ?thesis
    using assms(3) duplex_stream.duplex_supports [OF assms(1)] duplex_stream.duplex_supports [OF assms(2)]
    by (auto simp: bidi_timer_def bidi_ok_def bytes_to_b_def bytes_to_a_def r intro!: d split: option.split)
qed

lemma bidi_poll_step:
  assumes "duplex_stream opa ca wa inva rda wra ea pa" and "duplex_stream opb cb wb invb rdb wrb eb pb"
    and "bidi_ok ca inva pa cb invb pb c"
  shows "\<exists>p c'. bidi_poll now proceed_a proceed_b opa opb c = Some (p, c') \<and> inva (bi_a c') \<and> invb (bi_b c') \<and>
     (case p of
        Ready (Ok _) \<Rightarrow> wb (bi_b c') = bytes_to_b ca wb c \<and> wa (bi_a c') = bytes_to_a wa cb c
      | Ready (Err e) \<Rightarrow> (ea e \<or> eb e)
          \<and> (\<exists>rest. bytes_to_b ca wb c = wb (bi_b c') @ rest) \<and> (\<exists>rest. bytes_to_a wa cb c = wa (bi_a c') @ rest)
      | Ready Panic \<Rightarrow> False
      | Pending \<Rightarrow> bidi_ok ca inva pa cb invb pb c' \<and> bytes_to_b ca wb c' = bytes_to_b ca wb c
          \<and> bytes_to_a wa cb c' = bytes_to_a wa cb c)"
proof -
  define d where "d = bidi_timer now opa opb c"
  have d: "bidi_ok ca inva pa cb invb pb d" "bytes_to_b ca wb d = bytes_to_b ca wb c"
    "bytes_to_a wa cb d = bytes_to_a wa cb c"
    using bidi_timer_ok [OF assms] by (auto simp: d_def)
  have ia: "inva (bi_a d)" "invb (bi_b d)" "dir_ok pb (bi_a_to_b d) (bi_a_buf d) (ca (bi_a d))"
    "dir_ok pa (bi_b_to_a d) (bi_b_buf d) (cb (bi_b d))"
    using d(1) by (auto simp: bidi_ok_def)
  have to_b: "wb (bi_b d) @ ring (bi_a_buf d) @ ca (bi_a d) = bytes_to_b ca wb c"
    by (subst d(2) [symmetric]) (simp add: bytes_to_b_def)
  obtain p sa ba a1 b1 where
    run1: "transfer_one_direction proceed_a (op_read opa) opb (bi_a_to_b d) (bi_a_buf d) (bi_a d) (bi_b d)
        = Some (p, sa, ba, a1, b1)"
    and i1: "inva a1" "invb b1" "wa a1 = wa (bi_a d)" "cb b1 = cb (bi_b d)"
    and p1: "case p of
        Ready (Ok _) \<Rightarrow> sa = Done \<and> dir_ok pb sa ba (ca a1) \<and> wb b1 = bytes_to_b ca wb c
      | Ready (Err e) \<Rightarrow> (ea e \<or> eb e) \<and> (\<exists>rest. bytes_to_b ca wb c = wb b1 @ rest)
      | Ready Panic \<Rightarrow> False
      | Pending \<Rightarrow> dir_ok pb sa ba (ca a1) \<and> wb b1 @ ring ba @ ca a1 = bytes_to_b ca wb c"
    using duplex_transfer_poll [OF assms(1,2) ia(1-3), of proceed_a] unfolding to_b by blast
  have ib: "dir_ok pa (bi_b_to_a d) (bi_b_buf d) (cb b1)" using ia(4) i1(4) by simp
  have to_a: "wa a1 @ ring (bi_b_buf d) @ cb b1 = bytes_to_a wa cb c"
    unfolding i1(3,4) by (subst d(3) [symmetric]) (simp add: bytes_to_a_def)
  obtain q sb bb b2 a2 where
    run2: "transfer_one_direction proceed_b (op_read opb) opa (bi_b_to_a d) (bi_b_buf d) b1 a1
        = Some (q, sb, bb, b2, a2)"
    and i2: "inva a2" "invb b2" "wb b2 = wb b1" "ca a2 = ca a1"
    and p2: "case q of
        Ready (Ok _) \<Rightarrow> sb = Done \<and> dir_ok pa sb bb (cb b2) \<and> wa a2 = bytes_to_a wa cb c
      | Ready (Err e) \<Rightarrow> (eb e \<or> ea e) \<and> (\<exists>rest. bytes_to_a wa cb c = wa a2 @ rest)
      | Ready Panic \<Rightarrow> False
      | Pending \<Rightarrow> dir_ok pa sb bb (cb b2) \<and> wa a2 @ ring bb @ cb b2 = bytes_to_a wa cb c"
    using duplex_transfer_poll [OF assms(2,1) i1(2,1) ib, of proceed_b] unfolding to_a by blast
  let ?c = "d\<lparr>bi_a := a2, bi_b := b2, bi_a_buf := ba, bi_b_buf := bb, bi_a_to_b := sa, bi_b_to_a := sb\<rparr>"
  have run: "bidi_poll now proceed_a proceed_b opa opb c = Some (bidi_result p q, ?c)"
    using run1 run2 by (simp add: bidi_poll_def Let_def flip: d_def)
  have pre_b: "\<exists>rest. bytes_to_b ca wb c = wb b2 @ rest"
  proof (cases p rule: poll_res_exhaust)
    case pending
    with p1 show ?thesis unfolding i2(3) by auto metis
  qed (use p1 i2(3) in auto)
  have pre_a: "\<exists>rest. bytes_to_a wa cb c = wa a2 @ rest"
  proof (cases q rule: poll_res_exhaust)
    case pending
    with p2 show ?thesis by auto metis
  qed (use p2 in auto)
  have after: "bytes_to_b ca wb ?c = wb b1 @ ring ba @ ca a1" "bytes_to_a wa cb ?c = wa a2 @ ring bb @ cb b2"
    using i2 by (simp_all add: bytes_to_b_def bytes_to_a_def)
  show ?thesis
  proof (cases p rule: poll_res_exhaust)
    case err
    with p1 p2 pre_a pre_b show ?thesis
      by (cases q rule: poll_res_exhaust) (auto simp: run i2(1,2) bidi_result_def)
  next
    case panic
    with p1 show ?thesis by simp
  next
    case (ok x)
    with p1 p2 pre_a pre_b i2 after run show ?thesis
      by (cases q rule: poll_res_exhaust) (auto simp: bidi_result_def bidi_ok_def)
  next
    case pending
    with p1 p2 pre_a pre_b i2 after run show ?thesis
      by (cases q rule: poll_res_exhaust) (auto simp: bidi_result_def bidi_ok_def)
  qed
qed

section \<open>A whole copy\<close>

text \<open>What a copy that ended left behind.\<close>

definition copied ::
  "('a \<Rightarrow> byte list) \<Rightarrow> ('a \<Rightarrow> byte list) \<Rightarrow> ('a \<Rightarrow> bool) \<Rightarrow> (io_error \<Rightarrow> bool) \<Rightarrow>
   ('b \<Rightarrow> byte list) \<Rightarrow> ('b \<Rightarrow> byte list) \<Rightarrow> ('b \<Rightarrow> bool) \<Rightarrow> (io_error \<Rightarrow> bool) \<Rightarrow>
   ('a, 'b) copy_bidi \<Rightarrow> unit res \<Rightarrow> 'a \<Rightarrow> 'b \<Rightarrow> bool" where
  "copied ca wa inva ea cb wb invb eb c r a b \<longleftrightarrow> inva a \<and> invb b \<and>
     (case r of
        Ok _ \<Rightarrow> wb b = bytes_to_b ca wb c \<and> wa a = bytes_to_a wa cb c
      | Err e \<Rightarrow> (ea e \<or> eb e)
          \<and> (\<exists>rest. bytes_to_b ca wb c = wb b @ rest) \<and> (\<exists>rest. bytes_to_a wa cb c = wa a @ rest)
      | Panic \<Rightarrow> False)"

lemma copied_cong:
  "bytes_to_b ca wb c' = bytes_to_b ca wb c \<Longrightarrow> bytes_to_a wa cb c' = bytes_to_a wa cb c \<Longrightarrow>
   copied ca wa inva ea cb wb invb eb c' r a b \<Longrightarrow> copied ca wa inva ea cb wb invb eb c r a b"
  unfolding copied_def by (cases r) auto

lemma await_bidi_conserves:
  assumes da: "duplex_stream opa ca wa inva rda wra ea pa" and db: "duplex_stream opb cb wb invb rdb wrb eb pb"
    and run: "await_bidi clock budget k opa opb c = Some y" and ok: "bidi_ok ca inva pa cb invb pb c"
  shows "copied ca wa inva ea cb wb invb eb c (fst y) (bi_a (snd y)) (bi_b (snd y))"
proof -
  let ?P = "\<lambda>clock budget k oa ob c y. oa = opa \<longrightarrow> ob = opb \<longrightarrow> bidi_ok ca inva pa cb invb pb c \<longrightarrow>
    copied ca wa inva ea cb wb invb eb c (fst y) (bi_a (snd y)) (bi_b (snd y))"
  have "?P clock budget k opa opb c y"
    using run
  proof (rule await_bidi.raw_induct [where P = ?P, rotated], intro impI)
    fix f clock budget k oa ob c y
    assume IH: "\<And>clock budget k oa ob c y. f clock budget k oa ob c = Some y \<Longrightarrow> ?P clock budget k oa ob c y"
      and body: "Option.bind (bidi_poll (clock k) (fst (budget k)) (snd (budget k)) oa ob c) (\<lambda>(p, c').
          case p of Ready r \<Rightarrow> Some (r, c') | Pending \<Rightarrow> f clock budget (Suc k) oa ob c') = Some y"
      and ops: "oa = opa" "ob = opb" and ok: "bidi_ok ca inva pa cb invb pb c"
    obtain p c' where p: "bidi_poll (clock k) (fst (budget k)) (snd (budget k)) opa opb c = Some (p, c')"
      and inv: "inva (bi_a c')" "invb (bi_b c')"
      and post: "case p of
          Ready (Ok _) \<Rightarrow> wb (bi_b c') = bytes_to_b ca wb c \<and> wa (bi_a c') = bytes_to_a wa cb c
        | Ready (Err e) \<Rightarrow> (ea e \<or> eb e)
            \<and> (\<exists>rest. bytes_to_b ca wb c = wb (bi_b c') @ rest) \<and> (\<exists>rest. bytes_to_a wa cb c = wa (bi_a c') @ rest)
        | Ready Panic \<Rightarrow> False
        | Pending \<Rightarrow> bidi_ok ca inva pa cb invb pb c' \<and> bytes_to_b ca wb c' = bytes_to_b ca wb c
            \<and> bytes_to_a wa cb c' = bytes_to_a wa cb c"
      using bidi_poll_step [OF da db ok] by blast
    show "copied ca wa inva ea cb wb invb eb c (fst y) (bi_a (snd y)) (bi_b (snd y))"
    proof (cases p rule: poll_res_exhaust)
      case pending
      with body ops p have "f clock budget (Suc k) opa opb c' = Some y" by simp
      from IH [OF this] post pending show ?thesis by (auto intro: copied_cong [rotated 2])
    qed (use body ops p inv post in \<open>auto simp: copied_def\<close>)
  qed
  with ok show ?thesis by blast
qed

text \<open>Awaiting a shutdown comes to an end and writes nothing.\<close>

lemma await_duplex_shutdown:
  assumes "duplex_stream ops ct wt ok rdd wrd er pg" and "ok s"
  shows "\<exists>r s'. await_flush (op_shutdown ops) s = Some (r, s') \<and> ok s' \<and> wt s' = wt s"
proof -
  have "ok s' \<and> wt s' = wt s \<and> p \<noteq> Ready Panic \<and> (p = Pending \<longrightarrow> wrd s' < wrd s)"
    if "ok s" "op_shutdown ops s = (p, s')" for s p s'
    using duplex_stream.duplex_shutdown [OF assms(1) that] by (auto split: poll.splits res.splits)
  from await_settles [where ok = ok and kept = wt and left_over = wrd and fl = "op_shutdown ops", OF this assms(2)]
  show ?thesis by blast
qed

lemma await_duplex_flush:
  assumes "duplex_stream ops ct wt ok rdd wrd er pg" and "ok s"
  shows "\<exists>r s'. await_flush (op_flush ops) s = Some (r, s') \<and> ok s' \<and> wt s' = wt s \<and> ct s' = ct s \<and> r \<noteq> Panic"
proof -
  have "ok s' \<and> (wt s', ct s') = (wt s, ct s) \<and> p \<noteq> Ready Panic \<and> (p = Pending \<longrightarrow> wrd s' < wrd s)"
    if "ok s" "op_flush ops s = (p, s')" for s p s'
    using duplex_stream.duplex_flush [OF assms(1) that] by (auto split: poll.splits res.splits)
  from await_settles [where ok = ok and kept = "\<lambda>s. (wt s, ct s)" and left_over = wrd and fl = "op_flush ops",
      OF this assms(2)]
  show ?thesis by simp
qed

text \<open>Writing all of a buffer to a stream.\<close>

lemma duplex_write_all:
  assumes "duplex_stream ops ct wt ok rdd wrd er pg" and "ok s"
  shows "\<exists>r s'. write_all (op_write ops) s bs = Some (r, s') \<and> ok s' \<and> ct s' = ct s \<and>
    (case r of
       Ok _ \<Rightarrow> wt s' = wt s @ bs
     | Err e \<Rightarrow> (\<exists>rest. wt s @ bs = wt s' @ rest)
     | Panic \<Rightarrow> False)"
proof -
  obtain r s' where w: "write_all (op_write ops) s bs = Some (r, s')" and inv: "ok s' \<and> ct s' = ct s"
    and post: "case r of
        Ok _ \<Rightarrow> wt s' = wt s @ bs
      | Err e \<Rightarrow> er e \<and> (\<exists>k < length bs. wt s' = wt s @ take k bs)
      | Panic \<Rightarrow> False"
    using byte_sink.write_all_total [OF duplex_stream.duplex_write [OF assms(1), of "ct s"], of s bs] assms(2) by blast
  have "\<exists>rest. wt s @ bs = wt s' @ rest" if "wt s' = wt s @ take k bs" for k
    using that by (metis append.assoc append_take_drop_id)
  with w inv post show ?thesis by (cases r) auto
qed

lemma run_copy_conserves:
  assumes da: "duplex_stream opa ca wa inva rda wra ea pa" and db: "duplex_stream opb cb wb invb rdb wrb eb pb"
    and run: "run_copy ce opa opb c = Some (r, a', b')" and ok: "bidi_ok ca inva pa cb invb pb c"
  shows "copied ca wa inva ea cb wb invb eb c r a' b'"
proof -
  obtain c' where aw: "await_bidi (ce_clock ce) (ce_budget ce) 0 opa opb c = Some (r, c')"
    and sh: "\<exists>x. await_flush (op_shutdown opa) (bi_a c') = Some (x, a')" "\<exists>x. await_flush (op_shutdown opb) (bi_b c') = Some (x, b')"
    using run unfolding run_copy_def by (auto simp: bind_eq_Some_conv)
  have done_: "copied ca wa inva ea cb wb invb eb c r (bi_a c') (bi_b c')"
    using await_bidi_conserves [OF da db aw ok] by simp
  then have inv: "inva (bi_a c')" "invb (bi_b c')" by (simp_all add: copied_def)
  have "inva a'" "wa a' = wa (bi_a c')" "invb b'" "wb b' = wb (bi_b c')"
    using await_duplex_shutdown [OF da inv(1)] await_duplex_shutdown [OF db inv(2)] sh by auto
  with done_ show ?thesis unfolding copied_def by (cases r) auto
qed

text \<open>The copy as it starts: nothing is cached.\<close>

lemma bidi_start:
  assumes "inva a" and "invb b" and "0 < n" and "0 < m"
    and c_def: "c = copy_bidirectional_with_sizes mem now opa opb a b fa fb n m"
  shows "bidi_ok ca inva pa cb invb pb c" and "bytes_to_b ca wb c = wb b @ ca a" and "bytes_to_a wa cb c = wa a @ cb b"
proof -
  have "\<not> cb_need_write_ping (copy_buffer_new mem sz fl)" for sz fl by (simp add: copy_buffer_new_def)
  then show "bidi_ok ca inva pa cb invb pb c"
    using assms(1-4) cb_new_spec unfolding c_def copy_bidirectional_with_sizes_def bidi_ok_def dir_ok_def by simp
  show "bytes_to_b ca wb c = wb b @ ca a" "bytes_to_a wa cb c = wa a @ cb b"
    unfolding c_def copy_bidirectional_with_sizes_def bytes_to_b_def bytes_to_a_def by (simp_all add: cb_new_spec)
qed

section \<open>A scripted peer\<close>

text \<open>A duplex stream given by two scripts, what it delivers and how it accepts, and what it has
  taken so far.\<close>

type_synonym peer = "script_item list \<times> accept_item list \<times> byte list"

definition peer_ops :: "peer async_stream" where
  "peer_ops = tls_stream
     (\<lambda>(inp, w) n. let (p, inp') = script_read inp n in (p, (inp', w)))
     (\<lambda>(inp, w) bs. let (p, w') = script_write w bs in (p, (inp, w')))
     (\<lambda>s. (Ready (Ok ()), s)) (\<lambda>s. (Ready (Ok ()), s))"

lemma peer_ops_simps [simp]:
  "op_read peer_ops (inp, w) n = (fst (script_read inp n), (snd (script_read inp n), w))"
  "op_write peer_ops (inp, w) bs = (fst (script_write w bs), (inp, snd (script_write w bs)))"
  "op_flush peer_ops s = (Ready (Ok ()), s)" "op_shutdown peer_ops s = (Ready (Ok ()), s)"
  "op_write_ping peer_ops s = (Ready (Ok False), s)" "op_supports_ping peer_ops s = False"
  by (simp_all add: peer_ops_def tls_stream_def split_beta Let_def)

interpretation peer: duplex_stream peer_ops "\<lambda>s. script_content (fst s)" "\<lambda>s. snd (snd s)" "\<lambda>s. script_inv (fst s)"
    "\<lambda>s. length (fst s)" "\<lambda>s. length (fst (snd s))" "\<lambda>_. True" False
proof (unfold_locales, goal_cases)
  case (1 ws s n bs s')
  then show ?case using script.read_ok [of "fst s" n bs "fst s'"]
    by (cases s; cases "script_read (fst s) n") auto
next
  case (2 ws s n e s')
  then show ?case using script.read_err [of "fst s" n e "fst s'"]
    by (cases s; cases "script_read (fst s) n") auto
next
  case (3 ws s n s')
  then show ?case using script.read_pending [of "fst s" n "fst s'"]
    by (cases s; cases "script_read (fst s) n") auto
next
  case (4 ws s n s')
  then show ?case using script.read_no_panic [of "fst s" n "fst s'"]
    by (cases s; cases "script_read (fst s) n") auto
next
  case (5 cs w bs k w')
  then show ?case using script_sink.write_ok [of bs "snd w" k "snd w'"]
    by (cases w; cases "script_write (snd w) bs") auto
next
  case (6 cs w bs e w')
  then show ?case using script_sink.write_err [of bs "snd w" e "snd w'"]
    by (cases w; cases "script_write (snd w) bs") auto
next
  case (7 cs w bs w')
  then show ?case using script_sink.write_pending [of bs "snd w" "snd w'"]
    by (cases w; cases "script_write (snd w) bs") auto
next
  case (8 cs w bs w')
  then show ?case using script_sink.write_no_panic [of bs "snd w" "snd w'"]
    by (cases w; cases "script_write (snd w) bs") auto
qed auto

interpretation peer_copy: copy_dir "op_read peer_ops" "\<lambda>s. script_content (fst s)"
    "\<lambda>s. script_inv (fst s) \<and> snd (snd s) = ws" "\<lambda>s. length (fst s)" "\<lambda>_. True"
    peer_ops "\<lambda>s. snd (snd s)" "\<lambda>s. script_inv (fst s) \<and> script_content (fst s) = cs"
    "\<lambda>s. length (fst (snd s))" "\<lambda>_. True" False "\<lambda>s. script_inv (fst s) \<and> script_content (fst s) = cs"
  for ws cs
  by (rule duplex_copy_dir [OF peer.duplex_stream_axioms peer.duplex_stream_axioms])

section \<open>Properties\<close>



text \<open>One poll of the bidirectional copy keeps the two directions apart and conserves the bytes
  of each: what is written to a stream, followed by what is cached for it and what its peer
  still delivers, stays the same. When the poll completes, all bytes of both directions have
  been written; when it fails, with an error of one of the streams, each stream has got a
  beginning of what was for it. The poll itself always returns and does not panic.\<close>

theorem bidi_poll_conserves:
  assumes "duplex_stream opa ca wa inva rda wra ea pa" and "duplex_stream opb cb wb invb rdb wrb eb pb"
    and "bidi_ok ca inva pa cb invb pb c"
  shows "\<exists>p c'. bidi_poll now proceed_a proceed_b opa opb c = Some (p, c') \<and>
     (case p of
        Ready (Ok _) \<Rightarrow> wb (bi_b c') = bytes_to_b ca wb c \<and> wa (bi_a c') = bytes_to_a wa cb c
      | Ready (Err e) \<Rightarrow> (ea e \<or> eb e)
          \<and> (\<exists>rest. bytes_to_b ca wb c = wb (bi_b c') @ rest) \<and> (\<exists>rest. bytes_to_a wa cb c = wa (bi_a c') @ rest)
      | Ready Panic \<Rightarrow> False
      | Pending \<Rightarrow> bidi_ok ca inva pa cb invb pb c' \<and> bytes_to_b ca wb c' = bytes_to_b ca wb c
          \<and> bytes_to_a wa cb c' = bytes_to_a wa cb c)"
  using bidi_poll_step [OF assms] by blast

theorem bidi_poll_conserves_witness:
  "let c = copy_bidirectional_with_sizes (\<lambda>_. 0) 0 peer_ops peer_ops
         ([Chunk [1, 2, 3], Wait, Chunk [4]], [], []) ([Chunk [9], Wait], [Accept 0, AcceptWait], []) False False 2 2
   in \<exists>p c'. bidi_poll 5 True True peer_ops peer_ops c = Some (p, c') \<and>
     (case p of
        Ready (Ok _) \<Rightarrow> snd (snd (bi_b c')) = bytes_to_b (\<lambda>s. script_content (fst s)) (\<lambda>s. snd (snd s)) c
          \<and> snd (snd (bi_a c')) = bytes_to_a (\<lambda>s. snd (snd s)) (\<lambda>s. script_content (fst s)) c
      | Ready (Err e) \<Rightarrow> (True \<or> True)
          \<and> (\<exists>rest. bytes_to_b (\<lambda>s. script_content (fst s)) (\<lambda>s. snd (snd s)) c = snd (snd (bi_b c')) @ rest)
          \<and> (\<exists>rest. bytes_to_a (\<lambda>s. snd (snd s)) (\<lambda>s. script_content (fst s)) c = snd (snd (bi_a c')) @ rest)
      | Ready Panic \<Rightarrow> False
      | Pending \<Rightarrow> bidi_ok (\<lambda>s. script_content (fst s)) (\<lambda>s. script_inv (fst s)) False
            (\<lambda>s. script_content (fst s)) (\<lambda>s. script_inv (fst s)) False c'
          \<and> bytes_to_b (\<lambda>s. script_content (fst s)) (\<lambda>s. snd (snd s)) c'
            = bytes_to_b (\<lambda>s. script_content (fst s)) (\<lambda>s. snd (snd s)) c
          \<and> bytes_to_a (\<lambda>s. snd (snd s)) (\<lambda>s. script_content (fst s)) c'
            = bytes_to_a (\<lambda>s. snd (snd s)) (\<lambda>s. script_content (fst s)) c)"
  unfolding Let_def
  by (rule bidi_poll_conserves [OF peer.duplex_stream_axioms peer.duplex_stream_axioms])
    (simp add: bidi_ok_def dir_ok_def copy_bidirectional_with_sizes_def cb_new_spec script_inv_def,
     simp add: copy_buffer_new_def)

end
