(* ===== verification/Anytls_Padding.thy ===== *)
theory Anytls_Padding
  imports Anytls_Types
begin

text \<open>
  \<^verbatim>\<open>src/anytls/padding.rs\<close>, the padding scheme, and the function \<^verbatim>\<open>write_with_padding\<close> of
  \<^verbatim>\<open>src/anytls/session.rs\<close> that applies it. The MD5 digest and the random generator come from
  other crates and are parameters: \<open>md5\<close> gives the 16 bytes of the digest, \<open>rand k lo hi\<close> the
  number the \<open>k\<close>-th draw of a call returns for the range. The connection's writer is given by
  its awaited \<^verbatim>\<open>write_all\<close>; the locale \<open>frame_writer\<close> states what tokio documents of it.
\<close>

section \<open>The scheme\<close>

abbreviation check_mark :: int where
  "check_mark \<equiv> - 1"

definition scheme_lines :: "string list" where
  "scheme_lines =
     [''stop=8'', ''0=30-30'', ''1=100-400'',
      ''2=400-500,c,500-1000,c,500-1000,c,500-1000,c,500-1000'', ''3=9-9,500-1000'',
      ''4=500-1000'', ''5=500-1000'', ''6=500-1000'', ''7=500-1000'']"

definition default_padding_scheme :: string where
  "default_padding_scheme = join_with [CHR 0x0A] scheme_lines"

record padding_factory =
  pf_scheme :: string_map
  pf_raw_scheme :: "byte list"
  pf_stop :: u32
  pf_md5 :: string

definition hex_byte :: "byte \<Rightarrow> string" where
  "hex_byte b = [digit_char (unat b div 16), digit_char (unat b mod 16)]"

definition padding_factory_new :: "(byte list \<Rightarrow> byte list) \<Rightarrow> byte list \<Rightarrow> string + padding_factory" where
  "padding_factory_new md5 raw_scheme =
     (let scheme = string_map_from_bytes raw_scheme in
      case scheme ''stop'' of
        None \<Rightarrow> Inl ''missing 'stop' in padding scheme''
      | Some v \<Rightarrow>
          (case parse_uint (2 ^ 32 - 1) v of
             None \<Rightarrow> Inl ''invalid 'stop' value in padding scheme''
           | Some stop \<Rightarrow>
               Inr \<lparr>pf_scheme = scheme, pf_raw_scheme = raw_scheme, pf_stop = of_nat stop,
                    pf_md5 = concat (map hex_byte (md5 raw_scheme))\<rparr>))"

text \<open>The default scheme has to parse; \<^verbatim>\<open>expect\<close> panics otherwise.\<close>

definition default_factory :: "(byte list \<Rightarrow> byte list) \<Rightarrow> padding_factory res" where
  "default_factory md5 =
     (case padding_factory_new md5 (bytes_of default_padding_scheme) of
        Inl _ \<Rightarrow> Panic
      | Inr pf \<Rightarrow> Ok pf)"

text \<open>The casts: \<^verbatim>\<open>i64 as i32\<close> keeps the low 32 bits.\<close>

definition i32_of :: "int \<Rightarrow> int" where
  "i32_of x = (x + 2 ^ 31) mod 2 ^ 32 - 2 ^ 31"

definition parse_positive :: "string \<Rightarrow> int option" where
  "parse_positive s =
     (case parse_i64 (trim s) of
        Some v \<Rightarrow> if v > 0 then Some v else None
      | None \<Rightarrow> None)"

definition part_size :: "(int \<Rightarrow> int \<Rightarrow> int) \<Rightarrow> string \<Rightarrow> int option" where
  "part_size draw part0 =
     (let part = trim part0 in
      if part = ''c'' then Some check_mark
      else
        case split_once CHR ''-'' part of
          None \<Rightarrow> None
        | Some (min_str, max_str) \<Rightarrow>
            (case parse_positive min_str of
               None \<Rightarrow> None
             | Some a \<Rightarrow>
                 (case parse_positive max_str of
                    None \<Rightarrow> None
                  | Some b \<Rightarrow>
                      let min_val = min a b; max_val = max a b in
                      Some (i32_of (if min_val = max_val then min_val else draw min_val max_val)))))"

text \<open>The loop over the parts: one size for each that is well-formed.\<close>

fun part_sizes :: "(nat \<Rightarrow> int \<Rightarrow> int \<Rightarrow> int) \<Rightarrow> nat \<Rightarrow> string list \<Rightarrow> int list" where
  "part_sizes rand k [] = []"
| "part_sizes rand k (part # parts) =
     (case part_size (rand k) part of
        Some sz \<Rightarrow> sz # part_sizes rand (Suc k) parts
      | None \<Rightarrow> part_sizes rand (Suc k) parts)"

definition generate_record_payload_sizes ::
  "(nat \<Rightarrow> int \<Rightarrow> int \<Rightarrow> int) \<Rightarrow> padding_factory \<Rightarrow> u32 \<Rightarrow> int list" where
  "generate_record_payload_sizes rand pf pkt =
     (case pf_scheme pf (dec_string (unat pkt)) of
        None \<Rightarrow> []
      | Some spec \<Rightarrow> part_sizes rand 0 (split_on CHR '','' spec))"

section \<open>Writing with padding\<close>

type_synonym 'w all_writer = "'w \<Rightarrow> byte list \<Rightarrow> unit res \<times> 'w"
type_synonym 'w all_flusher = "'w \<Rightarrow> unit res \<times> 'w"

definition usize_of_i32 :: "int \<Rightarrow> nat" where
  "usize_of_i32 n = nat (n mod 2 ^ 64)"

definition waste_header :: "nat \<Rightarrow> byte list" where
  "waste_header n = [command_u8 Waste, 0, 0, 0, 0, of_nat (n div 256), of_nat n]"

text \<open>A run of zeros, in pieces of at most 1024 bytes.\<close>

function write_zeros :: "'w all_writer \<Rightarrow> nat \<Rightarrow> 'w \<Rightarrow> unit res \<times> 'w" where
  "write_zeros wa remaining w =
     (if remaining > 0 then
        (let chunk = min remaining 1024 in
         case wa w (replicate chunk 0) of
           (Ok _, w') \<Rightarrow> write_zeros wa (remaining - chunk) w'
         | (Err e, w') \<Rightarrow> (Err e, w')
         | (Panic, w') \<Rightarrow> (Panic, w'))
      else (Ok (), w))"
  by pat_completeness auto
termination
  by (relation "measure (\<lambda>(wa, remaining, w). remaining)") auto

declare write_zeros.simps [simp del]

text \<open>The loop over the sizes; the result is the data that is left.\<close>

fun padding_loop :: "'w all_writer \<Rightarrow> int list \<Rightarrow> byte list \<Rightarrow> 'w \<Rightarrow> byte list res \<times> 'w" where
  "padding_loop wa [] data w = (Ok data, w)"
| "padding_loop wa (sz # sizes) data w =
     (if sz = check_mark then
        (if data = [] then (Ok data, w) else padding_loop wa sizes data w)
      else
        let n = usize_of_i32 sz in
        if length data > n then
          (case wa w (take n data) of
             (Ok _, w') \<Rightarrow> padding_loop wa sizes (drop n data) w'
           | (Err e, w') \<Rightarrow> (Err e, w')
           | (Panic, w') \<Rightarrow> (Panic, w'))
        else if data \<noteq> [] then
          let padding_len = n - (length data + frame_header_size);
              out = (if padding_len > 0
                     then data @ command_u8 Waste # u32_be 0 @ u16_be (of_nat padding_len) @ replicate padding_len 0
                     else data)
          in (case wa w out of
                (Ok _, w') \<Rightarrow> padding_loop wa sizes [] w'
              | (Err e, w') \<Rightarrow> (Err e, w')
              | (Panic, w') \<Rightarrow> (Panic, w'))
        else
          (case wa w (waste_header n) of
             (Ok _, w') \<Rightarrow>
               (case write_zeros wa n w' of
                  (Ok _, w2) \<Rightarrow> padding_loop wa sizes [] w2
                | (Err e, w2) \<Rightarrow> (Err e, w2)
                | (Panic, w2) \<Rightarrow> (Panic, w2))
           | (Err e, w') \<Rightarrow> (Err e, w')
           | (Panic, w') \<Rightarrow> (Panic, w')))"

definition write_and_flush :: "'w all_writer \<Rightarrow> 'w all_flusher \<Rightarrow> byte list \<Rightarrow> 'w \<Rightarrow> unit res \<times> 'w" where
  "write_and_flush wa fl data w =
     (case wa w data of
        (Ok _, w') \<Rightarrow> fl w'
      | (Err e, w') \<Rightarrow> (Err e, w')
      | (Panic, w') \<Rightarrow> (Panic, w'))"

definition write_with_padding ::
  "'w all_writer \<Rightarrow> 'w all_flusher \<Rightarrow> int list \<Rightarrow> byte list \<Rightarrow> 'w \<Rightarrow> unit res \<times> 'w" where
  "write_with_padding wa fl pkt_sizes data w =
     (if pkt_sizes = [] then write_and_flush wa fl data w
      else
        case padding_loop wa pkt_sizes data w of
          (Ok data', w') \<Rightarrow> if data' \<noteq> [] then write_and_flush wa fl data' w' else fl w'
        | (Err e, w') \<Rightarrow> (Err e, w')
        | (Panic, w') \<Rightarrow> (Panic, w'))"

section \<open>The bytes of a padded write\<close>

locale frame_writer =
  fixes wa :: "'w all_writer" and fl :: "'w all_flusher" and sent :: "'w \<Rightarrow> byte list"
  assumes wa_ok: "wa w bs = (Ok u, w') \<Longrightarrow> sent w' = sent w @ bs"
    and wa_err: "wa w bs = (Err e, w') \<Longrightarrow> \<exists>k \<le> length bs. sent w' = sent w @ take k bs"
    and wa_no_panic: "wa w bs \<noteq> (Panic, w')"
    and fl_sent: "fl w = (r, w') \<Longrightarrow> sent w' = sent w \<and> r \<noteq> Panic"

definition waste_frame :: "nat \<Rightarrow> frame" where
  "waste_frame n = frame_with_data Waste 0 (replicate n 0)"

definition size_ok :: "int \<Rightarrow> bool" where
  "size_ok sz \<longleftrightarrow> sz = check_mark \<or> 1 \<le> sz \<and> sz \<le> 65535"

lemma waste_frame_ok: "n \<le> 65535 \<Longrightarrow> frame_ok (waste_frame n)"
  by (simp add: frame_ok_def waste_frame_def frame_with_data_def)

lemma waste_frame_bytes:
  "frame_bytes (waste_frame n) = command_u8 Waste # u32_be 0 @ u16_be (of_nat n) @ replicate n 0"
  by (simp add: waste_frame_def frame_with_data_def encode_into_def)

lemma waste_header_bytes: "n \<le> 65535 \<Longrightarrow> waste_header n @ replicate n 0 = frame_bytes (waste_frame n)"
  by (simp add: waste_frame_bytes waste_header_def u_be_eval unat_of_nat)

context frame_writer
begin

lemma write_zeros_ok: "write_zeros wa n w = (Ok u, w') \<Longrightarrow> sent w' = sent w @ replicate n 0"
proof (induction n arbitrary: w rule: less_induct)
  case (less n)
  show ?case
  proof (cases "0 < n")
    case True
    let ?c = "min n 1024"
    obtain r w1 where w: "wa w (replicate ?c 0) = (r, w1)" by (cases "wa w (replicate ?c 0)")
    from less.prems True w have "write_zeros wa (n - ?c) w1 = (Ok u, w')" and r: "r = Ok ()"
      by (auto simp: write_zeros.simps [of wa n] Let_def split: res.splits)
    with less.IH [of "n - ?c" w1] wa_ok [of w _ "()" w1] w True
    have "sent w' = sent w @ replicate ?c 0 @ replicate (n - ?c) 0" by simp
    then show ?thesis by (simp flip: replicate_add)
  next
    case False
    with less.prems show ?thesis by (simp add: write_zeros.simps [of wa n])
  qed
qed

lemma write_and_flush_ok: "write_and_flush wa fl data w = (Ok u, w') \<Longrightarrow> sent w' = sent w @ data"
  by (auto simp: write_and_flush_def dest!: wa_ok fl_sent split: prod.splits res.splits)

text \<open>What the loop has written and what it leaves are the data followed by padding frames, and
  no padding comes before the end of the data.\<close>

lemma padding_loop_ok:
  assumes "padding_loop wa sizes data w = (Ok data', w')" and "\<forall>sz \<in> set sizes. size_ok sz"
  shows "\<exists>ps. (\<forall>n \<in> set ps. n \<le> 65535) \<and> (data' \<noteq> [] \<longrightarrow> ps = []) \<and> (data = [] \<longrightarrow> data' = []) \<and>
     sent w' @ data' = sent w @ data @ concat (map (\<lambda>n. frame_bytes (waste_frame n)) ps)"
  using assms
proof (induction sizes arbitrary: data w)
  case Nil
  then show ?case by (intro exI [of _ "[]"]) simp
next
  case (Cons sz sizes)
  have ok: "\<forall>sz \<in> set sizes. size_ok sz" and sz: "size_ok sz" using Cons.prems(2) by auto
  define n where "n = usize_of_i32 sz"
  show ?case
  proof (cases "sz = check_mark")
    case True
    with Cons.prems(1) Cons.IH [OF _ ok, of data w] show ?thesis
      by (cases "data = []") (auto intro: exI [of _ "[]"])
  next
    case False
    then have n: "n \<le> 65535" using sz by (auto simp: n_def size_ok_def usize_of_i32_def)
    consider (cut) "n < length data" | (last) "data \<noteq> []" "length data \<le> n" | (pad) "data = []"
      by fastforce
    then show ?thesis
    proof cases
      case cut
      obtain r w1 where w: "wa w (take n data) = (r, w1)" by (cases "wa w (take n data)")
      with Cons.prems(1) False cut have "padding_loop wa sizes (drop n data) w1 = (Ok data', w')" "r = Ok ()"
        by (auto simp: n_def [symmetric] split: res.splits)
      with Cons.IH [OF _ ok] wa_ok [of w "take n data" "()" w1] w cut show ?thesis by fastforce
    next
      case last
      define pl where "pl = n - (length data + frame_header_size)"
      define out where "out = (if pl > 0 then data @ frame_bytes (waste_frame pl) else data)"
      obtain r w1 where w: "wa w out = (r, w1)" by (cases "wa w out")
      with Cons.prems(1) False last have run: "padding_loop wa sizes [] w1 = (Ok data', w')" and r: "r = Ok ()"
        by (auto simp: n_def [symmetric] pl_def [symmetric] out_def waste_frame_bytes Let_def split: res.splits if_splits)
      obtain ps where ps: "\<forall>n \<in> set ps. n \<le> 65535" "data' = []"
        "sent w' @ data' = sent w1 @ concat (map (\<lambda>n. frame_bytes (waste_frame n)) ps)"
        using Cons.IH [OF run ok] unfolding append_Nil by blast
      have "sent w1 = sent w @ out" using wa_ok [of w out "()" w1] w r by simp
      with ps n last show ?thesis
        by (intro exI [of _ "(if pl > 0 then [pl] else []) @ ps"]) (auto simp: out_def pl_def)
    next
      case pad
      obtain r w1 where w: "wa w (waste_header n) = (r, w1)" by (cases "wa w (waste_header n)")
      obtain r2 w2 where z: "write_zeros wa n w1 = (r2, w2)" by (cases "write_zeros wa n w1")
      from Cons.prems(1) False pad w z
      have run: "padding_loop wa sizes [] w2 = (Ok data', w')" and r: "r = Ok ()" "r2 = Ok ()"
        by (auto simp: n_def [symmetric] Let_def split: res.splits)
      obtain ps where ps: "\<forall>n \<in> set ps. n \<le> 65535" "data' = []"
        "sent w' @ data' = sent w2 @ concat (map (\<lambda>n. frame_bytes (waste_frame n)) ps)"
        using Cons.IH [OF run ok] unfolding append_Nil by blast
      have "sent w2 = sent w @ waste_header n @ replicate n 0"
        using wa_ok [of w "waste_header n" "()" w1] write_zeros_ok [of n w1 "()" w2] w z r by simp
      then have "sent w2 = sent w @ frame_bytes (waste_frame n)"
        using waste_header_bytes [OF n] by simp
      with ps n pad show ?thesis
        by (intro exI [of _ "n # ps"]) auto
    qed
  qed
qed

lemma write_with_padding_ok:
  assumes "write_with_padding wa fl sizes data w = (Ok u, w')" and "\<forall>sz \<in> set sizes. size_ok sz"
  shows "\<exists>ps. (\<forall>n \<in> set ps. n \<le> 65535) \<and>
     sent w' = sent w @ data @ concat (map (\<lambda>n. frame_bytes (waste_frame n)) ps)"
proof (cases "sizes = []")
  case True
  with assms(1) write_and_flush_ok [of data w u w'] show ?thesis
    by (intro exI [of _ "[]"]) (simp add: write_with_padding_def)
next
  case False
  obtain r w1 where lp: "padding_loop wa sizes data w = (r, w1)" by (cases "padding_loop wa sizes data w")
  with assms(1) False obtain data' where r: "r = Ok data'"
    by (cases r) (auto simp: write_with_padding_def)
  obtain ps where ps: "\<forall>n \<in> set ps. n \<le> 65535" "data' \<noteq> [] \<longrightarrow> ps = []"
    "sent w1 @ data' = sent w @ data @ concat (map (\<lambda>n. frame_bytes (waste_frame n)) ps)"
    using padding_loop_ok [OF lp [unfolded r] assms(2)] by blast
  have "sent w' = sent w1 @ data'"
    using assms(1) False lp r write_and_flush_ok [of data' w1 u w'] fl_sent [of w1 "Ok u" w']
    by (auto simp: write_with_padding_def split: if_splits)
  with ps show ?thesis by auto
qed

end

section \<open>A writer that takes everything\<close>

definition vec_write_all :: "byte list all_writer" where
  "vec_write_all w bs = (Ok (), w @ bs)"

definition vec_flush :: "byte list all_flusher" where
  "vec_flush w = (Ok (), w)"

interpretation vec_writer: frame_writer vec_write_all vec_flush "\<lambda>w. w"
  by unfold_locales (simp_all add: vec_write_all_def vec_flush_def)

section \<open>The default scheme\<close>

lemmas part_eval = parse_positive_def trim_graphic graphic_def parse_i64_def parse_uint_def
  digits_value_def is_digit_def to_digit_def split_once_def

definition scheme_entries :: "(string \<times> string) list" where
  "scheme_entries =
     [(''stop'', ''8''), (''0'', ''30-30''), (''1'', ''100-400''),
      (''2'', ''400-500,c,500-1000,c,500-1000,c,500-1000,c,500-1000''), (''3'', ''9-9,500-1000''),
      (''4'', ''500-1000''), (''5'', ''500-1000''), (''6'', ''500-1000''), (''7'', ''500-1000'')]"

lemma default_scheme_entries: "bytes_of default_padding_scheme = string_map_to_bytes scheme_entries"
proof -
  have "scheme_lines = map entry_text scheme_entries"
    by (simp add: scheme_lines_def scheme_entries_def entry_text_def)
  then show ?thesis by (simp add: default_padding_scheme_def string_map_to_bytes_def)
qed

lemma default_scheme_map: "string_map_from_bytes (bytes_of default_padding_scheme) = map_of scheme_entries"
  unfolding default_scheme_entries
proof (rule string_map_parse)
  show "\<forall>kv \<in> set scheme_entries. entry_ok kv"
    by (simp add: scheme_entries_def entry_ok_def entry_text_def utf8_ok_ascii)
  show "distinct (map fst scheme_entries)" by (simp add: scheme_entries_def)
qed

lemma default_factory_eq:
  "default_factory md5 = Ok \<lparr>pf_scheme = map_of scheme_entries,
     pf_raw_scheme = bytes_of default_padding_scheme, pf_stop = 8,
     pf_md5 = concat (map hex_byte (md5 (bytes_of default_padding_scheme)))\<rparr>"
proof -
  have "map_of scheme_entries ''stop'' = Some ''8''" by (simp add: scheme_entries_def)
  moreover have "parse_uint (2 ^ 32 - 1) ''8'' = Some 8"
    by (simp add: parse_uint_def is_digit_def to_digit_def digits_value_def)
  ultimately show ?thesis
    by (simp add: default_factory_def padding_factory_new_def default_scheme_map)
qed

definition draws_in_range :: "(nat \<Rightarrow> int \<Rightarrow> int \<Rightarrow> int) \<Rightarrow> bool" where
  "draws_in_range rand \<longleftrightarrow> (\<forall>k lo hi. lo < hi \<longrightarrow> lo \<le> rand k lo hi \<and> rand k lo hi \<le> hi)"

lemma i32_of_small: "0 \<le> x \<Longrightarrow> x < 2 ^ 31 \<Longrightarrow> i32_of x = x"
  by (simp add: i32_of_def)

lemma default_parts:
  assumes "draws_in_range rand"
  shows "part_size (rand k) ''8'' = None" "part_size (rand k) ''c'' = Some check_mark"
    "part_size (rand k) ''30-30'' = Some 30" "part_size (rand k) ''9-9'' = Some 9"
    "\<exists>x. part_size (rand k) ''100-400'' = Some x \<and> 100 \<le> x \<and> x \<le> 400"
    "\<exists>x. part_size (rand k) ''400-500'' = Some x \<and> 400 \<le> x \<and> x \<le> 500"
    "\<exists>x. part_size (rand k) ''500-1000'' = Some x \<and> 500 \<le> x \<and> x \<le> 1000"
proof -
  have d: "i32_of (rand k lo hi) = rand k lo hi \<and> lo \<le> rand k lo hi \<and> rand k lo hi \<le> hi"
    if "0 \<le> lo" "lo < hi" "hi \<le> 1000" for lo hi
  proof -
    have "lo \<le> rand k lo hi" "rand k lo hi \<le> hi" using assms that(2) by (auto simp: draws_in_range_def)
    with that show ?thesis by (simp add: i32_of_small)
  qed
  show "part_size (rand k) ''8'' = None" "part_size (rand k) ''c'' = Some check_mark"
    "part_size (rand k) ''30-30'' = Some 30" "part_size (rand k) ''9-9'' = Some 9"
    by (simp_all add: part_size_def part_eval i32_of_small)
  show "\<exists>x. part_size (rand k) ''100-400'' = Some x \<and> 100 \<le> x \<and> x \<le> 400"
    "\<exists>x. part_size (rand k) ''400-500'' = Some x \<and> 400 \<le> x \<and> x \<le> 500"
    "\<exists>x. part_size (rand k) ''500-1000'' = Some x \<and> 500 \<le> x \<and> x \<le> 1000"
    using d [of 100 400] d [of 400 500] d [of 500 1000] by (simp_all add: part_size_def part_eval)
qed

lemma part_sizes_all:
  "\<forall>part \<in> set parts. \<forall>k. \<forall>x. part_size (rand k) part = Some x \<longrightarrow> P x \<Longrightarrow> \<forall>x \<in> set (part_sizes rand k parts). P x"
  by (induction parts arbitrary: k) (auto split: option.splits)

section \<open>Properties\<close>

text \<open>C25. Padding is transparent: a padded write that succeeds puts on the connection the frames it
  was given, unchanged and uncut, followed by nothing but padding frames, so that the peer
  decodes exactly the frames and then only padding. This holds for every list of sizes between
  1 and 65535 and check marks.\<close>

theorem padding_is_transparent:
  assumes "frame_writer wa fl sent" and "\<forall>f \<in> set fs. frame_ok f" and "\<forall>sz \<in> set sizes. size_ok sz"
    and "write_with_padding wa fl sizes (concat (map (\<lambda>f. frame_bytes f) fs)) w = (Ok u, w')"
  shows "\<exists>out ps. sent w' = sent w @ out \<and> decode_frames out = (fs @ map waste_frame ps, Ok [])"
proof -
  obtain ps where ps: "\<forall>n \<in> set ps. n \<le> 65535"
    "sent w' = sent w @ concat (map (\<lambda>f. frame_bytes f) fs) @ concat (map (\<lambda>n. frame_bytes (waste_frame n)) ps)"
    using frame_writer.write_with_padding_ok [OF assms(1,4,3)] by blast
  have "concat (map (\<lambda>f. frame_bytes f) fs) @ concat (map (\<lambda>n. frame_bytes (waste_frame n)) ps)
      = concat (map (\<lambda>f. frame_bytes f) (fs @ map waste_frame ps)) @ []"
    by (simp add: comp_def)
  moreover have "\<forall>f \<in> set (fs @ map waste_frame ps). frame_ok f"
    using assms(2) ps(1) by (auto simp: waste_frame_ok)
  moreover have "decode_frames [] = ([], Ok [])"
    by (rule decode_frames_None [of _ "[]"]) (simp add: frame_decode_def)
  ultimately have "decode_frames (concat (map (\<lambda>f. frame_bytes f) fs)
      @ concat (map (\<lambda>n. frame_bytes (waste_frame n)) ps)) = (fs @ map waste_frame ps, Ok [])"
    using decode_frames_encoded [of "fs @ map waste_frame ps" "[]"] by simp
  with ps(2) show ?thesis by blast
qed

theorem padding_is_transparent_witness:
  "\<exists>out ps. snd (write_with_padding vec_write_all vec_flush [4, - 1, 30]
        (concat (map (\<lambda>f. frame_bytes f) [data_frame 1 [5, 6]])) []) = [] @ out
     \<and> decode_frames out = ([data_frame 1 [5, 6]] @ map waste_frame ps, Ok [])"
proof -
  let ?run = "write_with_padding vec_write_all vec_flush [4, - 1, 30]
        (concat (map (\<lambda>f. frame_bytes f) [data_frame 1 [5, 6]])) []"
  have "fst ?run = Ok ()"
    by (simp add: write_with_padding_def vec_write_all_def vec_flush_def usize_of_i32_def Let_def
        data_frame_def frame_with_data_def)
  then have "?run = (Ok (), snd ?run)" by (metis prod.collapse)
  then show ?thesis
    by (rule padding_is_transparent [OF vec_writer.frame_writer_axioms, rotated 2])
      (simp_all add: frame_ok_def data_frame_def frame_with_data_def size_ok_def)
qed



end
