(* ===== verification/Quic_Stream.thy ===== *)
theory Quic_Stream
  imports Copy_Bidirectional
begin

text \<open>
  \<^verbatim>\<open>src/quic_stream.rs\<close>: the two halves of a QUIC stream as one stream. The halves are quinn's;
  their operations are parameters. When the receiving half is a byte source and the sending
  half a byte sink, the whole is a duplex stream, which is what the bidirectional copy asks
  for.
\<close>

section \<open>Definitions\<close>

record ('s, 'r) quic_stream =
  qs_send :: 's
  qs_recv :: 'r

definition quic_stream_from :: "'s \<times> 'r \<Rightarrow> ('s, 'r) quic_stream" where
  "quic_stream_from = (\<lambda>(send, recv). \<lparr>qs_send = send, qs_recv = recv\<rparr>)"

definition quic_poll_read :: "'r reader \<Rightarrow> ('s, 'r) quic_stream reader" where
  "quic_poll_read rd s n = (let (p, r') = rd (qs_recv s) n in (p, s\<lparr>qs_recv := r'\<rparr>))"

text \<open>An error of the sending half is passed on as an error of kind \<^verbatim>\<open>Other\<close> with its text.\<close>

definition quic_result :: "'a res poll \<Rightarrow> 'a res poll" where
  "quic_result p = (case p of
      Ready (Ok n) \<Rightarrow> Ready (Ok n)
    | Ready (Err e) \<Rightarrow> Ready (Err (other_error (err_msg e)))
    | Ready Panic \<Rightarrow> Ready Panic
    | Pending \<Rightarrow> Pending)"

definition quic_poll_write :: "'s writer \<Rightarrow> ('s, 'r) quic_stream writer" where
  "quic_poll_write wr s buf = (let (p, w') = wr (qs_send s) buf in (quic_result p, s\<lparr>qs_send := w'\<rparr>))"

definition quic_poll_flush :: "'s flusher \<Rightarrow> ('s, 'r) quic_stream flusher" where
  "quic_poll_flush fl s = (let (p, w') = fl (qs_send s) in (quic_result p, s\<lparr>qs_send := w'\<rparr>))"

definition quic_poll_shutdown :: "'s flusher \<Rightarrow> ('s, 'r) quic_stream flusher" where
  "quic_poll_shutdown sd s = (let (p, w') = sd (qs_send s) in (quic_result p, s\<lparr>qs_send := w'\<rparr>))"

definition quic_stream_ops ::
  "'r reader \<Rightarrow> 's writer \<Rightarrow> 's flusher \<Rightarrow> 's flusher \<Rightarrow> ('s, 'r) quic_stream async_stream" where
  "quic_stream_ops rd wr fl sd =
     \<lparr>op_supports_ping = (\<lambda>_. False), op_write_ping = (\<lambda>s. (Ready (Ok False), s)),
      op_read = quic_poll_read rd, op_write = quic_poll_write wr,
      op_flush = quic_poll_flush fl, op_shutdown = quic_poll_shutdown sd\<rparr>"

section \<open>Two halves make a duplex stream\<close>

locale quic_halves = src: byte_source rd content src_inv delay src_err
    + snk: byte_sink wr written snk_inv snk_delay snk_err
  for rd :: "'r reader" and content src_inv delay src_err
    and wr :: "'s writer" and written snk_inv snk_delay snk_err +
  fixes fl :: "'s flusher" and sd :: "'s flusher"
  assumes send_flush: "snk_inv w \<Longrightarrow> fl w = (p, w') \<Longrightarrow> snk_inv w' \<and> written w' = written w \<and>
      (case p of
         Ready (Ok _) \<Rightarrow> snk_delay w' \<le> snk_delay w
       | Ready (Err e) \<Rightarrow> snk_err e
       | Ready Panic \<Rightarrow> False
       | Pending \<Rightarrow> snk_delay w' < snk_delay w)"
    and send_shutdown: "snk_inv w \<Longrightarrow> sd w = (p, w') \<Longrightarrow> snk_inv w' \<and> written w' = written w \<and>
      (case p of
         Ready (Ok _) \<Rightarrow> True
       | Ready (Err e) \<Rightarrow> snk_err e
       | Ready Panic \<Rightarrow> False
       | Pending \<Rightarrow> snk_delay w' < snk_delay w)"
begin

definition quic_err :: "io_error \<Rightarrow> bool" where
  "quic_err e \<longleftrightarrow> src_err e \<or> (\<exists>e0. snk_err e0 \<and> e = other_error (err_msg e0))"

lemma quic_write_cases:
  assumes "quic_poll_write wr s bs = (p, s')"
  obtains p0 w' where "wr (qs_send s) bs = (p0, w')" "quic_result p0 = p" "s' = s\<lparr>qs_send := w'\<rparr>"
  using assms by (auto simp: quic_poll_write_def split: prod.splits)

lemma quic_read_cases:
  assumes "quic_poll_read rd s n = (p, s')"
  obtains r' where "rd (qs_recv s) n = (p, r')" "s' = s\<lparr>qs_recv := r'\<rparr>"
  using assms by (auto simp: quic_poll_read_def split: prod.splits)

lemma quic_result_simps [simp]:
  "quic_result p = Ready (Ok k) \<longleftrightarrow> p = Ready (Ok k)"
  "quic_result p = Ready (Err e) \<longleftrightarrow> (\<exists>e0. p = Ready (Err e0) \<and> e = other_error (err_msg e0))"
  "quic_result p = Ready Panic \<longleftrightarrow> p = Ready Panic" "quic_result p = Pending \<longleftrightarrow> p = Pending"
  by (auto simp: quic_result_def split: poll.splits res.splits)

end

sublocale quic_halves \<subseteq> quic: duplex_stream "quic_stream_ops rd wr fl sd"
    "\<lambda>s. content (qs_recv s)" "\<lambda>s. written (qs_send s)" "\<lambda>s. src_inv (qs_recv s) \<and> snk_inv (qs_send s)"
    "\<lambda>s. delay (qs_recv s)" "\<lambda>s. snk_delay (qs_send s)" quic_err False
proof (unfold_locales, goal_cases)
  case (1 ws s n bs s')
  then show ?case using src.read_ok [of "qs_recv s" n bs]
    by (auto simp: quic_stream_ops_def elim!: quic_read_cases)
next
  case (2 ws s n e s')
  then show ?case using src.read_err [of "qs_recv s" n e]
    by (auto simp: quic_stream_ops_def quic_err_def elim!: quic_read_cases)
next
  case (3 ws s n s')
  then show ?case using src.read_pending [of "qs_recv s" n]
    by (auto simp: quic_stream_ops_def elim!: quic_read_cases)
next
  case (4 ws s n s')
  then show ?case using src.read_no_panic [of "qs_recv s" n]
    by (auto simp: quic_stream_ops_def elim!: quic_read_cases)
next
  case (5 cs w bs k w')
  then show ?case using snk.write_ok [of "qs_send w" bs k]
    by (auto simp: quic_stream_ops_def elim!: quic_write_cases)
next
  case (6 cs w bs e w')
  then show ?case using snk.write_err [of "qs_send w" bs]
    by (fastforce simp: quic_stream_ops_def quic_err_def elim!: quic_write_cases)
next
  case (7 cs w bs w')
  then show ?case using snk.write_pending [of "qs_send w" bs]
    by (auto simp: quic_stream_ops_def elim!: quic_write_cases)
next
  case (8 cs w bs w')
  then show ?case using snk.write_no_panic [of "qs_send w" bs]
    by (fastforce simp: quic_stream_ops_def elim!: quic_write_cases)
next
  case (9 s p s')
  obtain p0 w' where f: "fl (qs_send s) = (p0, w')" by (cases "fl (qs_send s)")
  with 9 send_flush [OF _ f] show ?case
    by (cases p0 rule: poll_res_exhaust)
      (auto simp: quic_stream_ops_def quic_poll_flush_def quic_result_def quic_err_def)
next
  case (10 s q s')
  then show ?case by simp
next
  case (11 s p s')
  obtain p0 w' where f: "sd (qs_send s) = (p0, w')" by (cases "sd (qs_send s)")
  with 11 send_shutdown [OF _ f] show ?case
    by (cases p0 rule: poll_res_exhaust)
      (auto simp: quic_stream_ops_def quic_poll_shutdown_def quic_result_def quic_err_def)
next
  case (12 s)
  then show ?case by (simp add: quic_stream_ops_def)
qed

context quic_halves
begin

lemmas quic_duplex = quic.duplex_stream_axioms

end

interpretation script_halves: quic_halves script_read script_content script_inv length "\<lambda>_. True"
    script_write snd "\<lambda>_. True" "\<lambda>w. length (fst w)" "\<lambda>_. True"
    "\<lambda>w. (Ready (Ok ()), w)" "\<lambda>w. (Ready (Ok ()), w)"
  by unfold_locales auto

section \<open>Properties\<close>

text \<open>The two halves of a QUIC stream, a byte source and a byte sink, make a duplex stream:
  reading takes from the receiving half only, writing, flushing and shutting down touch the
  sending half only, and errors of the sending half are passed on. So the bidirectional copy
  conserves the bytes over QUIC streams.\<close>

theorem quic_stream_is_duplex:
  assumes "quic_halves rd content src_inv delay src_err wr written snk_inv snk_delay snk_err fl sd"
  shows "duplex_stream (quic_stream_ops rd wr fl sd) (\<lambda>s. content (qs_recv s)) (\<lambda>s. written (qs_send s))
     (\<lambda>s. src_inv (qs_recv s) \<and> snk_inv (qs_send s)) (\<lambda>s. delay (qs_recv s)) (\<lambda>s. snk_delay (qs_send s))
     (\<lambda>e. src_err e \<or> (\<exists>e0. snk_err e0 \<and> e = other_error (err_msg e0))) False"
  using quic_halves.quic_duplex [OF assms]
  unfolding quic_halves.quic_err_def [OF assms, abs_def] .

theorem quic_stream_is_duplex_witness:
  "duplex_stream (quic_stream_ops script_read script_write (\<lambda>w. (Ready (Ok ()), w)) (\<lambda>w. (Ready (Ok ()), w)))
     (\<lambda>s. script_content (qs_recv s)) (\<lambda>s. snd (qs_send s))
     (\<lambda>s. script_inv (qs_recv s) \<and> True) (\<lambda>s. length (qs_recv s)) (\<lambda>s. length (fst (qs_send s)))
     (\<lambda>e. True \<or> (\<exists>e0. True \<and> e = other_error (err_msg e0))) False"
  by (rule quic_stream_is_duplex [OF script_halves.quic_halves_axioms])

end
