(* ===== verification/Resolver.thy ===== *)
theory Resolver
  imports Address
begin

text \<open>
  \<^verbatim>\<open>src/resolver.rs\<close>: name resolution with a small cache. The cache is the \<^verbatim>\<open>lru\<close> crate's, its
  \<open>get\<close> and \<open>put\<close> are parameters; the locale \<open>lru_cache\<close> states what its documentation promises:
  a lookup gives what is stored and changes nothing of it, an insertion stores its entry and
  may push out others, and there are never more entries than its capacity. It is interpreted
  by a list in order of recency. The system resolver is the parameter \<open>dns\<close>, whose answers may
  change with time.

  The cache's mutex is released while the system resolver is asked, so a resolution is two
  critical sections, \<open>resolve_check\<close> and \<open>resolve_store\<close>, between which others may run.
\<close>

section \<open>Definitions\<close>

record cache_entry =
  ce_addr :: socket_addr
  ce_inserted :: instant

type_synonym ('c) cache_get = "'c \<Rightarrow> string \<Rightarrow> cache_entry option \<times> 'c"
type_synonym ('c) cache_put = "'c \<Rightarrow> string \<Rightarrow> cache_entry \<Rightarrow> 'c"
type_synonym dns = "instant \<Rightarrow> string \<Rightarrow> u16 \<Rightarrow> socket_addr list res"

record 'c resolver =
  rs_cache :: 'c
  rs_tcp_congestion :: string

abbreviation cache_size :: nat where "cache_size \<equiv> 1024"
abbreviation cache_ttl :: nat where "cache_ttl \<equiv> secs 60"

definition with_tcp_congestion :: "(nat \<Rightarrow> 'c) \<Rightarrow> string \<Rightarrow> 'c resolver" where
  "with_tcp_congestion new algo = \<lparr>rs_cache = new cache_size, rs_tcp_congestion = algo\<rparr>"

definition cache_key :: "string \<Rightarrow> u16 \<Rightarrow> string" where
  "cache_key hostname port = hostname @ '':'' @ dec_string (unat port)"

definition lookup_host :: "dns \<Rightarrow> instant \<Rightarrow> string \<Rightarrow> u16 \<Rightarrow> socket_addr res" where
  "lookup_host dns now hostname port =
     bind_res (dns now hostname port) (\<lambda>addrs.
       case sort_key socket_addr_is_ipv6 addrs of
         addr # _ \<Rightarrow> Ok addr
       | [] \<Rightarrow> Err (other_error ''no addresses''))"

text \<open>The first critical section: a literal or a fresh entry answers at once.\<close>

definition resolve_check ::
  "'c cache_get \<Rightarrow> instant \<Rightarrow> 'c resolver \<Rightarrow> string \<Rightarrow> u16 \<Rightarrow> socket_addr option \<times> 'c resolver" where
  "resolve_check get now rs hostname port =
     (case get (rs_cache rs) (cache_key hostname port) of
        (Some entry, cache') \<Rightarrow>
          (if now - ce_inserted entry < cache_ttl then Some (ce_addr entry) else None,
           rs\<lparr>rs_cache := cache'\<rparr>)
      | (None, cache') \<Rightarrow> (None, rs\<lparr>rs_cache := cache'\<rparr>))"

text \<open>The second: the answer of the system resolver is stored with the time it is stored at.\<close>

definition resolve_store ::
  "'c cache_put \<Rightarrow> instant \<Rightarrow> 'c resolver \<Rightarrow> string \<Rightarrow> u16 \<Rightarrow> socket_addr \<Rightarrow> 'c resolver" where
  "resolve_store put now rs hostname port addr =
     rs\<lparr>rs_cache := put (rs_cache rs) (cache_key hostname port) \<lparr>ce_addr = addr, ce_inserted = now\<rparr>\<rparr>"

text \<open>A whole resolution, which begins at \<open>now\<close> and whose lookup ends at \<open>later\<close>.\<close>

definition resolve ::
  "'c cache_get \<Rightarrow> 'c cache_put \<Rightarrow> dns \<Rightarrow> instant \<Rightarrow> instant \<Rightarrow> 'c resolver \<Rightarrow> net_location \<Rightarrow>
   socket_addr res \<times> 'c resolver" where
  "resolve get put dns now later rs location =
     (case to_socket_addr_nonblocking location of
        Some addr \<Rightarrow> (Ok addr, rs)
      | None \<Rightarrow>
          (let (address, port) = net_location_components location in
           case address_hostname address of
             None \<Rightarrow> (Panic, rs)
           | Some hostname \<Rightarrow>
               (case resolve_check get now rs hostname port of
                  (Some addr, rs1) \<Rightarrow> (Ok addr, rs1)
                | (None, rs1) \<Rightarrow>
                    (case lookup_host dns now hostname port of
                       Ok addr \<Rightarrow> (Ok addr, resolve_store put later rs1 hostname port addr)
                     | Err e \<Rightarrow> (Err e, rs1)
                     | Panic \<Rightarrow> (Panic, rs1)))))"

section \<open>The cache\<close>

locale lru_cache =
  fixes new :: "nat \<Rightarrow> 'c" and get :: "'c cache_get" and put :: "'c cache_put"
    and entries :: "'c \<Rightarrow> string \<rightharpoonup> cache_entry" and cap :: "'c \<Rightarrow> nat" and cache_inv :: "'c \<Rightarrow> bool"
  assumes new_entries: "entries (new n) = Map.empty \<and> cap (new n) = n \<and> cache_inv (new n)"
    and get_entries: "cache_inv c \<Longrightarrow> get c k = (r, c') \<Longrightarrow>
      r = entries c k \<and> entries c' = entries c \<and> cap c' = cap c \<and> cache_inv c'"
    and put_entries: "cache_inv c \<Longrightarrow> entries (put c k v) \<subseteq>\<^sub>m (entries c)(k \<mapsto> v) \<and> cap (put c k v) = cap c
      \<and> cache_inv (put c k v)"
    and put_stored: "cache_inv c \<Longrightarrow> 0 < cap c \<Longrightarrow> entries (put c k v) k = Some v"
    and entries_bound: "cache_inv c \<Longrightarrow> finite (dom (entries c)) \<and> card (dom (entries c)) \<le> cap c"

text \<open>Entries in order of their last use, the most recent first; the key decides what is the same
  entry.\<close>

record lru_list =
  ll_cap :: nat
  ll_entries :: "(string \<times> cache_entry) list"

definition lru_new :: "nat \<Rightarrow> lru_list" where
  "lru_new n = \<lparr>ll_cap = n, ll_entries = []\<rparr>"

definition lru_get :: "lru_list cache_get" where
  "lru_get c k =
     (case map_of (ll_entries c) k of
        Some e \<Rightarrow> (Some e, c\<lparr>ll_entries := (k, e) # filter (\<lambda>x. fst x \<noteq> k) (ll_entries c)\<rparr>)
      | None \<Rightarrow> (None, c))"

definition lru_put :: "lru_list cache_put" where
  "lru_put c k e =
     c\<lparr>ll_entries := take (ll_cap c) ((k, e) # filter (\<lambda>x. fst x \<noteq> k) (ll_entries c))\<rparr>"

definition lru_inv :: "lru_list \<Rightarrow> bool" where
  "lru_inv c \<longleftrightarrow> distinct (map fst (ll_entries c)) \<and> length (ll_entries c) \<le> ll_cap c"

lemma map_of_filter_key:
  "map_of (filter (\<lambda>x. fst x \<noteq> k) xs) = (map_of xs)(k := None)"
  by (induction xs) auto

lemma map_of_take_le: "map_of (take n xs) \<subseteq>\<^sub>m map_of xs"
proof -
  have "map_of (take n xs) k = Some v \<Longrightarrow> map_of xs k = Some v" for k v
    by (metis append_take_drop_id map_add_Some_iff map_of_append)
  then show ?thesis by (auto simp: map_le_def dom_def)
qed

lemma length_filter_key:
  assumes "distinct (map fst xs)" and "map_of xs k = Some e"
  shows "Suc (length (filter (\<lambda>x. fst x \<noteq> k) xs)) = length xs"
  using assms
proof (induction xs)
  case Nil
  then show ?case by simp
next
  case (Cons x xs)
  show ?case
  proof (cases "fst x = k")
    case True
    then have "filter (\<lambda>y. fst y \<noteq> k) xs = xs"
      using Cons.prems(1) by (simp add: filter_id_conv) (metis imageI)
    with True show ?thesis by simp
  next
    case False
    with Cons show ?thesis by auto
  qed
qed

lemma distinct_key_front:
  "distinct (map fst xs) \<Longrightarrow> distinct (map fst ((k, e) # filter (\<lambda>x. fst x \<noteq> k) xs))"
  by (auto simp: distinct_map inj_on_def)

interpretation lru: lru_cache lru_new lru_get lru_put "\<lambda>c. map_of (ll_entries c)" ll_cap lru_inv
proof (unfold_locales, goal_cases)
  case (1 n)
  show ?case by (simp add: lru_new_def lru_inv_def)
next
  case (2 c k r c')
  show ?case
  proof (cases "map_of (ll_entries c) k")
    case None
    with 2 show ?thesis by (simp add: lru_get_def)
  next
    case (Some e)
    with 2 have "c' = c\<lparr>ll_entries := (k, e) # filter (\<lambda>x. fst x \<noteq> k) (ll_entries c)\<rparr>" "r = Some e"
      by (simp_all add: lru_get_def)
    moreover have "(map_of (ll_entries c))(k := None, k \<mapsto> e) = map_of (ll_entries c)"
      using Some by (simp add: fun_upd_idem)
    ultimately show ?thesis
      using 2(1) Some distinct_key_front [of "ll_entries c" k e] length_filter_key [of "ll_entries c" k e]
      by (simp add: lru_inv_def map_of_filter_key)
  qed
next
  case (3 c k v)
  have "map_of ((k, v) # filter (\<lambda>x. fst x \<noteq> k) (ll_entries c)) = (map_of (ll_entries c))(k \<mapsto> v)"
    by (simp add: map_of_filter_key)
  moreover have "distinct (map fst (take (ll_cap c) ((k, v) # filter (\<lambda>x. fst x \<noteq> k) (ll_entries c))))"
    using distinct_key_front [of "ll_entries c" k v] 3
    by (simp only: lru_inv_def take_map [symmetric] distinct_take)
  ultimately show ?case
    using map_of_take_le [of "ll_cap c" "(k, v) # filter (\<lambda>x. fst x \<noteq> k) (ll_entries c)"]
    by (simp add: lru_put_def lru_inv_def)
next
  case (4 c k v)
  then show ?case by (cases "ll_cap c") (simp_all add: lru_put_def)
next
  case (5 c)
  then have "card (dom (map_of (ll_entries c))) \<le> length (ll_entries c)"
    by (simp add: dom_map_of_conv_image_fst) (metis card_length length_map list.set_map)
  with 5 show ?case by (simp add: lru_inv_def finite_dom_map_of)
qed

section \<open>Keys and the choice of an address\<close>

lemma cache_key_inject [simp]: "cache_key h p = cache_key h' p' \<longleftrightarrow> h = h' \<and> p = p'"
proof
  assume eq: "cache_key h p = cache_key h' p'"
  have colon: "CHR '':'' \<notin> set (dec_string (unat q))" for q :: u16
    using dec_string_digit digit_not_separator(2) by blast
  have "split_last CHR '':'' (cache_key h p) = Some (h, dec_string (unat p))"
    "split_last CHR '':'' (cache_key h' p') = Some (h', dec_string (unat p'))"
    using colon by (simp_all add: cache_key_def)
  with eq have *: "h = h'" "dec_string (unat p) = dec_string (unat p')" by simp_all
  have "parse_uint 65535 (dec_string (unat q)) = Some (unat q)" for q :: u16
  proof -
    have "unat q < 65536" using unsigned_less [of q] by simp
    then show ?thesis by (intro parse_uint_dec_string) simp
  qed
  with *(2) have "unat p = unat p'" by (metis option.inject)
  with * show "h = h' \<and> p = p'" by (simp add: word_unat_eq_iff)
qed simp

lemma insort_key_bool:
  fixes f :: "'a \<Rightarrow> bool"
  assumes "\<forall>y \<in> set ys. \<not> f y" and "\<forall>z \<in> set zs. f z"
  shows "insort_key f x (ys @ zs) = (if f x then ys @ x # zs else x # ys @ zs)"
  using assms
proof (induction ys)
  case Nil
  then show ?case by (cases zs) auto
next
  case (Cons y ys)
  then show ?case by auto
qed

lemma sort_key_bool:
  fixes f :: "'a \<Rightarrow> bool"
  shows "sort_key f xs = filter (\<lambda>x. \<not> f x) xs @ filter f xs"
proof (induction xs)
  case Nil
  show ?case by simp
next
  case (Cons x xs)
  have "sort_key f (x # xs) = insort_key f x (filter (\<lambda>x. \<not> f x) xs @ filter f xs)"
    by (simp add: Cons.IH)
  also have "\<dots> = filter (\<lambda>x. \<not> f x) (x # xs) @ filter f (x # xs)"
    by (subst insort_key_bool) simp_all
  finally show ?case .
qed

text \<open>C39. The address a lookup takes is the first IPv4 address of the answer, and the first address
  when it holds none; it fails exactly when the lookup does or the answer is empty.\<close>

theorem lookup_host_prefers_ipv4:
  "lookup_host dns now hostname port =
     (case dns now hostname port of
        Ok addrs \<Rightarrow>
          (case find (\<lambda>a. \<not> socket_addr_is_ipv6 a) addrs of
             Some a \<Rightarrow> Ok a
           | None \<Rightarrow> if addrs = [] then Err (other_error ''no addresses'') else Ok (hd addrs))
      | Err e \<Rightarrow> Err e
      | Panic \<Rightarrow> Panic)"
proof (cases "dns now hostname port")
  case (Ok addrs)
  let ?v4 = "filter (\<lambda>a. \<not> socket_addr_is_ipv6 a) addrs"
  show ?thesis
  proof (cases ?v4)
    case Nil
    then have "filter socket_addr_is_ipv6 addrs = addrs"
      by (simp add: filter_id_conv filter_empty_conv)
    moreover have "find (\<lambda>a. \<not> socket_addr_is_ipv6 a) addrs = None"
      using Nil by (simp add: find_None_iff filter_empty_conv)
    ultimately show ?thesis
      using Ok Nil by (cases addrs) (simp_all add: lookup_host_def sort_key_bool)
  next
    case (Cons a as)
    moreover have "find P xs = (case filter P xs of [] \<Rightarrow> None | y # _ \<Rightarrow> Some y)" for P and xs :: "socket_addr list"
      by (induction xs) auto
    ultimately show ?thesis
      using Ok by (simp add: lookup_host_def sort_key_bool)
  qed
qed (simp_all add: lookup_host_def)

text \<open>The \<^verbatim>\<open>expect\<close> on the hostname never fires, since literals are answered before it.\<close>

lemma resolve_no_panic:
  assumes "\<And>t h p. dns t h p \<noteq> Panic"
  shows "fst (resolve get put dns now later rs location) \<noteq> Panic"
proof -
  have "lookup_host dns t h p \<noteq> Panic" for t h p
    using assms [of t h p] by (cases "dns t h p") (auto simp: lookup_host_def split: list.split)
  then show ?thesis
    by (auto simp: resolve_def to_socket_addr_nonblocking_def address_hostname_def net_location_components_def
      split: address.splits res.splits prod.splits option.splits)
qed

section \<open>Interleaved resolutions\<close>

text \<open>The resolver is shared by all connections. A step is one critical section, made at a time
  not before the last one: a check, or the store of what a lookup begun earlier gave.\<close>

inductive resolver_step ::
  "'c cache_get \<Rightarrow> 'c cache_put \<Rightarrow> dns \<Rightarrow> instant \<times> 'c resolver \<Rightarrow> instant \<times> 'c resolver \<Rightarrow> bool"
  for get put dns where
  check: "t \<le> t' \<Longrightarrow> resolve_check get t' rs hostname port = (r, rs') \<Longrightarrow>
    resolver_step get put dns (t, rs) (t', rs')"
| store: "t \<le> t' \<Longrightarrow> asked \<le> t' \<Longrightarrow> lookup_host dns asked hostname port = Ok addr \<Longrightarrow>
    resolver_step get put dns (t, rs) (t', resolve_store put t' rs hostname port addr)"

inductive_cases resolver_stepE: "resolver_step get put dns s s'"

text \<open>Every entry holds an address that a lookup of its key gave before it was stored.\<close>

definition cache_sound :: "dns \<Rightarrow> instant \<Rightarrow> (string \<rightharpoonup> cache_entry) \<Rightarrow> bool" where
  "cache_sound dns now es \<longleftrightarrow> (\<forall>k e. es k = Some e \<longrightarrow> ce_inserted e \<le> now \<and>
     (\<exists>h p asked. k = cache_key h p \<and> asked \<le> ce_inserted e \<and> lookup_host dns asked h p = Ok (ce_addr e)))"

lemma cache_sound_mono:
  assumes "cache_sound dns now es" and "es' \<subseteq>\<^sub>m es"
  shows "cache_sound dns now es'"
proof -
  have "es k = Some e" if "es' k = Some e" for k e
    using assms(2) that by (metis domI map_le_def)
  with assms(1) show ?thesis unfolding cache_sound_def by blast
qed

lemma cache_sound_later: "cache_sound dns now es \<Longrightarrow> now \<le> later \<Longrightarrow> cache_sound dns later es"
  unfolding cache_sound_def by (meson le_trans)

lemma cache_sound_insert:
  "cache_sound dns now es \<Longrightarrow> asked \<le> ce_inserted e \<Longrightarrow> ce_inserted e \<le> now \<Longrightarrow>
   lookup_host dns asked h p = Ok (ce_addr e) \<Longrightarrow> cache_sound dns now (es(cache_key h p \<mapsto> e))"
  by (auto simp: cache_sound_def)

context lru_cache
begin

definition resolver_ok :: "dns \<Rightarrow> instant \<Rightarrow> 'c resolver \<Rightarrow> bool" where
  "resolver_ok dns now rs \<longleftrightarrow>
     cache_inv (rs_cache rs) \<and> cap (rs_cache rs) = cache_size \<and> cache_sound dns now (entries (rs_cache rs))"

lemma resolver_ok_new: "resolver_ok dns now (with_tcp_congestion new algo)"
  by (simp add: resolver_ok_def with_tcp_congestion_def new_entries cache_sound_def)

lemma resolver_ok_later: "resolver_ok dns now rs \<Longrightarrow> now \<le> later \<Longrightarrow> resolver_ok dns later rs"
  by (auto simp: resolver_ok_def intro: cache_sound_later)

lemma resolver_ok_check:
  "resolver_ok dns now rs \<Longrightarrow> resolve_check get t rs h p = (r, rs') \<Longrightarrow> resolver_ok dns now rs'"
proof -
  assume ok: "resolver_ok dns now rs" and r: "resolve_check get t rs h p = (r, rs')"
  obtain e c' where g: "get (rs_cache rs) (cache_key h p) = (e, c')" by fastforce
  have "rs' = rs\<lparr>rs_cache := c'\<rparr>" using r g by (cases e) (simp_all add: resolve_check_def)
  then show ?thesis using ok get_entries [OF _ g] by (simp add: resolver_ok_def)
qed

lemma resolver_ok_store:
  assumes "resolver_ok dns t rs" and "asked \<le> t" and "lookup_host dns asked h p = Ok addr"
  shows "resolver_ok dns t (resolve_store put t rs h p addr)"
proof -
  let ?e = "\<lparr>ce_addr = addr, ce_inserted = t\<rparr>"
  have "cache_sound dns t ((entries (rs_cache rs))(cache_key h p \<mapsto> ?e))"
    using assms by (intro cache_sound_insert) (simp_all add: resolver_ok_def)
  with put_entries [of "rs_cache rs" "cache_key h p" ?e] assms(1) show ?thesis
    by (auto simp: resolve_store_def resolver_ok_def intro: cache_sound_mono)
qed

lemma resolver_ok_step:
  "resolver_step get put dns s s' \<Longrightarrow> resolver_ok dns (fst s) (snd s) \<Longrightarrow> resolver_ok dns (fst s') (snd s')"
  by (induction rule: resolver_step.induct)
    (auto intro: resolver_ok_check resolver_ok_store dest: resolver_ok_later)

lemma resolver_ok_reachable:
  "(resolver_step get put dns)\<^sup>*\<^sup>* s s' \<Longrightarrow> resolver_ok dns (fst s) (snd s) \<Longrightarrow> resolver_ok dns (fst s') (snd s')"
  by (induction rule: rtranclp_induct) (auto intro: resolver_ok_step)

lemma resolver_ok_size:
  "resolver_ok dns now rs \<Longrightarrow> card (dom (entries (rs_cache rs))) \<le> cache_size"
  using entries_bound [of "rs_cache rs"] by (simp add: resolver_ok_def)

lemma check_answer:
  assumes "resolver_ok dns t rs" and "resolve_check get t rs h p = (Some addr, rs')"
  shows "\<exists>asked stored. asked \<le> stored \<and> stored \<le> t \<and> t < stored + cache_ttl \<and>
    lookup_host dns asked h p = Ok addr"
proof -
  obtain e c' where g: "get (rs_cache rs) (cache_key h p) = (Some e, c')"
    and e: "t - ce_inserted e < cache_ttl" "addr = ce_addr e"
    using assms(2) by (auto simp: resolve_check_def split: prod.splits option.splits if_splits)
  have "entries (rs_cache rs) (cache_key h p) = Some e"
    using get_entries [OF _ g] assms(1) by (simp add: resolver_ok_def)
  then have le: "ce_inserted e \<le> t"
    and "\<exists>h' p' asked. cache_key h p = cache_key h' p' \<and> asked \<le> ce_inserted e \<and>
      lookup_host dns asked h' p' = Ok (ce_addr e)"
    using assms(1) unfolding resolver_ok_def cache_sound_def by blast+
  then obtain asked where "asked \<le> ce_inserted e" "lookup_host dns asked h p = Ok (ce_addr e)"
    by auto
  moreover have "t < ce_inserted e + cache_ttl" using e(1) le by simp
  ultimately show ?thesis using le e(2) by blast
qed

end

text \<open>C21. Whatever resolutions run and however they interleave, an address answered out of the cache
  is one that a lookup of the very same host and port gave, and it was stored less than a minute
  before; the cache never holds more than 1024 entries.\<close>

theorem resolver_answers_fresh:
  assumes "lru_cache new get put entries cap cache_inv"
    and "(resolver_step get put dns)\<^sup>*\<^sup>* (t0, with_tcp_congestion new algo) (t1, rs)"
    and "t1 \<le> t" and "resolve_check get t rs hostname port = (r, rs')"
  shows "card (dom (entries (rs_cache rs))) \<le> 1024 \<and>
    (\<forall>addr. r = Some addr \<longrightarrow> (\<exists>asked stored. asked \<le> stored \<and> stored \<le> t \<and> t < stored + secs 60 \<and>
       lookup_host dns asked hostname port = Ok addr))"
proof -
  note cache = assms(1)
  have "lru_cache.resolver_ok entries cap cache_inv dns t1 rs"
    using lru_cache.resolver_ok_reachable [OF cache assms(2)] lru_cache.resolver_ok_new [OF cache]
    by simp
  from lru_cache.resolver_ok_later [OF cache this assms(3)]
  have ok: "lru_cache.resolver_ok entries cap cache_inv dns t rs" .
  show ?thesis
    using lru_cache.resolver_ok_size [OF cache ok] lru_cache.check_answer [OF cache ok] assms(4)
    by blast
qed

text \<open>A store and, five seconds later, a check that it answers.\<close>

definition one_dns :: dns where
  "one_dns t hostname port = Ok [SockV6 1 port 0, SockV4 (0x01020304) port]"

theorem resolver_answers_fresh_witness:
  "let rs = resolve_store lru_put 7 (with_tcp_congestion lru_new ''bbr'') ''a'' 80 (SockV4 0x01020304 80);
       (r, rs') = resolve_check lru_get (7 + secs 5) rs ''a'' 80
   in r = Some (SockV4 0x01020304 80) \<and> card (dom (map_of (ll_entries (rs_cache rs)))) \<le> 1024 \<and>
     (\<exists>asked stored. asked \<le> stored \<and> stored \<le> 7 + secs 5 \<and> 7 + secs 5 < stored + secs 60 \<and>
       lookup_host one_dns asked ''a'' 80 = Ok (SockV4 0x01020304 80))"
proof -
  let ?fresh = "with_tcp_congestion lru_new ''bbr''"
  let ?stored = "resolve_store lru_put 7 ?fresh ''a'' 80 (SockV4 0x01020304 80)"
  have "lookup_host one_dns 3 ''a'' 80 = Ok (SockV4 0x01020304 80)"
    by (simp add: lookup_host_def one_dns_def)
  then have "resolver_step lru_get lru_put one_dns (0, ?fresh) (7, ?stored)"
    by (intro resolver_step.store) simp_all
  then have reach: "(resolver_step lru_get lru_put one_dns)\<^sup>*\<^sup>* (0, ?fresh) (7, ?stored)" by blast
  obtain r rs' where chk: "resolve_check lru_get (7 + secs 5) ?stored ''a'' 80 = (r, rs')" by fastforce
  then have "r = Some (SockV4 0x01020304 80)"
    by (auto simp: resolve_check_def lru_get_def resolve_store_def lru_put_def with_tcp_congestion_def
      lru_new_def secs_def)
  with resolver_answers_fresh [OF lru.lru_cache_axioms reach _ chk] show ?thesis
    unfolding Let_def chk by simp
qed

end
