(* ===== verification/Socket_Util.thy ===== *)
theory Socket_Util
  imports Resolver
begin

text \<open>
  \<^verbatim>\<open>src/socket_util.rs\<close> and \<^verbatim>\<open>src/dial.rs\<close>, as compiled on Linux: the creation of sockets and the
  dialling of destinations. The system is the parameter \<open>sys\<close>, which performs one \<open>sys_call\<close> and gives
  its result, a descriptor where it makes one. A socket is its descriptor. Rust closes a socket
  when its owner goes out of scope, which on an early return is the end of the function: \<open>owning\<close>
  closes what the function still owns when it does not succeed.

  The locale \<open>descriptors\<close> states what the calls do to the set of open descriptors, and the lemmas in it
  that no function of these files leaks one.
\<close>

section \<open>System calls\<close>

type_synonym fd = nat

datatype domain = IPV4 | IPV6
datatype sock_type = DGRAM | STREAM

datatype sys_call =
    SysSocket domain sock_type
  | SysNonblocking fd bool
  | SysRecvBuffer fd nat
  | SysSendBuffer fd nat
  | SysReusePort fd bool
  | SysReuseAddress fd bool
  | SysBind fd socket_addr
  | SysListen fd int
  | SysRegister fd
  | SysConnectTcp socket_addr
  | SysConnectUdp fd socket_addr
  | SysNodelay fd bool
  | SysKeepalive fd bool
  | SysTcpKeepalive fd nat nat
  | SysCongestion fd "byte list"
  | SysClose fd

type_synonym 's system = "sys_call \<Rightarrow> (fd, 's) io"

definition owning :: "'s system \<Rightarrow> fd \<Rightarrow> ('a, 's) io \<Rightarrow> ('a, 's) io" where
  "owning sys fd m = (\<lambda>s. case m s of
      (Ok x, s') \<Rightarrow> (Ok x, s')
    | (Err e, s') \<Rightarrow> (Err e, snd (sys (SysClose fd) s'))
    | (Panic, s') \<Rightarrow> (Panic, snd (sys (SysClose fd) s')))"

lemma fst_owning [simp]: "fst (owning sys fd m s) = fst (m s)"
  by (auto simp: owning_def split: prod.splits res.splits)

section \<open>Sockets\<close>

definition get_unspecified_socket_addr :: "bool \<Rightarrow> socket_addr" where
  "get_unspecified_socket_addr is_ipv6 = (if \<not> is_ipv6 then SockV4 0 0 else SockV6 0 0 0)"

definition new_socket2_udp_socket_with_buffer_size ::
  "'s system \<Rightarrow> bool \<Rightarrow> socket_addr option \<Rightarrow> bool \<Rightarrow> nat option \<Rightarrow> (fd, 's) io" where
  "new_socket2_udp_socket_with_buffer_size sys is_ipv6 bind_address reuse_port buffer_size =
     bind_io (sys (SysSocket (if is_ipv6 then IPV6 else IPV4) DGRAM)) (\<lambda>socket.
     owning sys socket (
       bind_io (sys (SysNonblocking socket True)) (\<lambda>_.
       bind_io (case buffer_size of
                  Some n \<Rightarrow> bind_io (ignoring (sys (SysRecvBuffer socket n))) (\<lambda>_.
                            ignoring (sys (SysSendBuffer socket n)))
                | None \<Rightarrow> ret ()) (\<lambda>_.
       bind_io (if reuse_port then sys (SysReusePort socket True) else ret 0) (\<lambda>_.
       bind_io (case bind_address of
                  Some addr \<Rightarrow> sys (SysBind socket addr)
                | None \<Rightarrow> ret 0) (\<lambda>_.
       ret socket))))))"

definition new_socket2_udp_socket ::
  "'s system \<Rightarrow> bool \<Rightarrow> socket_addr option \<Rightarrow> bool \<Rightarrow> (fd, 's) io" where
  "new_socket2_udp_socket sys is_ipv6 bind_address reuse_port =
     new_socket2_udp_socket_with_buffer_size sys is_ipv6 bind_address reuse_port None"

definition into_tokio_udp_socket :: "'s system \<Rightarrow> fd \<Rightarrow> (fd, 's) io" where
  "into_tokio_udp_socket sys socket =
     owning sys socket (bind_io (sys (SysRegister socket)) (\<lambda>_. ret socket))"

definition new_udp_socket :: "'s system \<Rightarrow> bool \<Rightarrow> (fd, 's) io" where
  "new_udp_socket sys is_ipv6 =
     bind_io (new_socket2_udp_socket sys is_ipv6 (Some (get_unspecified_socket_addr is_ipv6)) False)
       (into_tokio_udp_socket sys)"

text \<open>\<^verbatim>\<open>backlog.try_into().unwrap_or(4096)\<close>: the target is a signed 32-bit integer.\<close>

definition listen_backlog :: "u32 \<Rightarrow> int" where
  "listen_backlog backlog = (if unat backlog < 2 ^ 31 then int (unat backlog) else 4096)"

definition new_tcp_listener :: "'s system \<Rightarrow> socket_addr \<Rightarrow> u32 \<Rightarrow> (fd, 's) io" where
  "new_tcp_listener sys bind_address backlog =
     bind_io (sys (SysSocket (if socket_addr_is_ipv6 bind_address then IPV6 else IPV4) STREAM)) (\<lambda>socket.
     owning sys socket (
       bind_io (sys (SysNonblocking socket True)) (\<lambda>_.
       bind_io (sys (SysReuseAddress socket True)) (\<lambda>_.
       bind_io (sys (SysBind socket bind_address)) (\<lambda>_.
       bind_io (sys (SysListen socket (listen_backlog backlog))) (\<lambda>_.
       bind_io (sys (SysRegister socket)) (\<lambda>_.
       ret socket)))))))"

definition set_tcp_keepalive :: "'s system \<Rightarrow> fd \<Rightarrow> nat \<Rightarrow> nat \<Rightarrow> (unit, 's) io" where
  "set_tcp_keepalive sys socket idle_time send_interval =
     bind_io (if idle_time = 0 \<and> send_interval = 0 then sys (SysKeepalive socket False)
              else bind_io (sys (SysKeepalive socket True)) (\<lambda>_.
                   sys (SysTcpKeepalive socket idle_time send_interval))) (\<lambda>_.
     ret ())"

definition set_tcp_congestion :: "'s system \<Rightarrow> fd \<Rightarrow> string \<Rightarrow> (bool, 's) io" where
  "set_tcp_congestion sys socket algorithm =
     bind_io (sys (SysCongestion socket (bytes_of algorithm))) (\<lambda>_. ret True)"

text \<open>The socket made for the probe is dropped at the end of its arm.\<close>

definition probe_tcp_congestion_available :: "'s system \<Rightarrow> string \<Rightarrow> 's \<Rightarrow> bool \<times> 's" where
  "probe_tcp_congestion_available sys algorithm s =
     (case sys (SysSocket IPV4 STREAM) s of
        (Ok sock, s1) \<Rightarrow>
          (case sys (SysCongestion sock (bytes_of algorithm)) s1 of
             (r, s2) \<Rightarrow> (case r of Ok _ \<Rightarrow> True | _ \<Rightarrow> False, snd (sys (SysClose sock) s2)))
      | (_, s1) \<Rightarrow> (False, s1))"

text \<open>\<^verbatim>\<open>split_whitespace\<close>: the non-empty pieces between white space.\<close>

function split_whitespace :: "string \<Rightarrow> string \<Rightarrow> string list" where
  "split_whitespace piece s =
     (let done_with = (if piece = [] then [] else [piece]) in
      if s = [] then done_with
      else (case find (\<lambda>w. w \<noteq> [] \<and> has_prefix w s) (map (map char_of) white_space) of
              Some w \<Rightarrow> done_with @ split_whitespace [] (drop (length w) s)
            | None \<Rightarrow> split_whitespace (piece @ [hd s]) (tl s)))"
  by pat_completeness auto
termination
  by (relation "measure (\<lambda>(_, s). length s)")
    (auto simp: find_Some_iff has_prefix_def Let_def)

declare split_whitespace.simps [simp del]

definition read_available_congestion_controls :: "string res \<Rightarrow> string list" where
  "read_available_congestion_controls file =
     (case file of
        Ok s \<Rightarrow> filter (\<lambda>p. p \<noteq> []) (map trim (split_whitespace [] s))
      | _ \<Rightarrow> [])"

section \<open>Dialling\<close>

text \<open>Resolution is the argument \<open>rslv\<close>, an instance of \<^const>\<open>resolve\<close>; the state is the resolver's
  and the system's.\<close>

type_synonym 'r resolution = "'r \<Rightarrow> net_location \<Rightarrow> socket_addr res \<times> 'r"

definition with_resolved ::
  "'r resolution \<Rightarrow> net_location \<Rightarrow> (socket_addr \<Rightarrow> ('a, 's) io) \<Rightarrow> 'r \<times> 's \<Rightarrow> 'a res \<times> 'r \<times> 's" where
  "with_resolved rslv location f = (\<lambda>(rs, s).
     case rslv rs location of
       (Ok addr, rs') \<Rightarrow> (case f addr s of (r, s') \<Rightarrow> (r, rs', s'))
     | (Err e, rs') \<Rightarrow> (Err e, rs', s)
     | (Panic, rs') \<Rightarrow> (Panic, rs', s))"

definition connect_tcp_addr :: "'s system \<Rightarrow> socket_addr \<Rightarrow> (fd, 's) io" where
  "connect_tcp_addr sys addr =
     bind_io (sys (SysConnectTcp addr)) (\<lambda>stream.
     owning sys stream (
       bind_io (ignoring (sys (SysNodelay stream True))) (\<lambda>_.
       bind_io (ignoring (set_tcp_keepalive sys stream (secs 60) (secs 15))) (\<lambda>_.
       ret stream))))"

definition connect_tcp ::
  "'s system \<Rightarrow> 'r resolution \<Rightarrow> net_location \<Rightarrow> 'r \<times> 's \<Rightarrow> fd res \<times> 'r \<times> 's" where
  "connect_tcp sys rslv location = with_resolved rslv location (connect_tcp_addr sys)"

definition connect_tcp_with_cc ::
  "'s system \<Rightarrow> 'r resolution \<Rightarrow> net_location \<Rightarrow> string \<Rightarrow> 'r \<times> 's \<Rightarrow> fd res \<times> 'r \<times> 's" where
  "connect_tcp_with_cc sys rslv location congestion_algo st =
     (case connect_tcp sys rslv location st of
        (Ok stream, rs, s) \<Rightarrow>
          (case owning sys stream (
                  bind_io (if congestion_algo \<noteq> []
                           then ignoring (set_tcp_congestion sys stream congestion_algo) else ret ()) (\<lambda>_.
                  ret stream)) s of
             (r, s') \<Rightarrow> (r, rs, s'))
      | (Err e, st') \<Rightarrow> (Err e, st')
      | (Panic, st') \<Rightarrow> (Panic, st'))"

definition connect_udp ::
  "'s system \<Rightarrow> 'r resolution \<Rightarrow> net_location \<Rightarrow> 'r \<times> 's \<Rightarrow> fd res \<times> 'r \<times> 's" where
  "connect_udp sys rslv location = with_resolved rslv location (\<lambda>addr.
     bind_io (new_udp_socket sys (socket_addr_is_ipv6 addr)) (\<lambda>socket.
     owning sys socket (bind_io (sys (SysConnectUdp socket addr)) (\<lambda>_. ret socket))))"

definition connect_tcp_arc ::
  "'s system \<Rightarrow> ('c resolver) resolution \<Rightarrow> net_location \<Rightarrow> 'c resolver \<times> 's \<Rightarrow>
   fd res \<times> 'c resolver \<times> 's" where
  "connect_tcp_arc sys rslv location st =
     connect_tcp_with_cc sys rslv location (rs_tcp_congestion (fst st)) st"

text \<open>\<^verbatim>\<open>timeout\<close> around a dial: \<open>elapsed\<close> is the state a dial leaves that is dropped because its time is up.\<close>

definition within :: "'st option \<Rightarrow> ('st \<Rightarrow> 'a res \<times> 'st) \<Rightarrow> 'st \<Rightarrow> 'a res option \<times> 'st" where
  "within elapsed dial st =
     (case elapsed of
        Some st' \<Rightarrow> (None, st')
      | None \<Rightarrow> (case dial st of (r, st') \<Rightarrow> (Some r, st')))"

section \<open>Descriptors\<close>

fun makes_fd :: "sys_call \<Rightarrow> bool" where
  "makes_fd (SysSocket _ _) = True"
| "makes_fd (SysConnectTcp _) = True"
| "makes_fd _ = False"

fun closes_fd :: "sys_call \<Rightarrow> bool" where
  "closes_fd (SysClose _) = True"
| "closes_fd _ = False"

text \<open>What an action that makes a socket may do: its result is the only descriptor it leaves open.\<close>

definition accounted :: "('s \<Rightarrow> fd set) \<Rightarrow> 's \<Rightarrow> fd res \<Rightarrow> 's \<Rightarrow> bool" where
  "accounted opened s r s' \<longleftrightarrow>
     (case r of
        Ok fd \<Rightarrow> fd \<notin> opened s \<and> opened s' = insert fd (opened s)
      | Err e \<Rightarrow> opened s' = opened s
      | Panic \<Rightarrow> False)"

locale descriptors =
  fixes sys :: "'s system" and opened :: "'s \<Rightarrow> fd set"
  assumes made: "makes_fd c \<Longrightarrow> sys c s = (Ok fd, s') \<Longrightarrow> fd \<notin> opened s \<and> opened s' = insert fd (opened s)"
    and not_made: "makes_fd c \<Longrightarrow> sys c s = (Err e, s') \<Longrightarrow> opened s' = opened s"
    and closed: "opened (snd (sys (SysClose fd) s)) = opened s - {fd}"
    and others: "\<not> makes_fd c \<Longrightarrow> \<not> closes_fd c \<Longrightarrow> opened (snd (sys c s)) = opened s"
    and no_panic: "fst (sys c s) \<noteq> Panic"
begin

text \<open>Three kinds of actions: those that leave the open descriptors alone, those that also give back
  the descriptor they were given, and those that open one, which they return, or none.\<close>

definition quiet :: "('a, 's) io \<Rightarrow> bool" where
  "quiet m \<longleftrightarrow> (\<forall>s. opened (snd (m s)) = opened s \<and> fst (m s) \<noteq> Panic)"

definition keeps :: "fd \<Rightarrow> (fd, 's) io \<Rightarrow> bool" where
  "keeps fd m \<longleftrightarrow> quiet m \<and> (\<forall>s x s'. m s = (Ok x, s') \<longrightarrow> x = fd)"

definition opens :: "(fd, 's) io \<Rightarrow> bool" where
  "opens m \<longleftrightarrow> (\<forall>s r s'. m s = (r, s') \<longrightarrow> accounted opened s r s')"

lemma quiet_ret [intro]: "quiet (ret x)"
  by (simp add: quiet_def ret_def)

lemma quiet_bind [intro]: "quiet m \<Longrightarrow> (\<And>x. quiet (f x)) \<Longrightarrow> quiet (bind_io m f)"
  unfolding quiet_def bind_io_def by (auto split: prod.splits res.splits) (metis fst_conv snd_conv)+

lemma quiet_ignoring [intro]: "quiet m \<Longrightarrow> quiet (ignoring m)"
  unfolding quiet_def ignoring_def by (auto split: prod.splits res.splits) (metis fst_conv snd_conv)+

lemma quiet_sys [intro]: "\<not> makes_fd c \<Longrightarrow> \<not> closes_fd c \<Longrightarrow> quiet (sys c)"
  by (simp add: quiet_def others no_panic)

lemma fst_bind_ignoring: "quiet m \<Longrightarrow> fst (bind_io (ignoring m) f s) = fst (f () (snd (m s)))"
  unfolding quiet_def bind_io_def ignoring_def
  by (auto split: prod.splits res.splits) (metis fst_conv snd_conv)+

lemma keeps_ret [intro]: "keeps fd (ret fd)"
  by (auto simp: keeps_def ret_def intro: quiet_ret [unfolded ret_def])

lemma keeps_bind [intro]: "quiet m \<Longrightarrow> (\<And>x. keeps fd (f x)) \<Longrightarrow> keeps fd (bind_io m f)"
proof -
  assume m: "quiet m" and f: "\<And>x. keeps fd (f x)"
  then have "quiet (bind_io m f)" by (intro quiet_bind) (simp_all add: keeps_def)
  moreover have "x = fd" if "bind_io m f s = (Ok x, s')" for s x s'
    using that f by (auto simp: bind_io_def keeps_def split: prod.splits res.splits)
  ultimately show ?thesis by (simp add: keeps_def)
qed

lemma opens_sys [intro]: "makes_fd c \<Longrightarrow> opens (sys c)"
  using no_panic [of c] by (auto simp: opens_def accounted_def made not_made split: res.splits) (metis fst_conv)

text \<open>An owned descriptor that an action keeps stays accounted for.\<close>

lemma accounted_owning:
  assumes "accounted opened s (Ok fd) s1" and "keeps fd m" and "owning sys fd m s1 = (r, s')"
  shows "accounted opened s r s'"
proof -
  obtain r2 s2 where m_s: "m s1 = (r2, s2)" by fastforce
  with assms(2) have q: "opened s2 = opened s1" "r2 \<noteq> Panic" "\<And>x. r2 = Ok x \<Longrightarrow> x = fd"
    unfolding keeps_def quiet_def by (metis fst_conv snd_conv)+
  with assms m_s closed [of fd s2] show ?thesis
    by (cases r2) (auto simp: owning_def accounted_def)
qed

lemma opens_owning:
  assumes mk: "opens mk" and m: "\<And>fd. keeps fd (m fd)"
  shows "opens (bind_io mk (\<lambda>fd. owning sys fd (m fd)))"
proof (unfold opens_def, intro allI impI)
  fix s r s'
  assume run: "bind_io mk (\<lambda>fd. owning sys fd (m fd)) s = (r, s')"
  obtain r1 s1 where mk_s: "mk s = (r1, s1)" by fastforce
  with mk have o1: "accounted opened s r1 s1" by (simp add: opens_def)
  with run mk_s m show "accounted opened s r s'"
    by (cases r1) (auto simp: bind_io_def accounted_def [of _ _ "Err _"] intro: accounted_owning)
qed

lemma opens_new_tcp_listener: "opens (new_tcp_listener sys addr backlog)"
  unfolding new_tcp_listener_def
  by (intro opens_owning opens_sys keeps_bind quiet_sys keeps_ret) simp_all

lemma opens_udp_socket: "opens (new_socket2_udp_socket_with_buffer_size sys v6 bind_address reuse size_opt)"
  unfolding new_socket2_udp_socket_with_buffer_size_def
  by (intro opens_owning opens_sys keeps_bind quiet_sys keeps_ret)
    (auto intro!: quiet_bind quiet_ignoring quiet_sys split: option.splits)

lemma opens_new_udp_socket: "opens (new_udp_socket sys v6)"
  unfolding new_udp_socket_def new_socket2_udp_socket_def into_tokio_udp_socket_def
  by (intro opens_owning opens_udp_socket keeps_bind quiet_sys keeps_ret) simp_all

lemma quiet_keepalive: "quiet (set_tcp_keepalive sys fd idle interval)"
  unfolding set_tcp_keepalive_def by (auto intro!: quiet_bind quiet_sys quiet_ret)

lemma quiet_congestion: "quiet (set_tcp_congestion sys fd algo)"
  unfolding set_tcp_congestion_def by (auto intro!: quiet_bind quiet_sys quiet_ret)

lemma opens_connect_tcp_addr: "opens (connect_tcp_addr sys addr)"
  unfolding connect_tcp_addr_def
  by (intro opens_owning opens_sys keeps_bind keeps_ret quiet_ignoring quiet_sys quiet_keepalive) simp_all

lemma opens_connect_udp_addr:
  "opens (bind_io (new_udp_socket sys v6) (\<lambda>socket.
     owning sys socket (bind_io (sys (SysConnectUdp socket addr)) (\<lambda>_. ret socket))))"
  by (intro opens_owning opens_new_udp_socket keeps_bind keeps_ret quiet_sys) simp_all

text \<open>A resolution opens nothing.\<close>

lemma opens_with_resolved:
  assumes "\<And>addr. opens (f addr)" and "with_resolved rslv location f (rs, s) = (r, rs', s')"
    and "fst (rslv rs location) \<noteq> Panic"
  shows "accounted opened s r s'"
proof -
  obtain a rs1 where *: "rslv rs location = (a, rs1)" by fastforce
  show ?thesis
  proof (cases a)
    case (Ok addr)
    with assms(1) [of addr] assms(2) * show ?thesis
      by (auto simp: with_resolved_def opens_def split: prod.splits)
  qed (use assms * in \<open>auto simp: with_resolved_def accounted_def\<close>)
qed

lemma opens_connect_tcp_with_cc:
  assumes "connect_tcp_with_cc sys rslv location algo (rs, s) = (r, rs', s')"
    and "fst (rslv rs location) \<noteq> Panic"
  shows "accounted opened s r s'"
proof -
  obtain a rs1 s1 where *: "connect_tcp sys rslv location (rs, s) = (a, rs1, s1)"
    by (cases "connect_tcp sys rslv location (rs, s)") auto
  then have o1: "accounted opened s a s1"
    using opens_with_resolved [where f = "connect_tcp_addr sys"] opens_connect_tcp_addr assms(2)
    by (simp add: connect_tcp_def)
  have "keeps fd (bind_io (if algo \<noteq> [] then ignoring (set_tcp_congestion sys fd algo) else ret ()) (\<lambda>_. ret fd))" for fd
    by (auto intro!: keeps_bind quiet_ignoring quiet_congestion)
  with o1 assms(1) * show ?thesis
    by (cases a) (auto simp: connect_tcp_with_cc_def split: prod.splits intro: accounted_owning)
qed

lemma probe_opens_nothing: "opened (snd (probe_tcp_congestion_available sys algo s)) = opened s"
proof -
  obtain r s1 where mk: "sys (SysSocket IPV4 STREAM) s = (r, s1)" by fastforce
  show ?thesis
  proof (cases r)
    case (Ok fd)
    with mk made [of "SysSocket IPV4 STREAM"] have "fd \<notin> opened s" "opened s1 = insert fd (opened s)"
      by simp_all
    moreover obtain r2 s2 where c: "sys (SysCongestion fd (bytes_of algo)) s1 = (r2, s2)" by fastforce
    moreover have "opened s2 = opened s1" using c others [of "SysCongestion fd (bytes_of algo)" s1] by simp
    ultimately show ?thesis
      using Ok mk closed [of fd s2] by (simp add: probe_tcp_congestion_available_def)
  next
    case (Err e)
    with mk not_made [of "SysSocket IPV4 STREAM"] show ?thesis
      by (simp add: probe_tcp_congestion_available_def)
  next
    case Panic
    with mk no_panic [of "SysSocket IPV4 STREAM" s] show ?thesis by simp
  qed
qed

end

section \<open>A system with a table of descriptors\<close>

text \<open>It hands out descriptors in order and refuses the calls of a given set.\<close>

record fd_table =
  ft_next :: fd
  ft_open :: "fd set"
  ft_refuses :: "sys_call \<Rightarrow> bool"

definition table_call :: "fd_table system" where
  "table_call c k =
     (case c of
        SysClose fd \<Rightarrow> (Ok fd, k\<lparr>ft_open := ft_open k - {fd}\<rparr>)
      | _ \<Rightarrow>
          if ft_refuses k c then (Err (other_error ''refused''), k)
          else if makes_fd c
          then (Ok (ft_next k), k\<lparr>ft_next := ft_next k + 1, ft_open := insert (ft_next k) (ft_open k)\<rparr>)
          else (Ok 0, k))"

text \<open>A descriptor not handed out yet is not open.\<close>

definition table_opened :: "fd_table \<Rightarrow> fd set" where
  "table_opened k = {fd \<in> ft_open k. fd < ft_next k}"

interpretation table: descriptors table_call table_opened
proof (unfold_locales, goal_cases)
  case (1 c s fd s')
  then show ?case
    by (cases c) (auto simp: table_call_def table_opened_def split: if_splits)
next
  case (2 c s e s')
  then show ?case by (cases c) (auto simp: table_call_def table_opened_def split: if_splits)
next
  case (3 fd s)
  show ?case by (auto simp: table_call_def table_opened_def)
next
  case (4 c s)
  then show ?case by (cases c) (auto simp: table_call_def table_opened_def)
next
  case (5 c s)
  show ?case by (cases c) (simp_all add: table_call_def)
qed

section \<open>Properties\<close>

text \<open>C22. No socket is leaked: dialling over TCP and UDP, opening a listener and probing for a congestion
  control leave open, beside what was open before, only the descriptor they return; after a failure
  at any of their calls they leave nothing.\<close>

theorem sockets_not_leaked:
  assumes "descriptors sys opened" and "\<And>t h p. dns t h p \<noteq> Panic"
  shows "(\<forall>r rs' s'. connect_tcp_arc sys (resolve get put dns now later) location (rs, s) = (r, rs', s') \<longrightarrow>
           accounted opened s r s')
    \<and> (\<forall>r rs' s'. connect_udp sys (resolve get put dns now later) location (rs, s) = (r, rs', s') \<longrightarrow>
           accounted opened s r s')
    \<and> (\<forall>r s'. new_tcp_listener sys bind_address backlog s = (r, s') \<longrightarrow> accounted opened s r s')
    \<and> opened (snd (probe_tcp_congestion_available sys algo s)) = opened s"
proof -
  note sys = assms(1)
  have np: "fst (resolve get put dns now later rs location) \<noteq> Panic"
    by (rule resolve_no_panic) (rule assms(2))
  have "accounted opened s r s'"
    if "connect_udp sys (resolve get put dns now later) location (rs, s) = (r, rs', s')" for r rs' s'
    by (rule descriptors.opens_with_resolved [OF sys descriptors.opens_connect_udp_addr [OF sys]
        that [unfolded connect_udp_def] np])
  moreover have "accounted opened s r s'"
    if "connect_tcp_arc sys (resolve get put dns now later) location (rs, s) = (r, rs', s')" for r rs' s'
    by (rule descriptors.opens_connect_tcp_with_cc [OF sys that [unfolded connect_tcp_arc_def] np])
  ultimately show ?thesis
    using descriptors.opens_new_tcp_listener [OF sys] descriptors.probe_opens_nothing [OF sys]
    by (simp add: descriptors.opens_def [OF sys])
qed

text \<open>Dialling over TCP succeeds exactly when the resolution and the connection do: a destination
  is not lost to a socket option that the system refuses, a congestion control it does not have included.\<close>

theorem connect_tcp_needs_no_options:
  assumes "descriptors sys opened"
  shows "fst (connect_tcp_arc sys rslv location (rs, s)) =
    (case fst (rslv rs location) of
       Ok addr \<Rightarrow> fst (sys (SysConnectTcp addr) s)
     | Err e \<Rightarrow> Err e
     | Panic \<Rightarrow> Panic)"
proof -
  have tcp: "fst (connect_tcp_addr sys addr s) = fst (sys (SysConnectTcp addr) s)" for addr
    unfolding connect_tcp_addr_def
    by (rule fst_bind_keep)
      (simp add: fst_owning descriptors.fst_bind_ignoring [OF assms] descriptors.quiet_sys [OF assms]
        descriptors.quiet_keepalive [OF assms])
  have cc: "fst (owning sys fd (bind_io (if algo \<noteq> [] then ignoring (set_tcp_congestion sys fd algo) else ret ())
      (\<lambda>_. ret fd)) t) = Ok fd" for fd algo t
    by (simp add: fst_owning descriptors.fst_bind_ignoring [OF assms] descriptors.quiet_congestion [OF assms])
  obtain a rs1 where rs1: "rslv rs location = (a, rs1)" by fastforce
  show ?thesis
  proof (cases a)
    case (Ok addr)
    obtain c s1 where c: "connect_tcp_addr sys addr s = (c, s1)" by fastforce
    then have "c = fst (sys (SysConnectTcp addr) s)" using tcp [of addr] by simp
    moreover have "fst (connect_tcp_arc sys rslv location (rs, s)) = c"
      using rs1 Ok c cc [of _ "rs_tcp_congestion rs" s1]
      by (cases c) (simp_all add: connect_tcp_arc_def connect_tcp_with_cc_def connect_tcp_def with_resolved_def
        case_prod_unfold)
    ultimately show ?thesis using rs1 Ok by simp
  qed (simp_all add: rs1 connect_tcp_arc_def connect_tcp_with_cc_def connect_tcp_def with_resolved_def)
qed

text \<open>A system that refuses to set the congestion control, and one that refuses to bind.\<close>

definition fresh_table :: "(sys_call \<Rightarrow> bool) \<Rightarrow> fd_table" where
  "fresh_table refuses = \<lparr>ft_next = 3, ft_open = {0, 1, 2}, ft_refuses = refuses\<rparr>"

definition refuses_bind :: "sys_call \<Rightarrow> bool" where
  "refuses_bind c = (case c of SysBind _ _ \<Rightarrow> True | _ \<Rightarrow> False)"

definition refuses_congestion :: "sys_call \<Rightarrow> bool" where
  "refuses_congestion c = (case c of SysCongestion _ _ \<Rightarrow> True | _ \<Rightarrow> False)"

theorem sockets_not_leaked_witness:
  "let s = fresh_table refuses_bind in
   (\<forall>r rs' s'. connect_udp table_call (resolve lru_get lru_put one_dns 0 0) \<lparr>nl_address = Hostname ''a'', nl_port = 53\<rparr>
      (with_tcp_congestion lru_new [], s) = (r, rs', s') \<longrightarrow> accounted table_opened s r s')
   \<and> fst (new_tcp_listener table_call (SockV4 0 80) 128 s) = Err (other_error ''refused'')
   \<and> accounted table_opened s (fst (new_tcp_listener table_call (SockV4 0 80) 128 s))
       (snd (new_tcp_listener table_call (SockV4 0 80) 128 s))"
proof -
  let ?s = "fresh_table refuses_bind"
  have dns: "\<And>t h p. one_dns t h p \<noteq> Panic" by (simp add: one_dns_def)
  note leak = sockets_not_leaked [where dns = one_dns, OF table.descriptors_axioms dns]
  have "fst (new_tcp_listener table_call (SockV4 0 80) 128 ?s) = Err (other_error ''refused'')"
    by (simp add: new_tcp_listener_def bind_io_def owning_def table_call_def fresh_table_def refuses_bind_def)
  moreover have "accounted table_opened ?s (fst (new_tcp_listener table_call (SockV4 0 80) 128 ?s))
      (snd (new_tcp_listener table_call (SockV4 0 80) 128 ?s))"
    using leak by (metis prod.collapse)
  ultimately show ?thesis unfolding Let_def using leak by blast
qed

theorem connect_tcp_needs_no_options_witness:
  "let rs = with_tcp_congestion lru_new ''bbr'';
       location = \<lparr>nl_address = Ipv4 0x01020304, nl_port = 80\<rparr>;
       rslv = resolve lru_get lru_put one_dns 0 0
   in fst (connect_tcp_arc table_call rslv location (rs, fresh_table refuses_congestion)) = Ok 3"
  unfolding Let_def connect_tcp_needs_no_options [OF table.descriptors_axioms]
  by (simp add: resolve_def to_socket_addr_nonblocking_def table_call_def fresh_table_def refuses_congestion_def)

text \<open>A network on which every dial succeeds.\<close>

definition demo_net :: "unit system" where
  "demo_net = (\<lambda>c s. (Ok 3, s))"

definition demo_rslv :: "(unit resolver) resolution" where
  "demo_rslv = (\<lambda>rs l. (Ok (SockV4 1 1), rs))"

definition demo_st :: "unit resolver \<times> unit" where
  "demo_st = (with_tcp_congestion (\<lambda>_. ()) [], ())"

lemma demo_dial: "connect_tcp_with_cc demo_net demo_rslv loc cc demo_st = (Ok 3, demo_st)"
  by (simp add: connect_tcp_with_cc_def connect_tcp_def with_resolved_def demo_rslv_def demo_st_def
      connect_tcp_addr_def demo_net_def bind_io_def owning_def ret_def ignoring_def set_tcp_keepalive_def
      set_tcp_congestion_def)

end
