(* ===== verification/Anytls_Session.thy ===== *)
theory Anytls_Session
  imports Anytls_Padding Anytls_Stream
begin

text \<open>
  \<^verbatim>\<open>src/anytls/session.rs\<close>, the session: it reads frames off the connection and hands them to the
  streams, and writes the frames of the streams and its own control frames.

  The fields that locks and atomics protect are one record. The connection's two halves are
  parameters: the reader of \<open>recv_loop\<close> and, in the record \<open>session_env\<close>, the operations of the writer, whose
  \<open>env_patience\<close> says whether a control frame is written within its five seconds and, if not, where
  the write was given up. A stream's channel is what the session has sent to it; the session's
  map of senders names channels by number, and so does the list of the streams that were
  handed to new tasks. Waiting for room in a channel is not visible: a send that waits is
  complete when its receiver has made room or is gone.
\<close>

section \<open>State\<close>

record channel =
  ch_msgs :: "byte list list"
  ch_receiver :: bool
  ch_sender :: bool

record 'w session =
  se_writer :: 'w
  se_streams :: "u32 \<rightharpoonup> nat"
  se_channels :: "nat \<Rightarrow> channel"
  se_next :: nat
  se_stream_tasks :: "u32 \<rightharpoonup> nat"
  se_spawned :: "(nat, unit) anytls_stream list"
  se_aborted :: "nat set"
  se_is_closed :: bool
  se_padding :: padding_factory
  se_send_padding :: bool
  se_pkt_counter :: u32
  se_buffering :: bool
  se_buffer :: "byte list"
  se_peer_version :: byte
  se_received_client_settings :: bool
  se_udp_enabled :: bool
  se_user_name :: string
  se_initial_data :: "byte list option"

text \<open>A control frame is written in time; or it was still waiting for its locks after five seconds;
  or its write was given up in the middle, which leaves the writer in some state.\<close>

datatype 'w patience = InTime | WaitingForLocks | WhileWriting 'w

record 'w session_env =
  env_write_all :: "'w all_writer"
  env_flush :: "'w all_flusher"
  env_shutdown :: "'w all_flusher"
  env_writer_free :: "'w \<Rightarrow> bool"
  env_patience :: "'w \<Rightarrow> byte list \<Rightarrow> 'w patience"
  env_rand :: "nat \<Rightarrow> int \<Rightarrow> int \<Rightarrow> int"

definition no_channel :: channel where
  "no_channel = \<lparr>ch_msgs = [], ch_receiver = False, ch_sender = False\<rparr>"

definition new_server_with_initial_data ::
  "'w \<Rightarrow> padding_factory \<Rightarrow> bool \<Rightarrow> string \<Rightarrow> byte list option \<Rightarrow> 'w session" where
  "new_server_with_initial_data writer padding udp_enabled user_name initial_data =
     \<lparr>se_writer = writer, se_streams = Map.empty, se_channels = (\<lambda>_. no_channel), se_next = 0,
      se_stream_tasks = Map.empty, se_spawned = [], se_aborted = {}, se_is_closed = False,
      se_padding = padding, se_send_padding = False, se_pkt_counter = 0, se_buffering = False,
      se_buffer = [], se_peer_version = 0, se_received_client_settings = False,
      se_udp_enabled = udp_enabled, se_user_name = user_name, se_initial_data = initial_data\<rparr>"

section \<open>Channels\<close>

text \<open>\<^verbatim>\<open>Sender::send\<close>: the message is accepted if the receiver is still there.\<close>

definition chan_send :: "nat \<Rightarrow> byte list \<Rightarrow> 'w session \<Rightarrow> 'w session" where
  "chan_send c d se =
     (if ch_receiver (se_channels se c)
      then se\<lparr>se_channels := (se_channels se)(c := (se_channels se c)\<lparr>ch_msgs := ch_msgs (se_channels se c) @ [d]\<rparr>)\<rparr>
      else se)"

text \<open>The last sender of a channel is dropped.\<close>

definition drop_sender :: "nat \<Rightarrow> 'w session \<Rightarrow> 'w session" where
  "drop_sender c se = se\<lparr>se_channels := (se_channels se)(c := (se_channels se c)\<lparr>ch_sender := False\<rparr>)\<rparr>"

text \<open>\<^verbatim>\<open>streams.remove\<close>, whose result the caller drops.\<close>

definition remove_stream :: "u32 \<Rightarrow> 'w session \<Rightarrow> 'w session" where
  "remove_stream i se =
     (case se_streams se i of
        None \<Rightarrow> se
      | Some c \<Rightarrow> drop_sender c (se\<lparr>se_streams := (se_streams se)(i := None)\<rparr>))"

section \<open>Writing frames\<close>

definition on_writer :: "('w \<Rightarrow> 'a res \<times> 'w) \<Rightarrow> 'w session \<Rightarrow> 'a res \<times> 'w session" where
  "on_writer act se = (case act (se_writer se) of (r, w) \<Rightarrow> (r, se\<lparr>se_writer := w\<rparr>))"

definition write_frame :: "'w session_env \<Rightarrow> frame \<Rightarrow> 'w session \<Rightarrow> unit res \<times> 'w session" where
  "write_frame env frame se =
     (let write_buf = encode_into frame [] in
      if se_buffering se then (Ok (), se\<lparr>se_buffer := se_buffer se @ write_buf\<rparr>)
      else
        let out = se_buffer se @ write_buf; se1 = se\<lparr>se_buffer := []\<rparr> in
        if se_send_padding se1 then
          let pkt = se_pkt_counter se1 + 1; se2 = se1\<lparr>se_pkt_counter := pkt\<rparr> in
          if pkt < pf_stop (se_padding se2)
          then on_writer (write_with_padding (env_write_all env) (env_flush env)
                 (generate_record_payload_sizes (env_rand env) (se_padding se2) pkt) out) se2
          else on_writer (write_and_flush (env_write_all env) (env_flush env) out)
                 (se2\<lparr>se_send_padding := False\<rparr>)
        else on_writer (write_and_flush (env_write_all env) (env_flush env) out) se1)"

text \<open>Closing: once only. Every task whose handle is held is aborted, the senders are dropped, and the
  connection is shut down unless another task is writing.\<close>

definition close :: "'w session_env \<Rightarrow> 'w session \<Rightarrow> 'w session" where
  "close env se =
     (if se_is_closed se then se
      else
        let se1 = se\<lparr>se_is_closed := True, se_aborted := se_aborted se \<union> ran (se_stream_tasks se),
                     se_stream_tasks := Map.empty\<rparr>;
            se2 = se1\<lparr>se_streams := Map.empty,
                      se_channels := (\<lambda>c. if c \<in> ran (se_streams se1) then (se_channels se1 c)\<lparr>ch_sender := False\<rparr>
                                          else se_channels se1 c)\<rparr>
        in if env_writer_free env (se_writer se2) then snd (on_writer (env_shutdown env) se2) else se2)"

definition control_timeout :: io_error where
  "control_timeout = IoError TimedOut ''control frame write timed out''"

definition write_control_frame :: "'w session_env \<Rightarrow> frame \<Rightarrow> 'w session \<Rightarrow> unit res \<times> 'w session" where
  "write_control_frame env frame se =
     (case env_patience env (se_writer se) (encode_into frame []) of
        InTime \<Rightarrow> write_frame env frame se
      | WaitingForLocks \<Rightarrow> (Err control_timeout, close env se)
      | WhileWriting w \<Rightarrow> (Err control_timeout, close env (se\<lparr>se_writer := w\<rparr>)))"

definition send_synack :: "'w session_env \<Rightarrow> u32 \<Rightarrow> string option \<Rightarrow> 'w session \<Rightarrow> unit res \<times> 'w session" where
  "send_synack env stream_id error se =
     (if se_peer_version se < 2 then (Ok (), se)
      else write_control_frame env
        (case error of
           Some err \<Rightarrow> frame_with_data SynAck stream_id (bytes_of err)
         | None \<Rightarrow> frame_control SynAck stream_id) se)"

section \<open>Frames of the streams\<close>

text \<open>\<^verbatim>\<open>process_outgoing\<close> on the messages it receives, in order; the end of the list is waiting for more.\<close>

fun process_outgoing :: "'w session_env \<Rightarrow> (u32 \<times> byte list) list \<Rightarrow> 'w session \<Rightarrow> 'w session" where
  "process_outgoing env [] se = se"
| "process_outgoing env ((stream_id, data) # msgs) se =
     (if se_is_closed se then se
      else if data = [] then
        process_outgoing env msgs (remove_stream stream_id (snd (write_frame env (frame_control Fin stream_id) se)))
      else
        case write_frame env (data_frame stream_id data) se of
          (Ok _, se') \<Rightarrow> process_outgoing env msgs se'
        | (Err e, se') \<Rightarrow> se'
        | (Panic, se') \<Rightarrow> se')"

section \<open>Frames of the client\<close>

text \<open>A new stream: its sender is stored, and the stream goes to a task of its own, whose handle is
  stored after the task has been started.\<close>

definition open_stream :: "u32 \<Rightarrow> 'w session \<Rightarrow> 'w session" where
  "open_stream i se =
     (let c = se_next se;
          stream = anytls_stream_new i c () (se_is_closed se)
      in se\<lparr>se_streams := (se_streams se)(i \<mapsto> c),
            se_channels := (se_channels se)(c := \<lparr>ch_msgs = [], ch_receiver = True, ch_sender = True\<rparr>),
            se_next := c + 1, se_spawned := se_spawned se @ [stream]\<rparr>)"

definition register_task :: "u32 \<Rightarrow> nat \<Rightarrow> 'w session \<Rightarrow> 'w session" where
  "register_task i task se = se\<lparr>se_stream_tasks := (se_stream_tasks se)(i \<mapsto> task)\<rparr>"

text \<open>The last thing a task does.\<close>

definition task_cleanup :: "u32 \<Rightarrow> 'w session \<Rightarrow> 'w session" where
  "task_cleanup i se = se\<lparr>se_stream_tasks := (se_stream_tasks se)(i := None)\<rparr>"

definition handle_psh :: "frame \<Rightarrow> 'w session \<Rightarrow> unit res \<times> 'w session" where
  "handle_psh frame se =
     (if fr_data frame = [] then (Ok (), se)
      else case se_streams se (fr_stream_id frame) of
             Some tx \<Rightarrow> (Ok (), chan_send tx (fr_data frame) se)
           | None \<Rightarrow> (Ok (), se))"

definition handle_syn :: "'w session_env \<Rightarrow> frame \<Rightarrow> 'w session \<Rightarrow> unit res \<times> 'w session" where
  "handle_syn env frame se =
     (if \<not> se_received_client_settings se then
        bind_io (write_control_frame env
            (frame_with_data Alert 0 (bytes_of ''client did not send its settings''))) (\<lambda>_ se'.
          (Err (IoError InvalidData ''client did not send settings''), se')) se
      else
        case se_streams se (fr_stream_id frame) of
          Some _ \<Rightarrow> (Ok (), se)
        | None \<Rightarrow> (Ok (), register_task (fr_stream_id frame) (se_next se) (open_stream (fr_stream_id frame) se)))"

definition handle_fin :: "frame \<Rightarrow> 'w session \<Rightarrow> unit res \<times> 'w session" where
  "handle_fin frame se =
     (case se_streams se (fr_stream_id frame) of
        Some tx \<Rightarrow> (Ok (), drop_sender tx (chan_send tx []
                      (se\<lparr>se_streams := (se_streams se)(fr_stream_id frame := None)\<rparr>)))
      | None \<Rightarrow> (Ok (), se))"

definition peer_version_of :: "string_map \<Rightarrow> byte option" where
  "peer_version_of settings =
     (case settings ''v'' of
        None \<Rightarrow> None
      | Some s \<Rightarrow>
          (case parse_uint 255 s of
             None \<Rightarrow> None
           | Some v \<Rightarrow> if 2 \<le> v then Some (of_nat v) else None))"

definition handle_settings :: "'w session_env \<Rightarrow> frame \<Rightarrow> 'w session \<Rightarrow> unit res \<times> 'w session" where
  "handle_settings env frame se0 =
     (let se = se0\<lparr>se_received_client_settings := True\<rparr>;
          settings = string_map_from_bytes (fr_data frame)
      in bind_io
           (case settings ''padding-md5'' of
              Some client_md5 \<Rightarrow>
                if client_md5 \<noteq> pf_md5 (se_padding se)
                then write_control_frame env (frame_with_data UpdatePaddingScheme 0 (pf_raw_scheme (se_padding se)))
                else ret ()
            | None \<Rightarrow> ret ())
           (\<lambda>_ se'.
             case peer_version_of settings of
               Some v \<Rightarrow>
                 write_control_frame env
                   (frame_with_data ServerSettings 0 (string_map_to_bytes [(''v'', ''2'')]))
                   (se'\<lparr>se_peer_version := v\<rparr>)
             | None \<Rightarrow> (Ok (), se')) se)"

definition handle_frame :: "'w session_env \<Rightarrow> frame \<Rightarrow> 'w session \<Rightarrow> unit res \<times> 'w session" where
  "handle_frame env frame se =
     (case fr_cmd frame of
        Psh \<Rightarrow> handle_psh frame se
      | Syn \<Rightarrow> handle_syn env frame se
      | Fin \<Rightarrow> handle_fin frame se
      | Waste \<Rightarrow> (Ok (), se)
      | Settings \<Rightarrow> handle_settings env frame se
      | HeartRequest \<Rightarrow> write_control_frame env (frame_control HeartResponse (fr_stream_id frame)) se
      | Alert \<Rightarrow> (Err (other_error (from_utf8_lossy (fr_data frame))), se)
      | SynAck \<Rightarrow> (Ok (), se)
      | ServerSettings \<Rightarrow> (Ok (), se)
      | UpdatePaddingScheme \<Rightarrow> (Ok (), se)
      | HeartResponse \<Rightarrow> (Ok (), se))"

section \<open>The receive loop\<close>

text \<open>\<^verbatim>\<open>while let Some(frame) = FrameCodec::decode(&mut buffer)?\<close>: the result is the buffer that is left.\<close>

function frame_loop :: "'w session_env \<Rightarrow> byte list \<Rightarrow> 'w session \<Rightarrow> byte list res \<times> 'w session" where
  "frame_loop env buffer se =
     (case frame_decode buffer of
        Ok (Some frame, rest) \<Rightarrow>
          (case handle_frame env frame se of
             (Ok _, se') \<Rightarrow> frame_loop env rest se'
           | (Err e, se') \<Rightarrow> (Err e, se')
           | (Panic, se') \<Rightarrow> (Panic, se'))
      | Ok (None, rest) \<Rightarrow> (Ok rest, se)
      | Err e \<Rightarrow> (Err e, se)
      | Panic \<Rightarrow> (Panic, se))"
  by pat_completeness auto
termination
  by (relation "measure (\<lambda>(env, buffer, se). length buffer)") (auto dest!: frame_decode_Some)

declare frame_loop.simps [simp del]

text \<open>\<open>room buffer\<close> is the space \<^verbatim>\<open>read_buf\<close> finds behind the buffered bytes, after growing the buffer if
  there was none.\<close>

partial_function (option) recv_loop_from ::
  "'w session_env \<Rightarrow> 's reader \<Rightarrow> (byte list \<Rightarrow> nat) \<Rightarrow> byte list \<Rightarrow> 's \<Rightarrow> 'w session \<Rightarrow>
   (unit res \<times> 's \<times> 'w session) option" where
  "recv_loop_from env rd room buffer s se =
     (if se_is_closed se then Some (Ok (), s, se)
      else
        case frame_loop env buffer se of
          (Err e, se') \<Rightarrow> Some (Err e, s, se')
        | (Panic, se') \<Rightarrow> Some (Panic, s, se')
        | (Ok buffer', se') \<Rightarrow>
            Option.bind (await_read rd s (room buffer')) (\<lambda>(r, s').
              case r of
                Ok bs \<Rightarrow>
                  if bs = [] then Some (Ok (), s', se')
                  else recv_loop_from env rd room (buffer' @ bs) s' se'
              | Err e \<Rightarrow> Some (Err e, s', se')
              | Panic \<Rightarrow> Some (Panic, s', se')))"

definition recv_loop ::
  "'w session_env \<Rightarrow> 's reader \<Rightarrow> (byte list \<Rightarrow> nat) \<Rightarrow> 's \<Rightarrow> 'w session \<Rightarrow>
   (unit res \<times> 's \<times> 'w session) option" where
  "recv_loop env rd room s se =
     recv_loop_from env rd room (case se_initial_data se of Some initial \<Rightarrow> initial | None \<Rightarrow> []) s
       (se\<lparr>se_initial_data := None\<rparr>)"

text \<open>\<^verbatim>\<open>run\<close>: the receive loop, after which the session is closed; the task that writes the streams' frames,
  started before and aborted after it, is a step of its own.\<close>

definition run_session ::
  "'w session_env \<Rightarrow> 's reader \<Rightarrow> (byte list \<Rightarrow> nat) \<Rightarrow> 's \<Rightarrow> 'w session \<Rightarrow>
   (unit res \<times> 's \<times> 'w session) option" where
  "run_session env rd room s se =
     Option.bind (recv_loop env rd room s se) (\<lambda>(r, s', se'). Some (r, s', close env se'))"

section \<open>What closes a session\<close>

lemma on_writer_fields [simp]:
  "se_is_closed (snd (on_writer act se)) = se_is_closed se"
  "se_streams (snd (on_writer act se)) = se_streams se"
  "se_channels (snd (on_writer act se)) = se_channels se"
  "se_next (snd (on_writer act se)) = se_next se"
  "se_stream_tasks (snd (on_writer act se)) = se_stream_tasks se"
  "se_spawned (snd (on_writer act se)) = se_spawned se"
  "se_aborted (snd (on_writer act se)) = se_aborted se"
  "se_buffering (snd (on_writer act se)) = se_buffering se"
  "se_buffer (snd (on_writer act se)) = se_buffer se"
  "se_send_padding (snd (on_writer act se)) = se_send_padding se"
  "se_padding (snd (on_writer act se)) = se_padding se"
  "se_peer_version (snd (on_writer act se)) = se_peer_version se"
  "se_received_client_settings (snd (on_writer act se)) = se_received_client_settings se"
  "se_initial_data (snd (on_writer act se)) = se_initial_data se"
  by (simp_all add: on_writer_def split: prod.splits)

text \<open>The part of the state that writing a frame leaves alone.\<close>

definition routing ::
  "'w session \<Rightarrow> (u32 \<rightharpoonup> nat) \<times> (nat \<Rightarrow> channel) \<times> nat \<times> (nat, unit) anytls_stream list \<times> bool" where
  "routing se = (se_streams se, se_channels se, se_next se, se_spawned se, se_is_closed se)"

lemma routing_write_frame: "routing (snd (write_frame env f se)) = routing se"
  by (simp add: write_frame_def routing_def Let_def)

lemma routing_control_frame:
  "write_control_frame env f se = (Ok u, se') \<Longrightarrow> routing se' = routing se"
  using routing_write_frame [of env f se] by (auto simp: write_control_frame_def split: patience.splits)

lemma handle_settings_routing:
  assumes "handle_settings env f se = (Ok u, se')"
  shows "routing se' = routing se"
proof -
  have upd: "routing (se\<lparr>se_received_client_settings := b\<rparr>) = routing se"
    "routing (se\<lparr>se_peer_version := v\<rparr>) = routing se" for se :: "'w session" and b v
    by (simp_all add: routing_def)
  show ?thesis
    using assms
    by (auto simp: handle_settings_def Let_def bind_io_def ret_def upd
      split: prod.splits res.splits option.splits if_splits dest!: routing_control_frame)
qed

lemma handle_frame_open:
  assumes "handle_frame env f se = (Ok u, se')"
  shows "se_is_closed se' = se_is_closed se"
proof (cases "fr_cmd f")
  case Settings
  with assms handle_settings_routing [of env f se u se'] show ?thesis
    by (simp add: handle_frame_def routing_def)
next
  case HeartRequest
  with assms routing_control_frame [of env _ se u se'] show ?thesis
    by (auto simp: handle_frame_def routing_def)
qed (use assms in \<open>auto simp: handle_frame_def handle_psh_def handle_syn_def handle_fin_def chan_send_def
    drop_sender_def open_stream_def register_task_def bind_io_def Let_def
    split: if_splits option.splits prod.splits res.splits\<close>)

section \<open>The receive loop is independent of how the bytes arrive\<close>

fun handle_frames :: "'w session_env \<Rightarrow> frame list \<Rightarrow> 'w session \<Rightarrow> unit res \<times> 'w session" where
  "handle_frames env [] se = (Ok (), se)"
| "handle_frames env (f # fs) se = bind_io (handle_frame env f) (\<lambda>_. handle_frames env fs) se"

text \<open>All frames of a connection's bytes are handled in order, up to the first that fails; bytes that
  are not a frame end the session with an error.\<close>

definition recv_outcome :: "'w session_env \<Rightarrow> byte list \<Rightarrow> 'w session \<Rightarrow> byte list res \<times> 'w session" where
  "recv_outcome env whole se =
     bind_io (handle_frames env (fst (decode_frames whole))) (\<lambda>_ se'. (snd (decode_frames whole), se')) se"

definition void :: "'a res \<times> 's \<Rightarrow> unit res \<times> 's" where
  "void p = bind_io (\<lambda>s. (fst p, s)) (\<lambda>_. ret ()) (snd p)"

lemma void_simps [simp]: "void (Ok x, s) = (Ok (), s)" "void (Err e, s) = (Err e, s)" "void (Panic, s) = (Panic, s)"
  by (simp_all add: void_def bind_io_def ret_def)

lemma handle_frames_append:
  "handle_frames env (fs @ gs) se = bind_io (handle_frames env fs) (\<lambda>_. handle_frames env gs) se"
  by (induction fs arbitrary: se) (auto simp: bind_io_def split: prod.splits res.splits)

lemma handle_frames_open: "handle_frames env fs se = (Ok u, se') \<Longrightarrow> se_is_closed se' = se_is_closed se"
  by (induction fs arbitrary: se)
    (auto simp: bind_io_def split: prod.splits res.splits dest!: handle_frame_open)

lemma frame_loop_outcome: "frame_loop env buffer se = recv_outcome env buffer se"
proof (induction "length buffer" arbitrary: buffer se rule: less_induct)
  case less
  show ?case
  proof (cases rule: frame_decode_cases [of buffer])
    case (some f rest)
    then have "length rest < length buffer" using frame_decode_Some [OF some] by simp
    with less some show ?thesis
      by (auto simp: frame_loop.simps [of env buffer] recv_outcome_def decode_frames_Some bind_io_def
        split: prod.splits res.splits)
  qed (simp_all add: frame_loop.simps [of env buffer] recv_outcome_def decode_frames_None decode_frames_Err bind_io_def)
qed

text \<open>Handling what a first piece holds and then what the rest with the next piece holds.\<close>

lemma recv_outcome_append:
  "recv_outcome env (a @ b) se =
     (case recv_outcome env a se of
        (Ok rest, se') \<Rightarrow> recv_outcome env (rest @ b) se'
      | (Err e, se') \<Rightarrow> (Err e, se')
      | (Panic, se') \<Rightarrow> (Panic, se'))"
  by (cases "snd (decode_frames a)")
    (auto simp: recv_outcome_def decode_frames_append [of a b] handle_frames_append bind_io_def
      split: prod.splits res.splits)

context byte_source
begin

lemma recv_loop_total:
  assumes "src_inv s" and "\<not> se_is_closed se" and "\<And>b. 0 < room b"
  shows "\<exists>r s' se'. recv_loop_from env poll_read room buffer s se = Some (r, s', se') \<and> src_inv s' \<and>
    ((r, se') = void (recv_outcome env (buffer @ content s) se) \<or>
     (\<exists>e seen unseen rest. r = Err e \<and> src_err e \<and> content s = seen @ unseen \<and>
        recv_outcome env (buffer @ seen) se = (Ok rest, se')))"
  using assms(1,2)
proof (induction "length (content s)" arbitrary: s se buffer rule: less_induct)
  case less
  obtain r1 se1 where fl: "frame_loop env buffer se = (r1, se1)" by fastforce
  then have out: "recv_outcome env buffer se = (r1, se1)" by (simp add: frame_loop_outcome)
  show ?case
  proof (cases r1)
    case (Ok buffer')
    then have open1: "\<not> se_is_closed se1"
      using out less.prems(2) handle_frames_open [of env "fst (decode_frames buffer)" se "()" se1]
      by (auto simp: recv_outcome_def bind_io_def split: prod.splits res.splits)
    obtain r2 s2 where rd: "await_read poll_read s (room buffer') = Some (r2, s2)"
      and post: "read_post s (room buffer') r2 s2"
      using await_read_total [OF less.prems(1)] by blast
    note step = recv_loop_from.simps [of env poll_read room buffer s se]
    show ?thesis
    proof (cases r2)
      case (Ok bs)
      with post assms(3) [of buffer'] have bs: "content s = bs @ content s2" "src_inv s2" "bs = [] \<Longrightarrow> content s = []"
        by (auto simp: read_post_def)
      have whole: "recv_outcome env (buffer @ d) se = recv_outcome env (buffer' @ d) se1" for d
        using out \<open>r1 = Ok buffer'\<close> by (simp add: recv_outcome_append)
      show ?thesis
      proof (cases "bs = []")
        case True
        with bs less.prems fl rd Ok out \<open>r1 = Ok buffer'\<close> show ?thesis
          by (simp add: step)
      next
        case False
        then have "length (content s2) < length (content s)" using bs(1) by simp
        from less.hyps [OF this bs(2) open1, of "buffer' @ bs"]
        obtain r s' se' where *: "recv_loop_from env poll_read room (buffer' @ bs) s2 se1 = Some (r, s', se')"
          "src_inv s'"
          "(r, se') = void (recv_outcome env ((buffer' @ bs) @ content s2) se1) \<or>
           (\<exists>e seen unseen rest. r = Err e \<and> src_err e \<and> content s2 = seen @ unseen \<and>
              recv_outcome env ((buffer' @ bs) @ seen) se1 = (Ok rest, se'))"
          by blast
        have run: "recv_loop_from env poll_read room buffer s se = Some (r, s', se')"
          using less.prems(2) fl rd Ok \<open>r1 = Ok buffer'\<close> False *(1) by (simp add: step)
        from *(3) show ?thesis
        proof (elim disjE exE conjE)
          assume "(r, se') = void (recv_outcome env ((buffer' @ bs) @ content s2) se1)"
          then show ?thesis using run *(2) bs(1) whole [of "bs @ content s2"] by simp
        next
          fix e seen unseen rest
          assume e: "r = Err e" "src_err e" "content s2 = seen @ unseen"
            "recv_outcome env ((buffer' @ bs) @ seen) se1 = (Ok rest, se')"
          then have "content s = (bs @ seen) @ unseen" "recv_outcome env (buffer @ bs @ seen) se = (Ok rest, se')"
            using bs(1) whole [of "bs @ seen"] by simp_all
          then show ?thesis using run *(2) e(1,2) by blast
        qed
      qed
    next
      case (Err e)
      then have "src_err e" "src_inv s2" using post by (auto simp: read_post_def)
      moreover have "recv_loop_from env poll_read room buffer s se = Some (Err e, s2, se1)"
        using less.prems(2) fl rd Err \<open>r1 = Ok buffer'\<close> by (simp add: step)
      moreover have "recv_outcome env (buffer @ []) se = (Ok buffer', se1)" using out \<open>r1 = Ok buffer'\<close> by simp
      ultimately show ?thesis by blast
    next
      case Panic
      with post show ?thesis by (simp add: read_post_def)
    qed
  qed (use less.prems fl out in \<open>auto simp: recv_loop_from.simps [of env poll_read room buffer s se] recv_outcome_append\<close>)
qed

end

section \<open>The invariant of a session\<close>

text \<open>A server session neither holds frames back nor pads them.\<close>

definition plain :: "'w session \<Rightarrow> bool" where
  "plain se \<longleftrightarrow> \<not> se_buffering se \<and> se_buffer se = [] \<and> \<not> se_send_padding se"

text \<open>Open streams have channels of their own, the session holds a channel's sender exactly while the
  stream is open, and the tasks were given the streams in the order of their channels.\<close>

definition tables_ok ::
  "(u32 \<rightharpoonup> nat) \<times> (nat \<Rightarrow> channel) \<times> nat \<times> (nat, unit) anytls_stream list \<times> bool \<Rightarrow> bool" where
  "tables_ok = (\<lambda>(streams, channels, next_id, spawned, closed).
     (\<forall>i j c. streams i = Some c \<longrightarrow> streams j = Some c \<longrightarrow> i = j) \<and>
     (\<forall>c. ch_sender (channels c) \<longleftrightarrow> (\<exists>i. streams i = Some c)) \<and>
     (\<forall>c \<ge> next_id. channels c = no_channel) \<and>
     length spawned = next_id \<and> (\<forall>c < next_id. as_rx (spawned ! c) = c))"

definition session_ok :: "'w session \<Rightarrow> bool" where
  "session_ok se \<longleftrightarrow> plain se \<and> tables_ok (routing se)"

lemmas tables_defs = tables_ok_def routing_def

lemma session_ok_new: "session_ok (new_server_with_initial_data w pf udp user initial)"
  by (simp add: session_ok_def plain_def tables_defs new_server_with_initial_data_def no_channel_def)

lemma stream_below_next:
  "session_ok se \<Longrightarrow> se_streams se i = Some c \<Longrightarrow> c < se_next se"
  unfolding session_ok_def tables_defs prod.case by (metis channel.select_convs(3) leI no_channel_def)

text \<open>Writing.\<close>

lemma write_frame_plain:
  assumes "plain se"
  shows "write_frame env f se = on_writer (write_and_flush (env_write_all env) (env_flush env) (frame_bytes f)) se"
proof -
  have eq: "se\<lparr>se_buffer := []\<rparr> = se" using assms by (cases se) (simp add: plain_def)
  show ?thesis using assms by (simp add: write_frame_def plain_def eq)
qed

lemma plain_on_writer [simp]: "plain (snd (on_writer act se)) = plain se"
  by (simp add: plain_def)

lemma routing_on_writer [simp]: "routing (snd (on_writer act se)) = routing se"
  by (simp add: routing_def)

lemma session_ok_on_writer [simp]: "session_ok (snd (on_writer act se)) = session_ok se"
  by (simp add: session_ok_def)

lemma session_ok_write_frame [simp]: "session_ok se \<Longrightarrow> session_ok (snd (write_frame env f se))"
  by (simp add: write_frame_plain session_ok_def)

lemma session_ok_fields [simp]:
  "session_ok (se\<lparr>se_writer := w\<rparr>) = session_ok se"
  "session_ok (se\<lparr>se_peer_version := v\<rparr>) = session_ok se"
  "session_ok (se\<lparr>se_received_client_settings := b\<rparr>) = session_ok se"
  "session_ok (se\<lparr>se_initial_data := d\<rparr>) = session_ok se"
  "session_ok (se\<lparr>se_stream_tasks := t\<rparr>) = session_ok se"
  by (simp_all add: session_ok_def plain_def routing_def)

lemma session_ok_close [simp]: "session_ok se \<Longrightarrow> session_ok (close env se)"
proof -
  have ok: "session_ok (se\<lparr>se_is_closed := True, se_aborted := a, se_stream_tasks := t, se_streams := Map.empty,
      se_channels := (\<lambda>c. if c \<in> ran (se_streams se) then (se_channels se c)\<lparr>ch_sender := False\<rparr> else se_channels se c)\<rparr>)"
    if "session_ok se" for se :: "'w session" and a t
  proof -
    have "c \<notin> ran (se_streams se)" if "c \<ge> se_next se" for c
      using stream_below_next [OF \<open>session_ok se\<close>] that by (fastforce simp: ran_def)
    then show ?thesis using that by (auto simp: session_ok_def tables_defs plain_def ran_def)
  qed
  assume "session_ok se"
  from ok [OF this] show ?thesis
    using \<open>session_ok se\<close> by (simp add: close_def Let_def cong: if_cong del: session_ok_fields)
qed

lemma session_ok_control_frame:
  "session_ok se \<Longrightarrow> session_ok (snd (write_control_frame env f se))"
  by (simp add: write_control_frame_def split: patience.split)

lemma session_ok_synack: "session_ok se \<Longrightarrow> session_ok (snd (send_synack env i e se))"
  by (simp add: send_synack_def session_ok_control_frame)

text \<open>Channels.\<close>

lemma session_ok_chan_send [simp]: "session_ok se \<Longrightarrow> session_ok (chan_send c d se)"
  by (auto simp: chan_send_def session_ok_def plain_def tables_defs no_channel_def)

lemma session_ok_remove_stream [simp]: "session_ok se \<Longrightarrow> session_ok (remove_stream i se)"
  by (cases "se_streams se i")
    (auto simp: remove_stream_def drop_sender_def session_ok_def plain_def tables_defs no_channel_def,
      metis option.inject)

lemma handle_fin_remove:
  "handle_fin f se =
     (Ok (), remove_stream (fr_stream_id f)
        (case se_streams se (fr_stream_id f) of Some c \<Rightarrow> chan_send c [] se | None \<Rightarrow> se))"
  by (auto simp: handle_fin_def remove_stream_def chan_send_def drop_sender_def split: option.split)

lemma session_ok_open_stream:
  assumes "session_ok se" and "se_streams se i = None"
  shows "session_ok (open_stream i se)"
proof -
  have "se_streams se j \<noteq> Some (se_next se)" for j
    using stream_below_next [OF assms(1), of j "se_next se"] by auto
  moreover have "\<not> ch_sender (se_channels se (se_next se))"
    using assms(1) by (simp add: session_ok_def tables_defs no_channel_def)
  ultimately show ?thesis
    using assms by (auto simp: open_stream_def Let_def session_ok_def plain_def tables_defs nth_append
        anytls_stream_new_def less_Suc_eq) (metis option.distinct(1))
qed

lemma session_ok_handle_frame:
  assumes "session_ok se"
  shows "session_ok (snd (handle_frame env f se))"
proof -
  have psh: "session_ok (snd (handle_psh f se))"
    using assms by (simp add: handle_psh_def split: option.split)
  have fin: "session_ok (snd (handle_fin f se))"
    using assms by (simp add: handle_fin_remove split: option.split)
  have bind: "session_ok (snd (bind_io m k t))"
    if "session_ok (snd (m t))" "\<And>x t'. session_ok t' \<Longrightarrow> session_ok (snd (k x t'))" for m k and t :: "'w session"
    using that by (auto simp: bind_io_def split: prod.splits res.splits)
  have syn: "session_ok (snd (handle_syn env f se))"
    using assms by (auto simp: handle_syn_def register_task_def session_ok_open_stream session_ok_control_frame
        split: option.split intro!: bind)
  have settings: "session_ok (snd (handle_settings env f se))"
    using assms by (auto simp: handle_settings_def Let_def session_ok_control_frame ret_def
        split: option.split intro!: bind)
  show ?thesis
    using assms psh fin syn settings
    by (simp add: handle_frame_def session_ok_control_frame split: command.split)
qed

lemma session_ok_outgoing: "session_ok se \<Longrightarrow> session_ok (process_outgoing env msgs se)"
proof (induction msgs arbitrary: se)
  case Nil
  then show ?case by simp
next
  case (Cons m msgs)
  obtain i d where m: "m = (i, d)" by (cases m)
  obtain r se1 where w: "write_frame env (data_frame i d) se = (r, se1)" by fastforce
  then have "session_ok se1" using session_ok_write_frame [OF Cons.prems, of env "data_frame i d"] by simp
  then show ?case
    using Cons m w by (cases r) simp_all
qed

section \<open>Steps of a session\<close>

text \<open>The receive loop, the task that writes for the streams and the tasks of the streams take turns. What
  they do to the session: a frame of the client is handled, a message of a stream is written, a task sends
  its SYNACK, a stream is dropped, a task ends, the session is closed.\<close>

definition drop_receiver :: "nat \<Rightarrow> 'w session \<Rightarrow> 'w session" where
  "drop_receiver c se = se\<lparr>se_channels := (se_channels se)(c := (se_channels se c)\<lparr>ch_receiver := False\<rparr>)\<rparr>"

inductive session_step :: "'w session_env \<Rightarrow> 'w session \<Rightarrow> 'w session \<Rightarrow> bool" for env where
  frame_handled: "handle_frame env f se = (r, se') \<Longrightarrow> session_step env se se'"
| message_written: "session_step env se (process_outgoing env [m] se)"
| synack_sent: "send_synack env i e se = (r, se') \<Longrightarrow> session_step env se se'"
| stream_dropped: "c < se_next se \<Longrightarrow> session_step env se (drop_receiver c se)"
| task_ended: "session_step env se (task_cleanup i se)"
| session_closed: "session_step env se (close env se)"

lemma session_ok_step: "session_step env se se' \<Longrightarrow> session_ok se \<Longrightarrow> session_ok se'"
proof (induction rule: session_step.induct)
  case (frame_handled f se r se')
  then show ?case using session_ok_handle_frame [of se env f] by simp
next
  case (synack_sent i e se r se')
  then show ?case using session_ok_synack [of se env i e] by simp
next
  case (stream_dropped c se)
  then show ?case by (auto simp: drop_receiver_def session_ok_def plain_def tables_defs no_channel_def)
qed (simp_all add: session_ok_outgoing task_cleanup_def)

lemma session_ok_steps: "(session_step env)\<^sup>*\<^sup>* se se' \<Longrightarrow> session_ok se \<Longrightarrow> session_ok se'"
  by (induction rule: rtranclp_induct) (auto intro: session_ok_step)


section \<open>Delivery to the streams\<close>

text \<open>The messages the client's frames carry for a stream.\<close>

definition delivered :: "u32 \<Rightarrow> frame list \<Rightarrow> byte list list" where
  "delivered i fs = map fr_data (filter (\<lambda>f. fr_cmd f = Psh \<and> fr_stream_id f = i \<and> fr_data f \<noteq> []) fs)"

definition ends :: "u32 \<Rightarrow> frame \<Rightarrow> bool" where
  "ends i f \<longleftrightarrow> fr_cmd f = Fin \<and> fr_stream_id f = i"

text \<open>What one frame does to an open stream \<open>i\<close> whose task is reading.\<close>

lemma handle_frame_delivers:
  assumes ok: "session_ok se" and c: "se_streams se i = Some c" and alive: "ch_receiver (se_channels se c)"
    and run: "handle_frame env f se = (Ok u, se')" and fin: "\<not> ends i f"
  shows "se_streams se' i = Some c \<and> se_spawned se' ! c = se_spawned se ! c \<and>
    se_channels se' c = (se_channels se c)\<lparr>ch_msgs := ch_msgs (se_channels se c) @ delivered i [f]\<rparr>"
proof -
  have unrouted: ?thesis if "routing se' = routing se" "fr_cmd f \<noteq> Psh"
    using that c by (simp add: routing_def delivered_def)
  have below: "c < se_next se" by (rule stream_below_next [OF ok c])
  have other: "se_streams se j = Some c \<Longrightarrow> j = i" for j
    using ok c by (simp add: session_ok_def tables_defs)
  show ?thesis
  proof (cases "fr_cmd f")
    case Settings
    with run have "handle_settings env f se = (Ok u, se')" by (simp add: handle_frame_def)
    from handle_settings_routing [OF this] unrouted Settings show ?thesis by simp
  next
    case HeartRequest
    with unrouted run routing_control_frame [of env "frame_control HeartResponse (fr_stream_id f)" se u se']
    show ?thesis by (simp add: handle_frame_def)
  next
    case Psh
    show ?thesis
    proof (cases "fr_data f = [] \<or> se_streams se (fr_stream_id f) = None")
      case True
      then have "se' = se" and "delivered i [f] = []"
        using Psh run c by (auto simp: handle_frame_def handle_psh_def delivered_def split: if_splits)
      with c show ?thesis by simp
    next
      case False
      then obtain tx where tx: "se_streams se (fr_stream_id f) = Some tx" and d: "fr_data f \<noteq> []" by auto
      then have se': "se' = chan_send tx (fr_data f) se"
        using Psh run by (simp add: handle_frame_def handle_psh_def)
      show ?thesis
      proof (cases "fr_stream_id f = i")
        case True
        with tx c se' d Psh alive show ?thesis by (simp add: chan_send_def delivered_def)
      next
        case False
        with other [of "fr_stream_id f"] tx have "tx \<noteq> c" by auto
        with False c se' show ?thesis by (simp add: chan_send_def delivered_def)
      qed
    qed
  next
    case Syn
    have "length (se_spawned se) = se_next se" using ok by (simp add: session_ok_def tables_defs)
    with Syn run c below show ?thesis
      by (auto simp: handle_frame_def handle_syn_def delivered_def register_task_def open_stream_def Let_def
        bind_io_def nth_append split: if_splits option.splits prod.splits res.splits)
  next
    case Fin
    with run other [of "fr_stream_id f"] c fin show ?thesis
      by (auto simp: handle_frame_def handle_fin_def delivered_def chan_send_def drop_sender_def ends_def
        split: option.splits)
  qed (use run unrouted in \<open>auto simp: handle_frame_def\<close>)
qed

lemma handle_frames_deliver:
  assumes "session_ok se" and "se_streams se i = Some c" and "ch_receiver (se_channels se c)"
    and "handle_frames env fs se = (Ok u, se')" and "\<forall>f \<in> set fs. \<not> ends i f"
  shows "session_ok se' \<and> se_streams se' i = Some c \<and> se_spawned se' ! c = se_spawned se ! c \<and>
    se_channels se' c = (se_channels se c)\<lparr>ch_msgs := ch_msgs (se_channels se c) @ delivered i fs\<rparr>"
  using assms
proof (induction fs arbitrary: se)
  case Nil
  then show ?case by (simp add: delivered_def)
next
  case (Cons f fs)
  from Cons.prems(4) obtain u1 se1 where f: "handle_frame env f se = (Ok u1, se1)"
    and fs: "handle_frames env fs se1 = (Ok u, se')"
    by (auto simp: bind_io_def split: prod.splits res.splits)
  note one = handle_frame_delivers [OF Cons.prems(1-3) f]
  have "session_ok se1" using session_ok_handle_frame [OF Cons.prems(1), of env f] f by simp
  from Cons.IH [OF this _ _ fs] one Cons.prems(3,5) show ?case
    by (auto simp: delivered_def)
qed

text \<open>C10. The session demultiplexes: after any frames of the client, an open stream whose task is reading
  has been sent, behind what it had, exactly the non-empty payloads addressed to it, in order, and nothing of
  other streams; a second SYN for it changes nothing. The frame that ends it sends the end mark, and
  the sender is dropped.\<close>

theorem streams_demultiplexed:
  assumes "session_ok se" and "se_streams se i = Some c" and "ch_receiver (se_channels se c)"
    and "\<forall>f \<in> set fs. \<not> (fr_cmd f = Fin \<and> fr_stream_id f = i)"
    and "handle_frames env (fs @ fin) se = (Ok (), se')" and "fin = [] \<or> fin = [frame_control Fin i]"
  shows "ch_msgs (se_channels se' c) =
      ch_msgs (se_channels se c)
        @ map fr_data (filter (\<lambda>f. fr_cmd f = Psh \<and> fr_stream_id f = i \<and> fr_data f \<noteq> []) fs)
        @ (if fin = [] then [] else [[]])
    \<and> (ch_sender (se_channels se' c) \<longleftrightarrow> fin = [])"
proof -
  obtain u se1 where fs: "handle_frames env fs se = (Ok u, se1)" and fin: "handle_frames env fin se1 = (Ok (), se')"
    using assms(5) by (auto simp: handle_frames_append bind_io_def split: prod.splits res.splits)
  from handle_frames_deliver [OF assms(1-3) fs] assms(4)
  have ok: "session_ok se1" and c: "se_streams se1 i = Some c"
    and ch: "se_channels se1 c = (se_channels se c)\<lparr>ch_msgs := ch_msgs (se_channels se c) @ delivered i fs\<rparr>"
    by (simp_all add: ends_def)
  have "ch_sender (se_channels se1 c)" using ok c by (auto simp: session_ok_def tables_defs)
  then show ?thesis
    using assms(3,6) fin c ch
    by (auto simp: delivered_def handle_frame_def frame_control_def frame_with_data_def handle_fin_def
      drop_sender_def chan_send_def bind_io_def)
qed

text \<open>C7. The receive loop ends, and what it does depends only on the bytes of the connection, not on how
  they are cut into reads: the frames of the bytes left over from authentication followed by the connection's
  are handled in order, up to the first that fails or is malformed. If the connection fails, the
  frames of what had arrived were handled.\<close>

theorem recv_loop_refines:
  assumes "byte_source rd content src_inv delay src_err" and "src_inv s" and "\<not> se_is_closed se"
    and "\<And>b. 0 < room b" and "initial = (case se_initial_data se of Some d \<Rightarrow> d | None \<Rightarrow> [])"
  shows "\<exists>r s' se'. recv_loop env rd room s se = Some (r, s', se') \<and> src_inv s' \<and>
    ((r, se') = void (recv_outcome env (initial @ content s) (se\<lparr>se_initial_data := None\<rparr>)) \<or>
     (\<exists>e seen unseen rest. r = Err e \<and> src_err e \<and> content s = seen @ unseen \<and>
        recv_outcome env (initial @ seen) (se\<lparr>se_initial_data := None\<rparr>) = (Ok rest, se')))"
proof -
  have "\<not> se_is_closed (se\<lparr>se_initial_data := None\<rparr>)" using assms(3) by simp
  from byte_source.recv_loop_total [OF assms(1,2) this assms(4), where env = env and buffer = initial]
  show ?thesis unfolding recv_loop_def assms(5) .
qed

section \<open>Replies\<close>

text \<open>The frames a session answers a frame with.\<close>

definition replies :: "frame \<Rightarrow> 'w session \<Rightarrow> frame list" where
  "replies f se =
     (case fr_cmd f of
        Syn \<Rightarrow>
          if se_received_client_settings se then []
          else [frame_with_data Alert 0 (bytes_of ''client did not send its settings'')]
      | Settings \<Rightarrow>
          (let settings = string_map_from_bytes (fr_data f) in
           (if settings ''padding-md5'' \<noteq> None \<and> settings ''padding-md5'' \<noteq> Some (pf_md5 (se_padding se))
            then [frame_with_data UpdatePaddingScheme 0 (pf_raw_scheme (se_padding se))] else [])
           @ (if peer_version_of settings \<noteq> None
              then [frame_with_data ServerSettings 0 (bytes_of ''v=2'')] else []))
      | HeartRequest \<Rightarrow> [frame_control HeartResponse (fr_stream_id f)]
      | _ \<Rightarrow> [])"

text \<open>A connection whose writes succeed, control frames within their time.\<close>

locale healthy_writer = frame_writer "env_write_all env" "env_flush env" sent
  for env :: "'w session_env" and sent +
  assumes writes_succeed: "fst (env_write_all env w bs) = Ok ()" "fst (env_flush env w) = Ok ()"
    and in_time: "env_patience env w bs = InTime"
begin

lemma write_frame_sends:
  assumes "session_ok se"
  obtains w' where "write_frame env f se = (Ok (), se\<lparr>se_writer := w'\<rparr>)" and "sent w' = sent (se_writer se) @ frame_bytes f"
proof -
  obtain w1 where w1: "env_write_all env (se_writer se) (frame_bytes f) = (Ok (), w1)"
    using writes_succeed(1) [of "se_writer se" "frame_bytes f"] by (metis prod.collapse)
  obtain w2 where w2: "env_flush env w1 = (Ok (), w2)"
    using writes_succeed(2) [of w1] by (metis prod.collapse)
  have "sent w2 = sent (se_writer se) @ frame_bytes f" using wa_ok [OF w1] fl_sent [OF w2] by simp
  with w1 w2 assms that [of w2] show ?thesis
    by (simp add: write_frame_plain session_ok_def on_writer_def write_and_flush_def)
qed

lemma control_frame_sends:
  assumes "session_ok se"
  obtains w' where "write_control_frame env f se = (Ok (), se\<lparr>se_writer := w'\<rparr>)"
    and "sent w' = sent (se_writer se) @ frame_bytes f"
  using write_frame_sends [OF assms, of f] in_time by (auto simp: write_control_frame_def)

lemma settings_entry: "string_map_to_bytes [(''v'', ''2'')] = bytes_of ''v=2''"
  by (simp add: string_map_to_bytes_def entry_text_def)

lemma handle_settings_replies:
  assumes "session_ok se" and "fr_cmd f = Settings" and "handle_settings env f se = (r, se')"
  shows "r = Ok () \<and> sent (se_writer se') = sent (se_writer se) @ concat (map frame_bytes (replies f se))"
proof -
  let ?se = "se\<lparr>se_received_client_settings := True\<rparr>"
  let ?settings = "string_map_from_bytes (fr_data f)"
  let ?first = "case ?settings ''padding-md5'' of
      Some client_md5 \<Rightarrow>
        if client_md5 \<noteq> pf_md5 (se_padding ?se)
        then write_control_frame env (frame_with_data UpdatePaddingScheme 0 (pf_raw_scheme (se_padding ?se)))
        else ret ()
    | None \<Rightarrow> ret ()"
  let ?update = "if ?settings ''padding-md5'' \<noteq> None \<and> ?settings ''padding-md5'' \<noteq> Some (pf_md5 (se_padding se))
    then [frame_with_data UpdatePaddingScheme 0 (pf_raw_scheme (se_padding se))] else []"
  have ok: "session_ok ?se" using assms(1) by simp
  obtain w1 where w1: "?first ?se = (Ok (), ?se\<lparr>se_writer := w1\<rparr>)"
    and s1: "sent w1 = sent (se_writer se) @ concat (map frame_bytes ?update)"
  proof (cases "?update = []")
    case True
    show ?thesis
      by (rule that [of "se_writer se"]) (use True in \<open>auto simp: ret_def split: option.splits if_splits\<close>)
  next
    case False
    then obtain m where m: "?settings ''padding-md5'' = Some m" "m \<noteq> pf_md5 (se_padding se)"
      by (auto split: if_splits)
    obtain w' where "write_control_frame env (frame_with_data UpdatePaddingScheme 0 (pf_raw_scheme (se_padding se))) ?se
        = (Ok (), ?se\<lparr>se_writer := w'\<rparr>)"
      "sent w' = sent (se_writer ?se) @ frame_bytes (frame_with_data UpdatePaddingScheme 0 (pf_raw_scheme (se_padding se)))"
      by (rule control_frame_sends [OF ok])
    with m that [of w'] show ?thesis by simp
  qed
  show ?thesis
  proof (cases "peer_version_of ?settings")
    case None
    with assms(2,3) w1 s1 show ?thesis
      by (auto simp: handle_settings_def bind_io_def Let_def replies_def)
  next
    case (Some v)
    let ?se1 = "?se\<lparr>se_writer := w1, se_peer_version := v\<rparr>"
    have "session_ok ?se1" using ok by simp
    then obtain w2 where "write_control_frame env (frame_with_data ServerSettings 0 (bytes_of ''v=2'')) ?se1
        = (Ok (), ?se1\<lparr>se_writer := w2\<rparr>)"
      "sent w2 = sent (se_writer ?se1) @ frame_bytes (frame_with_data ServerSettings 0 (bytes_of ''v=2''))"
      by (rule control_frame_sends)
    with assms(2,3) w1 s1 Some show ?thesis
      by (auto simp: handle_settings_def bind_io_def Let_def replies_def settings_entry)
  qed
qed

lemma handle_frame_replies:
  assumes "session_ok se" and "handle_frame env f se = (r, se')"
  shows "sent (se_writer se') = sent (se_writer se) @ concat (map frame_bytes (replies f se))"
proof (cases "fr_cmd f")
  case Settings
  with assms handle_settings_replies [of se f r se'] show ?thesis by (simp add: handle_frame_def)
next
  case HeartRequest
  obtain w' where "write_control_frame env (frame_control HeartResponse (fr_stream_id f)) se = (Ok (), se\<lparr>se_writer := w'\<rparr>)"
    "sent w' = sent (se_writer se) @ frame_bytes (frame_control HeartResponse (fr_stream_id f))"
    by (rule control_frame_sends [OF assms(1)])
  with HeartRequest assms(2) show ?thesis by (auto simp: handle_frame_def replies_def)
next
  case Syn
  let ?alert = "frame_with_data Alert 0 (bytes_of ''client did not send its settings'')"
  obtain w' where "write_control_frame env ?alert se = (Ok (), se\<lparr>se_writer := w'\<rparr>)"
    "sent w' = sent (se_writer se) @ frame_bytes ?alert"
    by (rule control_frame_sends [OF assms(1)])
  with Syn assms(2) show ?thesis
    by (auto simp: handle_frame_def replies_def handle_syn_def bind_io_def register_task_def open_stream_def Let_def
      split: option.splits if_splits)
next
  case Fin
  with assms(2) show ?thesis
    by (auto simp: handle_frame_def replies_def handle_fin_def drop_sender_def chan_send_def split: option.splits)
next
  case Psh
  with assms(2) show ?thesis
    by (auto simp: handle_frame_def replies_def handle_psh_def chan_send_def split: option.splits if_splits)
qed (use assms(2) in \<open>auto simp: handle_frame_def replies_def\<close>)

end

text \<open>The frame a stream's message becomes.\<close>

definition message_frame :: "u32 \<times> byte list \<Rightarrow> frame" where
  "message_frame m = (if snd m = [] then frame_control Fin (fst m) else data_frame (fst m) (snd m))"

lemma remove_stream_simps [simp]:
  "se_writer (remove_stream i se) = se_writer se" "se_is_closed (remove_stream i se) = se_is_closed se"
  by (simp_all add: remove_stream_def drop_sender_def split: option.split)

context healthy_writer
begin

lemma process_outgoing_sends:
  assumes "session_ok se" and "\<not> se_is_closed se"
  shows "sent (se_writer (process_outgoing env msgs se))
    = sent (se_writer se) @ concat (map (\<lambda>m. frame_bytes (message_frame m)) msgs)"
  using assms
proof (induction msgs arbitrary: se)
  case Nil
  show ?case by simp
next
  case (Cons m msgs)
  obtain i d where m: "m = (i, d)" by (cases m)
  obtain w' where w: "write_frame env (message_frame m) se = (Ok (), se\<lparr>se_writer := w'\<rparr>)"
    "sent w' = sent (se_writer se) @ frame_bytes (message_frame m)"
    by (rule write_frame_sends [OF Cons.prems(1)])
  have "session_ok (se\<lparr>se_writer := w'\<rparr>)" "session_ok (remove_stream i (se\<lparr>se_writer := w'\<rparr>))"
    using Cons.prems(1) by simp_all
  from this [THEN Cons.IH] Cons.prems(2) m w show ?case
    by (cases "d = []") (simp_all add: message_frame_def)
qed

end

text \<open>A connection that takes everything.\<close>

definition vec_env :: "byte list session_env" where
  "vec_env = \<lparr>env_write_all = vec_write_all, env_flush = vec_flush, env_shutdown = vec_flush,
     env_writer_free = (\<lambda>_. True), env_patience = (\<lambda>_ _. InTime), env_rand = (\<lambda>_ lo _. lo)\<rparr>"

interpretation vec_session: healthy_writer vec_env "\<lambda>w. w"
  by unfold_locales (auto simp: vec_env_def vec_write_all_def vec_flush_def)

text \<open>C33. On a connection that works, a session answers every frame with exactly the specified frames: an
  alert for a stream opened before the settings, the padding scheme to a client that has another, its
  own settings to a client of version 2 or later, a heartbeat response to a request, and nothing
  otherwise.\<close>

theorem session_replies:
  assumes "healthy_writer env sent" and "session_ok se" and "handle_frame env f se = (r, se')"
  shows "sent (se_writer se') = sent (se_writer se) @ concat (map frame_bytes (replies f se))"
  by (rule healthy_writer.handle_frame_replies [OF assms])

text \<open>C24. What the streams send arrives: on a connection that works the messages of the streams are
  written in order, and a client that decodes the bytes gets exactly one frame for each, data for a
  message with bytes and FIN for an empty one.\<close>

theorem outgoing_messages_arrive:
  assumes "healthy_writer env sent" and "session_ok se" and "\<not> se_is_closed se"
    and "\<forall>(i, d) \<in> set msgs. length d \<le> 65535"
  shows "\<exists>bytes. sent (se_writer (process_outgoing env msgs se)) = sent (se_writer se) @ bytes
    \<and> decode_frames bytes = (map message_frame msgs, Ok [])"
proof -
  let ?bytes = "concat (map (\<lambda>m. frame_bytes (message_frame m)) msgs)"
  have "\<forall>f \<in> set (map message_frame msgs). frame_ok f"
    using assms(4) by (auto simp: message_frame_def frame_ok_def frame_control_def frame_with_data_def data_frame_def)
  from decode_frames_encoded [OF this, of "[]"]
  have "decode_frames ?bytes = (map message_frame msgs, Ok [])"
    using decode_frames_None [of "[]" "[]"] by (simp add: frame_decode_def comp_def)
  then show ?thesis
    using healthy_writer.process_outgoing_sends [OF assms(1-3), of msgs] by blast
qed

text \<open>A stream opened after the session was closed is never torn down: the receive loop looks at
  the closed flag only between reads, so a SYN that was read with the frame before it still starts a
  task, and the closing at the end of \<^verbatim>\<open>run\<close> does nothing, since the flag is set: the sender stays in the
  map, the task's handle is not aborted, and the task waits for data that cannot come.\<close>

theorem late_stream_survives_close:
  assumes "session_ok se" and "se_is_closed se" and "se_received_client_settings se" and "se_streams se i = None"
    and "handle_frame env (frame_control Syn i) se = (r, se')"
  shows "r = Ok () \<and> close env se' = se' \<and>
    (\<exists>c. se_streams se' i = Some c \<and> se_stream_tasks se' i = Some c \<and> ch_sender (se_channels se' c)
       \<and> ch_msgs (se_channels se' c) = [])"
  using assms
  by (auto simp: handle_frame_def frame_control_def frame_with_data_def handle_syn_def register_task_def
    open_stream_def Let_def close_def)

section \<open>Concrete sessions\<close>

definition demo_padding :: padding_factory where
  "demo_padding = \<lparr>pf_scheme = Map.empty, pf_raw_scheme = bytes_of ''stop=1'', pf_stop = 1, pf_md5 = ''x''\<rparr>"

definition demo_session :: "byte list session" where
  "demo_session = new_server_with_initial_data [] demo_padding True ''user'' None"

definition demo_open :: "byte list session" where
  "demo_open = register_task 7 0 (open_stream 7 (demo_session\<lparr>se_received_client_settings := True\<rparr>))"

lemmas demo_defs = demo_session_def demo_open_def new_server_with_initial_data_def register_task_def open_stream_def
  Let_def anytls_stream_new_def

lemma demo_session_ok [simp]: "session_ok demo_session" "session_ok demo_open"
proof -
  show ok: "session_ok demo_session" unfolding demo_session_def by (rule session_ok_new)
  have "se_streams (demo_session\<lparr>se_received_client_settings := True\<rparr>) 7 = None"
    by (simp add: demo_session_def new_server_with_initial_data_def)
  with ok show "session_ok demo_open"
    unfolding demo_open_def register_task_def by (simp add: session_ok_open_stream)
qed


theorem streams_demultiplexed_witness:
  "let fs = [data_frame 7 [1, 2], data_frame 9 [3], frame_control Syn 7, data_frame 7 [], data_frame 7 [4]];
       (r, se') = handle_frames vec_env (fs @ [frame_control Fin 7]) demo_open
   in r = Ok () \<and> ch_msgs (se_channels se' 0) = [[1, 2], [4], []] \<and> \<not> ch_sender (se_channels se' 0)"
proof -
  let ?fs = "[data_frame 7 [1, 2], data_frame 9 [3], frame_control Syn 7, data_frame 7 [], data_frame 7 [4]]"
  obtain r se' where run: "handle_frames vec_env (?fs @ [frame_control Fin 7]) demo_open = (r, se')" by fastforce
  then have r: "r = Ok ()"
    by (auto simp: bind_io_def handle_frame_def handle_psh_def handle_syn_def handle_fin_def data_frame_def
      frame_control_def frame_with_data_def demo_defs chan_send_def drop_sender_def)
  have c: "se_streams demo_open 7 = Some 0" "ch_receiver (se_channels demo_open 0)" "ch_msgs (se_channels demo_open 0) = []"
    by (simp_all add: demo_defs)
  have "\<forall>f \<in> set ?fs. \<not> (fr_cmd f = Fin \<and> fr_stream_id f = 7)"
    by (simp add: data_frame_def frame_control_def frame_with_data_def)
  from streams_demultiplexed [OF demo_session_ok(2) c(1,2) this run [unfolded r]] c(3) r show ?thesis
    unfolding Let_def run by (simp add: data_frame_def frame_control_def frame_with_data_def)
qed

theorem recv_loop_refines_witness:
  "\<exists>r s' se'. recv_loop vec_env script_read (\<lambda>_. 64) [Chunk [8, 0, 0], Wait, Chunk [0, 5, 0, 0]] demo_session
      = Some (r, s', se') \<and> script_inv s'"
proof -
  have "script_inv [Chunk [8, 0, 0], Wait, Chunk [0, 5, 0, 0]]" "\<not> se_is_closed demo_session"
    by (simp_all add: script_inv_def demo_defs)
  from recv_loop_refines [OF script.byte_source_axioms this, of "\<lambda>_. 64" _ vec_env] show ?thesis by auto
qed

theorem session_replies_witness:
  "let (r, se') = handle_frame vec_env (frame_control HeartRequest 5) demo_session
   in se_writer se' = frame_bytes (frame_control HeartResponse 5)"
proof -
  obtain r se' where run: "handle_frame vec_env (frame_control HeartRequest 5) demo_session = (r, se')" by fastforce
  from session_replies [OF vec_session.healthy_writer_axioms demo_session_ok(1) run] show ?thesis
    unfolding Let_def run by (simp add: replies_def frame_control_def frame_with_data_def demo_defs)
qed

theorem outgoing_messages_arrive_witness:
  "\<exists>bytes. se_writer (process_outgoing vec_env [(7, [1]), (7, [])] demo_session) = se_writer demo_session @ bytes
    \<and> decode_frames bytes = ([data_frame 7 [1], frame_control Fin 7], Ok [])"
proof -
  have "\<not> se_is_closed demo_session" "\<forall>(i, d) \<in> set [(7 :: u32, [1 :: byte]), (7, [])]. length d \<le> 65535"
    by (simp_all add: demo_defs)
  from outgoing_messages_arrive [OF vec_session.healthy_writer_axioms demo_session_ok(1) this] show ?thesis
    by (simp add: message_frame_def)
qed

theorem late_stream_survives_close_witness:
  "let se = (close vec_env demo_session)\<lparr>se_received_client_settings := True\<rparr>;
       (r, se') = handle_frame vec_env (frame_control Syn 7) se
   in close vec_env se' = se' \<and> (\<exists>c. se_streams se' 7 = Some c \<and> ch_sender (se_channels se' c))"
proof -
  let ?se = "(close vec_env demo_session)\<lparr>se_received_client_settings := True\<rparr>"
  obtain r se' where run: "handle_frame vec_env (frame_control Syn 7) ?se = (r, se')" by fastforce
  have "session_ok ?se" by simp
  moreover have "se_is_closed ?se" "se_received_client_settings ?se" "se_streams ?se 7 = None"
    by (simp_all add: close_def Let_def demo_defs)
  ultimately show ?thesis using late_stream_survives_close [OF _ _ _ _ run] unfolding Let_def run by auto
qed

end
