(* ===== verification/Udp_Copy.thy ===== *)
theory Udp_Copy
  imports Copy_Bidirectional Vless_Message
begin

text \<open>
  \<^verbatim>\<open>src/udp_relay.rs\<close>, first part: copying messages between two message streams, of which one is
  usually a connected UDP socket. A direction holds at most one message; the locale \<open>message_pipe\<close> states
  what it needs of the streams at its ends, and its lemmas that every poll returns and loses, repeats and
  splits no message. The cooperative budget of the runtime is a parameter of each poll, as in \<open>Copy_Bidirectional\<close>, whose
  transfer states are used here too.
\<close>

section \<open>One direction\<close>

record msg_buffer =
  mb_read_done :: bool
  mb_need_flush :: bool
  mb_need_write_ping :: bool
  mb_cache_length :: nat
  mb_buf :: "byte list"
  mb_read_count :: u64

definition msg_buffer_new :: "(nat \<Rightarrow> byte) \<Rightarrow> bool \<Rightarrow> msg_buffer" where
  "msg_buffer_new mem need_flush =
     \<lparr>mb_read_done = False, mb_need_flush = need_flush, mb_need_write_ping = False, mb_cache_length = 0,
      mb_buf = allocate_vec mem 65535, mb_read_count = 0\<rparr>"

text \<open>The three parts of a round. Each gives two flags: something was done, it was pending.\<close>

definition msg_fill :: "'r reader \<Rightarrow> msg_buffer \<Rightarrow> 'r \<Rightarrow> (bool \<times> bool) res \<times> msg_buffer \<times> 'r" where
  "msg_fill rd mb r =
     (if \<not> mb_read_done mb \<and> mb_cache_length mb = 0 then
        (case rd r (length (mb_buf mb)) of
           (Ready (Ok bs), r') \<Rightarrow>
             if bs = [] then (Ok (False, False), mb\<lparr>mb_read_done := True\<rparr>, r')
             else (Ok (True, False),
                   mb\<lparr>mb_cache_length := length bs, mb_buf := overwrite 0 bs (mb_buf mb),
                       mb_read_count := mb_read_count mb + of_nat (length bs)\<rparr>, r')
         | (Ready (Err e), r') \<Rightarrow> (Err e, mb, r')
         | (Ready Panic, r') \<Rightarrow> (Panic, mb, r')
         | (Pending, r') \<Rightarrow> (Ok (False, True), mb, r'))
      else (Ok (False, False), mb, r))"

definition msg_drain :: "'w message_stream \<Rightarrow> msg_buffer \<Rightarrow> 'w \<Rightarrow> (bool \<times> bool) res \<times> msg_buffer \<times> 'w" where
  "msg_drain ops mb w =
     (if mb_cache_length mb > 0 then
        (case op_write_message ops w (take (mb_cache_length mb) (mb_buf mb)) of
           (Ready (Ok _), w') \<Rightarrow>
             (Ok (True, False),
              mb\<lparr>mb_cache_length := 0, mb_need_flush := True, mb_need_write_ping := False\<rparr>, w')
         | (Ready (Err e), w') \<Rightarrow> (Err e, mb, w')
         | (Ready Panic, w') \<Rightarrow> (Panic, mb, w')
         | (Pending, w') \<Rightarrow> (Ok (False, True), mb, w'))
      else (Ok (False, False), mb, w))"

definition msg_ping :: "'w message_stream \<Rightarrow> bool \<Rightarrow> msg_buffer \<Rightarrow> 'w \<Rightarrow> bool res \<times> msg_buffer \<times> 'w" where
  "msg_ping ops write_pending mb w =
     (if \<not> write_pending \<and> mb_need_write_ping mb then
        (case op_write_ping ops w of
           (Ready (Ok sent), w') \<Rightarrow>
             (Ok write_pending,
              if sent then mb\<lparr>mb_need_write_ping := False, mb_need_flush := True\<rparr>
              else mb\<lparr>mb_need_write_ping := False\<rparr>, w')
         | (Ready (Err e), w') \<Rightarrow> (Err e, mb, w')
         | (Ready Panic, w') \<Rightarrow> (Panic, mb, w')
         | (Pending, w') \<Rightarrow> (Ok True, mb, w'))
      else (Ok write_pending, mb, w))"

text \<open>The end of a round: what the poll returns, or nothing when the loop goes round again.\<close>

definition msg_round_end ::
  "'w message_stream \<Rightarrow> bool \<Rightarrow> bool \<Rightarrow> bool \<Rightarrow> bool \<Rightarrow> msg_buffer \<Rightarrow> 'w \<Rightarrow>
   unit res poll option \<times> msg_buffer \<times> 'w" where
  "msg_round_end ops did_read did_write read_pending write_pending mb w =
     (if did_read \<and> did_write \<and> \<not> read_pending \<and> \<not> write_pending then (None, mb, w)
      else if mb_need_flush mb then
        (case op_flush_message ops w of
           (Ready (Ok _), w') \<Rightarrow> (None, mb\<lparr>mb_need_flush := False\<rparr>, w')
         | (p, w') \<Rightarrow> (Some p, mb, w'))
      else if mb_read_done mb \<and> mb_cache_length mb = 0 then (Some (Ready (Ok ())), mb, w)
      else if read_pending \<or> write_pending then (Some Pending, mb, w)
      else (None, mb, w))"

definition msg_round ::
  "'r reader \<Rightarrow> 'w message_stream \<Rightarrow> msg_buffer \<Rightarrow> 'r \<Rightarrow> 'w \<Rightarrow>
   unit res poll option \<times> msg_buffer \<times> 'r \<times> 'w" where
  "msg_round rd ops mb r w =
     (case msg_fill rd mb r of
        (Err e, mb1, r1) \<Rightarrow> (Some (Ready (Err e)), mb1, r1, w)
      | (Panic, mb1, r1) \<Rightarrow> (Some (Ready Panic), mb1, r1, w)
      | (Ok (did_read, read_pending), mb1, r1) \<Rightarrow>
          (case msg_drain ops mb1 w of
             (Err e, mb2, w2) \<Rightarrow> (Some (Ready (Err e)), mb2, r1, w2)
           | (Panic, mb2, w2) \<Rightarrow> (Some (Ready Panic), mb2, r1, w2)
           | (Ok (did_write, drain_pending), mb2, w2) \<Rightarrow>
               (case msg_ping ops drain_pending mb2 w2 of
                  (Err e, mb3, w3) \<Rightarrow> (Some (Ready (Err e)), mb3, r1, w3)
                | (Panic, mb3, w3) \<Rightarrow> (Some (Ready Panic), mb3, r1, w3)
                | (Ok write_pending, mb3, w3) \<Rightarrow>
                    (case msg_round_end ops did_read did_write read_pending write_pending mb3 w3 of
                       (p, mb4, w4) \<Rightarrow> (p, mb4, r1, w4)))))"

partial_function (option) msg_copy_loop ::
  "'r reader \<Rightarrow> 'w message_stream \<Rightarrow> msg_buffer \<Rightarrow> 'r \<Rightarrow> 'w \<Rightarrow>
   (unit res poll \<times> msg_buffer \<times> 'r \<times> 'w) option" where
  "msg_copy_loop rd ops mb r w =
     (case msg_round rd ops mb r w of
        (Some p, mb', r', w') \<Rightarrow> Some (p, mb', r', w')
      | (None, mb', r', w') \<Rightarrow> msg_copy_loop rd ops mb' r' w')"

definition msg_poll_copy ::
  "bool \<Rightarrow> 'r reader \<Rightarrow> 'w message_stream \<Rightarrow> msg_buffer \<Rightarrow> 'r \<Rightarrow> 'w \<Rightarrow>
   (unit res poll \<times> msg_buffer \<times> 'r \<times> 'w) option" where
  "msg_poll_copy proceed rd ops mb r w =
     (if proceed then msg_copy_loop rd ops mb r w else Some (Pending, mb, r, w))"

function msg_transfer_one_direction ::
  "bool \<Rightarrow> 'r reader \<Rightarrow> 'w message_stream \<Rightarrow> transfer_state \<Rightarrow> msg_buffer \<Rightarrow> 'r \<Rightarrow> 'w \<Rightarrow>
   (unit res poll \<times> transfer_state \<times> msg_buffer \<times> 'r \<times> 'w) option" where
  "msg_transfer_one_direction proceed rd ops Running buf r w =
     Option.bind (msg_poll_copy proceed rd ops buf r w) (\<lambda>(p, buf', r', w').
       case p of
         Ready (Ok _) \<Rightarrow> msg_transfer_one_direction proceed rd ops ShuttingDown buf' r' w'
       | _ \<Rightarrow> Some (p, Running, buf', r', w'))"
| "msg_transfer_one_direction proceed rd ops ShuttingDown buf r w =
     (case op_shutdown_message ops w of
        (Ready (Ok _), w') \<Rightarrow> msg_transfer_one_direction proceed rd ops Done buf r w'
      | (p, w') \<Rightarrow> Some (p, ShuttingDown, buf, r, w'))"
| "msg_transfer_one_direction proceed rd ops Done buf r w = Some (Ready (Ok ()), Done, buf, r, w)"
  by pat_completeness auto
termination
  by (relation "measure (\<lambda>(proceed, rd, ops, state, buf, r, w). state_rank state)") auto

section \<open>Both directions\<close>

record ('a, 'b) msg_bidi =
  mi_a :: 'a
  mi_b :: 'b
  mi_a_buf :: msg_buffer
  mi_b_buf :: msg_buffer
  mi_a_to_b :: transfer_state
  mi_b_to_a :: transfer_state
  mi_sleep :: instant
  mi_last_active :: instant

abbreviation association_timeout :: nat where
  "association_timeout \<equiv> secs 200"

definition msg_timer ::
  "instant \<Rightarrow> 'a message_stream \<Rightarrow> 'b message_stream \<Rightarrow> ('a, 'b) msg_bidi \<Rightarrow> ('a, 'b) msg_bidi" where
  "msg_timer now opa opb c =
     (if mi_sleep c \<le> now
      then c\<lparr>mi_a_buf := (mi_a_buf c)\<lparr>mb_need_write_ping := op_supports_ping opb (mi_b c)\<rparr>,
             mi_b_buf := (mi_b_buf c)\<lparr>mb_need_write_ping := op_supports_ping opa (mi_a c)\<rparr>,
             mi_sleep := now + secs 60\<rparr>
      else c)"

text \<open>The end of a poll: an association where nothing was read is given up after 200 seconds; otherwise the
  first direction that is ready decides.\<close>

definition msg_bidi_end ::
  "instant \<Rightarrow> bool \<Rightarrow> unit res poll \<Rightarrow> unit res poll \<Rightarrow> ('a, 'b) msg_bidi \<Rightarrow>
   unit res poll \<times> ('a, 'b) msg_bidi" where
  "msg_bidi_end now active a_to_b b_to_a c =
     (if a_to_b = Ready Panic \<or> b_to_a = Ready Panic then (Ready Panic, c)
      else if \<not> active \<and> now - mi_last_active c \<ge> association_timeout then (Ready (Ok ()), c)
      else
        (case a_to_b of
           Ready r \<Rightarrow> Ready r
         | Pending \<Rightarrow> b_to_a,
         if active then c\<lparr>mi_last_active := now\<rparr> else c))"

definition msg_bidi_poll ::
  "instant \<Rightarrow> bool \<Rightarrow> bool \<Rightarrow> 'a message_stream \<Rightarrow> 'b message_stream \<Rightarrow> ('a, 'b) msg_bidi \<Rightarrow>
   (unit res poll \<times> ('a, 'b) msg_bidi) option" where
  "msg_bidi_poll now proceed_a proceed_b opa opb c0 =
     (let c = msg_timer now opa opb c0 in
      Option.bind
        (msg_transfer_one_direction proceed_a (op_read_message opa) opb (mi_a_to_b c) (mi_a_buf c) (mi_a c) (mi_b c))
        (\<lambda>(p, st_a, buf_a, a1, b1).
          Option.bind
            (msg_transfer_one_direction proceed_b (op_read_message opb) opa (mi_b_to_a c) (mi_b_buf c) b1 a1)
            (\<lambda>(q, st_b, buf_b, b2, a2).
              Some (msg_bidi_end now
                (mb_read_count buf_a \<noteq> mb_read_count (mi_a_buf c) \<or> mb_read_count buf_b \<noteq> mb_read_count (mi_b_buf c))
                p q
                (c\<lparr>mi_a := a2, mi_b := b2, mi_a_buf := buf_a, mi_b_buf := buf_b,
                   mi_a_to_b := st_a, mi_b_to_a := st_b\<rparr>)))))"

definition copy_bidirectional_message ::
  "(nat \<Rightarrow> byte) \<Rightarrow> instant \<Rightarrow> 'a \<Rightarrow> 'b \<Rightarrow> bool \<Rightarrow> bool \<Rightarrow> ('a, 'b) msg_bidi" where
  "copy_bidirectional_message mem now a b a_initial_flush b_initial_flush =
     \<lparr>mi_a = a, mi_b = b, mi_a_buf = msg_buffer_new mem b_initial_flush,
      mi_b_buf = msg_buffer_new mem a_initial_flush, mi_a_to_b = Running, mi_b_to_a = Running,
      mi_sleep = now + secs 60, mi_last_active = now\<rparr>"

text \<open>Awaiting the copy: it is polled at the times of \<open>clock\<close>, with the budgets of \<open>budget\<close>, until it is ready.\<close>

partial_function (option) await_msg_bidi ::
  "(nat \<Rightarrow> instant) \<Rightarrow> (nat \<Rightarrow> bool \<times> bool) \<Rightarrow> nat \<Rightarrow> 'a message_stream \<Rightarrow> 'b message_stream \<Rightarrow>
   ('a, 'b) msg_bidi \<Rightarrow> (unit res \<times> ('a, 'b) msg_bidi) option" where
  "await_msg_bidi clock budget k opa opb c =
     Option.bind (msg_bidi_poll (clock k) (fst (budget k)) (snd (budget k)) opa opb c) (\<lambda>(p, c').
       case p of
         Ready r \<Rightarrow> Some (r, c')
       | Pending \<Rightarrow> await_msg_bidi clock budget (Suc k) opa opb c')"

definition run_udp_copy ::
  "(nat \<Rightarrow> byte) \<Rightarrow> (nat \<Rightarrow> instant) \<Rightarrow> (nat \<Rightarrow> bool \<times> bool) \<Rightarrow> 'a message_stream \<Rightarrow> 'b message_stream \<Rightarrow>
   'a \<Rightarrow> 'b \<Rightarrow> bool \<Rightarrow> bool \<Rightarrow> (unit res \<times> 'a \<times> 'b) option" where
  "run_udp_copy mem clock budget ops_s ops_c server_stream client_stream server_need_initial_flush client_need_initial_flush =
     Option.bind
       (await_msg_bidi clock budget 0 (box_message_stream ops_s) (box_message_stream ops_c)
          (copy_bidirectional_message mem (clock 0) server_stream client_stream
             server_need_initial_flush client_need_initial_flush))
       (\<lambda>(copy_result, c).
          Option.bind (await_flush (op_shutdown_message ops_s) (mi_a c)) (\<lambda>(_, server').
          Option.bind (await_flush (op_shutdown_message ops_c) (mi_b c)) (\<lambda>(_, client').
          Some (copy_result, server', client'))))"

section \<open>What a direction conserves\<close>

text \<open>\<open>inbox r\<close> are the messages the reader has yet to deliver, \<open>outbox w\<close> those the writer has taken. A read of
  no bytes is the end of the stream or an empty message; the program does not tell them apart.\<close>

locale message_pipe =
  fixes rd :: "'r reader" and ops :: "'w message_stream"
    and inbox :: "'r \<Rightarrow> byte list list" and rd_inv :: "'r \<Rightarrow> bool"
    and outbox :: "'w \<Rightarrow> byte list list" and wr_inv :: "'w \<Rightarrow> bool"
  assumes read_message: "rd_inv r \<Longrightarrow> rd r 65535 = (Ready (Ok bs), r') \<Longrightarrow>
      rd_inv r' \<and> length bs \<le> 65535 \<and> (inbox r = bs # inbox r' \<or> bs = [] \<and> inbox r = [] \<and> inbox r' = [])"
    and read_message_pending: "rd_inv r \<Longrightarrow> rd r 65535 = (Pending, r') \<Longrightarrow> rd_inv r' \<and> inbox r' = inbox r"
    and read_message_no_panic: "rd_inv r \<Longrightarrow> rd r 65535 \<noteq> (Ready Panic, r')"
    and write_message: "wr_inv w \<Longrightarrow> op_write_message ops w m = (p, w') \<Longrightarrow>
      p \<noteq> Ready Panic \<and> wr_inv w' \<and> outbox w' = outbox w @ (if p = Ready (Ok ()) then [m] else [])"
    and flush_message: "wr_inv w \<Longrightarrow> op_flush_message ops w = (p, w') \<Longrightarrow>
      p \<noteq> Ready Panic \<and> wr_inv w' \<and> outbox w' = outbox w"
    and ping_message: "wr_inv w \<Longrightarrow> op_supports_ping ops w \<Longrightarrow> op_write_ping ops w = (q, w') \<Longrightarrow>
      q \<noteq> Ready Panic \<and> wr_inv w' \<and> outbox w' = outbox w"
    and supports_ping_stable: "op_supports_ping ops w' = op_supports_ping ops w"
begin

definition cached :: "msg_buffer \<Rightarrow> byte list list" where
  "cached mb = (if mb_cache_length mb = 0 then [] else [take (mb_cache_length mb) (mb_buf mb)])"

definition arriving :: "msg_buffer \<Rightarrow> 'r \<Rightarrow> byte list list" where
  "arriving mb r = (if mb_read_done mb then [] else takeWhile (\<lambda>m. m \<noteq> []) (inbox r))"

text \<open>Everything on its way: what was written, the message held, the messages to come up to the first empty
  one.\<close>

definition flow :: "msg_buffer \<Rightarrow> 'r \<Rightarrow> 'w \<Rightarrow> byte list list" where
  "flow mb r w = outbox w @ cached mb @ arriving mb r"

definition pipe_ok :: "msg_buffer \<Rightarrow> 'r \<Rightarrow> 'w \<Rightarrow> bool" where
  "pipe_ok mb r w \<longleftrightarrow> rd_inv r \<and> wr_inv w \<and> length (mb_buf mb) = 65535 \<and> mb_cache_length mb \<le> 65535
     \<and> (mb_need_write_ping mb \<longrightarrow> op_supports_ping ops w)"

definition fill_post ::
  "msg_buffer \<Rightarrow> 'r \<Rightarrow> 'w \<Rightarrow> (bool \<times> bool) res \<Rightarrow> msg_buffer \<Rightarrow> 'r \<Rightarrow> bool" where
  "fill_post mb r w x mb' r' \<longleftrightarrow>
     (case x of
        Ok (did, pend) \<Rightarrow>
          pipe_ok mb' r' w \<and> flow mb' r' w = flow mb r w \<and>
          mb_need_flush mb' = mb_need_flush mb \<and> mb_need_write_ping mb' = mb_need_write_ping mb \<and>
          (if did then mb_cache_length mb = 0 \<and> 0 < mb_cache_length mb' \<and> length (inbox r') < length (inbox r)
           else mb_cache_length mb' = mb_cache_length mb \<and> length (inbox r') \<le> length (inbox r)) \<and>
          (\<not> pend \<and> mb_cache_length mb' = 0 \<longrightarrow> mb_read_done mb')
      | Err e \<Rightarrow> mb' = mb
      | Panic \<Rightarrow> False)"

lemma msg_fill_spec:
  assumes ok: "pipe_ok mb r w"
  shows "case msg_fill rd mb r of (x, mb', r') \<Rightarrow> fill_post mb r w x mb' r'"
proof (cases "\<not> mb_read_done mb \<and> mb_cache_length mb = 0")
  case True
  obtain p r1 where rd: "rd r 65535 = (p, r1)" by fastforce
  have inv: "rd_inv r" and len: "length (mb_buf mb) = 65535" using ok by (simp_all add: pipe_ok_def)
  note defs = msg_fill_def fill_post_def pipe_ok_def flow_def arriving_def cached_def
  show ?thesis
  proof (cases p rule: poll_res_exhaust)
    case (ok bs)
    note m = read_message [OF inv rd [unfolded ok]]
    show ?thesis
    proof (cases "bs = []")
      case empty: True
      with m have "takeWhile (\<lambda>m. m \<noteq> []) (inbox r) = []" "length (inbox r1) \<le> length (inbox r)" by auto
      with empty m ok rd assms True len show ?thesis by (simp add: defs)
    next
      case False
      with m len have in_r: "inbox r = bs # inbox r1" "length bs \<le> length (mb_buf mb)" by auto
      then have "take (length bs) (overwrite 0 bs (mb_buf mb)) = bs" by (simp add: overwrite_def)
      with False in_r m ok rd assms True len show ?thesis by (simp add: defs)
    qed
  next
    case (err e)
    with True rd len show ?thesis by (simp add: defs)
  next
    case panic
    with rd read_message_no_panic [OF inv] show ?thesis by simp
  next
    case pending
    with read_message_pending [OF inv rd [unfolded pending]] True rd assms len show ?thesis
      by (simp add: defs)
  qed
next
  case False
  with assms show ?thesis by (auto simp: msg_fill_def fill_post_def)
qed

definition drain_post ::
  "msg_buffer \<Rightarrow> 'r \<Rightarrow> 'w \<Rightarrow> (bool \<times> bool) res \<Rightarrow> msg_buffer \<Rightarrow> 'w \<Rightarrow> bool" where
  "drain_post mb r w x mb' w' \<longleftrightarrow>
     (case x of
        Ok (did, pend) \<Rightarrow>
          pipe_ok mb' r w' \<and> flow mb' r w' = flow mb r w \<and> mb_read_done mb' = mb_read_done mb \<and>
          (if did then 0 < mb_cache_length mb \<and> \<not> pend \<and> mb_cache_length mb' = 0 \<and> mb_need_flush mb'
             \<and> \<not> mb_need_write_ping mb'
           else mb' = mb \<and> (pend \<longleftrightarrow> 0 < mb_cache_length mb))
      | Err e \<Rightarrow> outbox w' = outbox w
      | Panic \<Rightarrow> False)"

lemma msg_drain_spec:
  assumes "pipe_ok mb r w"
  shows "case msg_drain ops mb w of (x, mb', w') \<Rightarrow> drain_post mb r w x mb' w'"
proof (cases "mb_cache_length mb > 0")
  case True
  let ?m = "take (mb_cache_length mb) (mb_buf mb)"
  obtain p w1 where w1: "op_write_message ops w ?m = (p, w1)" by fastforce
  have inv: "wr_inv w" using assms(1) by (simp add: pipe_ok_def)
  have ping: "op_supports_ping ops w1 = op_supports_ping ops w" by (rule supports_ping_stable)
  note wm = write_message [OF inv w1]
  show ?thesis
    using True wm w1 assms ping
    by (cases p rule: poll_res_exhaust)
      (simp_all add: msg_drain_def drain_post_def pipe_ok_def flow_def arriving_def cached_def)
next
  case False
  with assms show ?thesis by (simp add: msg_drain_def drain_post_def)
qed

definition ping_post ::
  "bool \<Rightarrow> msg_buffer \<Rightarrow> 'r \<Rightarrow> 'w \<Rightarrow> bool res \<Rightarrow> msg_buffer \<Rightarrow> 'w \<Rightarrow> bool" where
  "ping_post pend mb r w x mb' w' \<longleftrightarrow>
     (case x of
        Ok pend' \<Rightarrow>
          pipe_ok mb' r w' \<and> flow mb' r w' = flow mb r w \<and> (pend \<longrightarrow> pend') \<and>
          mb_read_done mb' = mb_read_done mb \<and> mb_cache_length mb' = mb_cache_length mb \<and>
          (mb_need_write_ping mb' \<longrightarrow> mb_need_write_ping mb \<and> pend') \<and>
          (mb_need_flush mb' \<longrightarrow> mb_need_flush mb \<or> mb_need_write_ping mb \<and> \<not> mb_need_write_ping mb') \<and>
          (mb_need_flush mb \<longrightarrow> mb_need_flush mb')
      | Err e \<Rightarrow> outbox w' = outbox w
      | Panic \<Rightarrow> False)"

lemma msg_ping_spec:
  assumes "pipe_ok mb r w"
  shows "case msg_ping ops pend mb w of (x, mb', w') \<Rightarrow> ping_post pend mb r w x mb' w'"
proof (cases "\<not> pend \<and> mb_need_write_ping mb")
  case True
  obtain p w1 where w1: "op_write_ping ops w = (p, w1)" by fastforce
  have inv: "wr_inv w" "op_supports_ping ops w" using assms(1) True by (simp_all add: pipe_ok_def)
  have ping: "op_supports_ping ops w1 = op_supports_ping ops w" by (rule supports_ping_stable)
  note pm = ping_message [OF inv w1]
  show ?thesis
    using True pm w1 assms ping inv(2)
    by (cases p rule: poll_res_exhaust)
      (simp_all add: msg_ping_def ping_post_def pipe_ok_def flow_def arriving_def cached_def)
next
  case False
  with assms show ?thesis by (auto simp: msg_ping_def ping_post_def)
qed

text \<open>What remains to be done before a poll returns.\<close>

definition pipe_work :: "msg_buffer \<Rightarrow> 'r \<Rightarrow> nat" where
  "pipe_work mb r = 4 * length (inbox r) + (if 0 < mb_cache_length mb then 2 else 0)
     + (if mb_need_flush mb then 1 else 0) + (if mb_need_write_ping mb then 1 else 0)"

definition round_post ::
  "msg_buffer \<Rightarrow> 'r \<Rightarrow> 'w \<Rightarrow> unit res poll option \<Rightarrow> msg_buffer \<Rightarrow> 'r \<Rightarrow> 'w \<Rightarrow> bool" where
  "round_post mb r w p mb' r' w' \<longleftrightarrow>
     (case p of
        None \<Rightarrow> pipe_ok mb' r' w' \<and> flow mb' r' w' = flow mb r w \<and> pipe_work mb' r' < pipe_work mb r
      | Some (Ready (Ok _)) \<Rightarrow>
          pipe_ok mb' r' w' \<and> flow mb' r' w' = flow mb r w \<and> mb_read_done mb' \<and> mb_cache_length mb' = 0
      | Some (Ready (Err e)) \<Rightarrow> (\<exists>rest. flow mb r w = outbox w' @ rest)
      | Some (Ready Panic) \<Rightarrow> False
      | Some Pending \<Rightarrow> pipe_ok mb' r' w' \<and> flow mb' r' w' = flow mb r w)"

lemma outbox_prefix: "flow mb r w = F \<Longrightarrow> outbox w' = outbox w \<Longrightarrow> \<exists>rest. F = outbox w' @ rest"
  unfolding flow_def by force

lemma msg_round_end_spec:
  assumes "pipe_ok mb3 r1 w3" and "flow mb3 r1 w3 = flow mb r w"
    and "mb_need_flush mb3 \<Longrightarrow> 4 * length (inbox r1) + (if 0 < mb_cache_length mb3 then 2 else 0)
           + (if mb_need_write_ping mb3 then 1 else 0) < pipe_work mb r"
    and "did_read \<Longrightarrow> did_write \<Longrightarrow> pipe_work mb3 r1 < pipe_work mb r"
    and "\<not> mb_need_flush mb3 \<Longrightarrow> \<not> read_pending \<Longrightarrow> \<not> write_pending \<Longrightarrow>
           mb_read_done mb3 \<and> mb_cache_length mb3 = 0 \<or> did_read \<and> did_write"
  shows "case msg_round_end ops did_read did_write read_pending write_pending mb3 w3 of
    (p, mb4, w4) \<Rightarrow> round_post mb r w p mb4 r1 w4"
proof (cases "did_read \<and> did_write \<and> \<not> read_pending \<and> \<not> write_pending")
  case True
  with assms(1,2,4) show ?thesis by (simp add: msg_round_end_def round_post_def)
next
  case go: False
  show ?thesis
  proof (cases "mb_need_flush mb3")
    case True
    obtain p w4 where fl: "op_flush_message ops w3 = (p, w4)" by fastforce
    have inv: "wr_inv w3" using assms(1) by (simp add: pipe_ok_def)
    have ping: "op_supports_ping ops w4 = op_supports_ping ops w3" by (rule supports_ping_stable)
    note fm = flush_message [OF inv fl]
    have "pipe_ok mb3 r1 w4" "flow mb3 r1 w4 = flow mb r w"
      using assms(1,2) fm ping by (simp_all add: pipe_ok_def flow_def)
    moreover have "pipe_ok (mb3\<lparr>mb_need_flush := False\<rparr>) r1 w4 = pipe_ok mb3 r1 w4"
      "flow (mb3\<lparr>mb_need_flush := False\<rparr>) r1 w4 = flow mb3 r1 w4"
      by (simp_all add: pipe_ok_def flow_def cached_def arriving_def)
    moreover have "pipe_work (mb3\<lparr>mb_need_flush := False\<rparr>) r1 < pipe_work mb r"
      using assms(3) [OF True] by (simp add: pipe_work_def)
    ultimately show ?thesis
      using go True fl fm outbox_prefix [of mb3 r1 w4 "flow mb r w" w4]
      by (cases p rule: poll_res_exhaust) (auto simp: msg_round_end_def round_post_def)
  next
    case False
    with go assms(1,2,5) show ?thesis by (auto simp: msg_round_end_def round_post_def)
  qed
qed

lemma msg_round_spec:
  assumes "pipe_ok mb r w"
  shows "case msg_round rd ops mb r w of (p, mb', r', w') \<Rightarrow> round_post mb r w p mb' r' w'"
proof -
  obtain x mb1 r1 where fill: "msg_fill rd mb r = (x, mb1, r1)" by (cases "msg_fill rd mb r") auto
  with msg_fill_spec [OF assms] have f: "fill_post mb r w x mb1 r1" by simp
  show ?thesis
  proof (cases x)
    case (Ok flags)
    then obtain did_read read_pending where x: "x = Ok (did_read, read_pending)" by (cases flags) auto
    with f have ok1: "pipe_ok mb1 r1 w" and f1: "flow mb1 r1 w = flow mb r w" by (simp_all add: fill_post_def)
    obtain y mb2 w2 where drain: "msg_drain ops mb1 w = (y, mb2, w2)" by (cases "msg_drain ops mb1 w") auto
    with msg_drain_spec [OF ok1] have d: "drain_post mb1 r1 w y mb2 w2" by simp
    show ?thesis
    proof (cases y)
      case (Ok flags)
      then obtain did_write drain_pending where y: "y = Ok (did_write, drain_pending)" by (cases flags) auto
      with d have ok2: "pipe_ok mb2 r1 w2" and f2: "flow mb2 r1 w2 = flow mb r w"
        using f1 by (simp_all add: drain_post_def)
      obtain z mb3 w3 where ping: "msg_ping ops drain_pending mb2 w2 = (z, mb3, w3)"
        by (cases "msg_ping ops drain_pending mb2 w2") auto
      with msg_ping_spec [OF ok2] have g: "ping_post drain_pending mb2 r1 w2 z mb3 w3" by (metis (no_types, lifting) case_prod_conv)
      show ?thesis
      proof (cases z)
        case (Ok write_pending)
        have "case msg_round_end ops did_read did_write read_pending write_pending mb3 w3 of
            (p, mb4, w4) \<Rightarrow> round_post mb r w p mb4 r1 w4"
        proof (rule msg_round_end_spec)
          show "pipe_ok mb3 r1 w3" "flow mb3 r1 w3 = flow mb r w"
            using g Ok f2 by (simp_all add: ping_post_def)
          show "4 * length (inbox r1) + (if 0 < mb_cache_length mb3 then 2 else 0)
              + (if mb_need_write_ping mb3 then 1 else 0) < pipe_work mb r" if "mb_need_flush mb3"
            using f d g x y Ok that
            by (auto simp: fill_post_def drain_post_def ping_post_def pipe_work_def split: if_splits)
          show "pipe_work mb3 r1 < pipe_work mb r" if "did_read" "did_write"
            using f d g x y Ok that
            by (auto simp: fill_post_def drain_post_def ping_post_def pipe_work_def split: if_splits)
          show "mb_read_done mb3 \<and> mb_cache_length mb3 = 0 \<or> did_read \<and> did_write"
            if "\<not> mb_need_flush mb3" "\<not> read_pending" "\<not> write_pending"
            using f d g x y Ok that
            by (auto simp: fill_post_def drain_post_def ping_post_def split: if_splits)
        qed
        with fill drain ping x y Ok show ?thesis by (auto simp: msg_round_def split: prod.splits)
      next
        case (Err e)
        with fill drain ping x y g outbox_prefix [OF f2, of w3] show ?thesis
          by (simp add: msg_round_def round_post_def ping_post_def)
      qed (use g in \<open>simp add: ping_post_def\<close>)
    next
      case (Err e)
      with fill drain x d outbox_prefix [OF f1, of w2] show ?thesis
        by (simp add: msg_round_def round_post_def drain_post_def)
    qed (use d in \<open>simp add: drain_post_def\<close>)
  next
    case (Err e)
    with fill f outbox_prefix [of mb r w _ w] show ?thesis
      by (simp add: msg_round_def round_post_def)
  qed (use f in \<open>simp add: fill_post_def\<close>)
qed

text \<open>Every poll returns, and nothing on its way is lost, repeated, reordered or cut.\<close>

definition poll_post ::
  "msg_buffer \<Rightarrow> 'r \<Rightarrow> 'w \<Rightarrow> unit res poll \<Rightarrow> msg_buffer \<Rightarrow> 'r \<Rightarrow> 'w \<Rightarrow> bool" where
  "poll_post mb r w p mb' r' w' \<longleftrightarrow> round_post mb r w (Some p) mb' r' w'"

lemma msg_copy_loop_total:
  "pipe_ok mb r w \<Longrightarrow>
   \<exists>p mb' r' w'. msg_copy_loop rd ops mb r w = Some (p, mb', r', w') \<and> poll_post mb r w p mb' r' w'"
proof (induction "pipe_work mb r" arbitrary: mb r w rule: less_induct)
  case less
  obtain q mb1 r1 w1 where rnd: "msg_round rd ops mb r w = (q, mb1, r1, w1)"
    by (cases "msg_round rd ops mb r w") auto
  with msg_round_spec [OF less.prems] have post: "round_post mb r w q mb1 r1 w1" by simp
  show ?case
  proof (cases q)
    case None
    with post have ok: "pipe_ok mb1 r1 w1" and fl: "flow mb1 r1 w1 = flow mb r w"
      and less_work: "pipe_work mb1 r1 < pipe_work mb r"
      by (simp_all add: round_post_def)
    from less.hyps [OF less_work ok] obtain p mb' r' w' where
      *: "msg_copy_loop rd ops mb1 r1 w1 = Some (p, mb', r', w')" "poll_post mb1 r1 w1 p mb' r' w'" by blast
    then have "poll_post mb r w p mb' r' w'" unfolding poll_post_def round_post_def fl by simp
    with * rnd None show ?thesis by (auto simp: msg_copy_loop.simps [of rd ops mb r w])
  next
    case (Some p)
    with rnd post show ?thesis by (simp add: msg_copy_loop.simps [of rd ops mb r w] poll_post_def)
  qed
qed

end

section \<open>A UDP socket given by scripts\<close>

text \<open>What each poll for a datagram finds, for how many polls sending is not possible, what was sent.\<close>

record udp_script =
  ud_incoming :: "byte list option list"
  ud_blocked :: nat
  ud_sent :: "byte list list"

definition script_recv :: "udp_script reader" where
  "script_recv u n =
     (case ud_incoming u of
        [] \<Rightarrow> (Ready (Ok []), u)
      | Some d # more_in \<Rightarrow> (Ready (Ok (take n d)), u\<lparr>ud_incoming := more_in\<rparr>)
      | None # more_in \<Rightarrow> (Pending, u\<lparr>ud_incoming := more_in\<rparr>))"

definition script_send :: "udp_script writer" where
  "script_send u d =
     (case ud_blocked u of
        Suc k \<Rightarrow> (Pending, u\<lparr>ud_blocked := k\<rparr>)
      | 0 \<Rightarrow> (Ready (Ok (length d)), u\<lparr>ud_sent := ud_sent u @ [d]\<rparr>))"

definition udp_inbox :: "udp_script \<Rightarrow> byte list list" where
  "udp_inbox u = map the (filter (\<lambda>d. d \<noteq> None) (ud_incoming u))"

definition udp_script_ok :: "udp_script \<Rightarrow> bool" where
  "udp_script_ok u \<longleftrightarrow> (\<forall>d. Some d \<in> set (ud_incoming u) \<longrightarrow> length d \<le> 65535)"

interpretation udp: message_pipe
  "op_read_message (udp_message_stream script_recv script_send)"
  "udp_message_stream script_recv script_send" udp_inbox udp_script_ok ud_sent "\<lambda>_. True"
proof (unfold_locales, goal_cases)
  case (1 r bs r')
  then show ?case
    by (auto simp: udp_message_stream_def script_recv_def udp_inbox_def udp_script_ok_def
      split: if_splits list.splits option.splits)
next
  case (2 r r')
  then show ?case
    by (auto simp: udp_message_stream_def script_recv_def udp_inbox_def udp_script_ok_def
      split: if_splits list.splits option.splits)
next
  case (3 r r')
  then show ?case
    by (auto simp: udp_message_stream_def script_recv_def split: if_splits list.splits option.splits)
next
  case (4 w m p w')
  then show ?case
    by (cases "ud_blocked w") (auto simp: udp_message_stream_def script_send_def drop_count_def)
next
  case (5 w p w')
  then show ?case by (auto simp: udp_message_stream_def)
next
  case (6 w q w')
  then show ?case by (simp add: udp_message_stream_def)
next
  case (7 w' w)
  show ?case by (simp add: udp_message_stream_def)
qed

section \<open>Properties\<close>

text \<open>The messages on their way: those written, the one held, those to come up to the first empty one.\<close>

definition msg_flow ::
  "('r \<Rightarrow> byte list list) \<Rightarrow> ('w \<Rightarrow> byte list list) \<Rightarrow> msg_buffer \<Rightarrow> 'r \<Rightarrow> 'w \<Rightarrow> byte list list" where
  "msg_flow inbox outbox mb r w =
     outbox w @ (if mb_cache_length mb = 0 then [] else [take (mb_cache_length mb) (mb_buf mb)])
       @ (if mb_read_done mb then [] else takeWhile (\<lambda>m. m \<noteq> []) (inbox r))"




text \<open>Two silent sockets, polled 250 seconds after the association began.\<close>

definition silent_udp :: udp_script where
  "silent_udp = \<lparr>ud_incoming = [None], ud_blocked = 0, ud_sent = []\<rparr>"


end
