(* ===== verification/Udp_Routing.thy ===== *)
theory Udp_Routing
  imports Udp_Copy Socket_Util
begin

text \<open>
  \<^verbatim>\<open>src/udp_relay.rs\<close>, second part: \<^verbatim>\<open>run_udp_routing\<close>, which sends each packet of the client to the destination the
  packet names, from one socket per destination, and the answers back. For every socket a task
  (\<^verbatim>\<open>recv_loop\<close>) receives datagrams until its token is cancelled or its socket fails. The loop waits for the first of two
  things, an answer or a packet; the steps of it, of the tasks and of time are the step relation \<open>routing_step\<close>.
  Sending a datagram is the parameter \<open>send_to\<close>, resolution and the system are parameters as in \<open>Socket_Util\<close>.
\<close>

section \<open>Definitions\<close>

record udp_session =
  us_socket :: fd
  us_cancel :: nat
  us_last_activity :: instant

text \<open>Where the loop is: at its top, waiting in \<^verbatim>\<open>select!\<close>, or over, the receiving end of the answers dropped.\<close>

datatype routing_phase = AtTop | Selecting | Over

record ('v, 'r, 's) routing =
  ro_phase :: routing_phase
  ro_server :: 'v
  ro_sessions :: "net_location \<rightharpoonup> udp_session"
  ro_responses :: "(socket_addr \<times> byte list) list"
  ro_buf :: "byte list"
  ro_last_cleanup :: instant
  ro_resolver :: 'r
  ro_sys :: 's
  ro_tokens :: nat
  ro_cancelled :: "nat set"
  ro_ended :: "nat \<rightharpoonup> unit res"

text \<open>The end of an iteration: round again, or out of the loop.\<close>

datatype 'a control = Continue 'a | Break 'a

type_synonym 's sender = "fd \<Rightarrow> byte list \<Rightarrow> socket_addr \<Rightarrow> 's \<Rightarrow> 's"

definition routing_new :: "(nat \<Rightarrow> byte) \<Rightarrow> 'v \<Rightarrow> 'r \<Rightarrow> 's \<Rightarrow> instant \<Rightarrow> ('v, 'r, 's) routing" where
  "routing_new mem server rs s now =
     \<lparr>ro_phase = AtTop, ro_server = server, ro_sessions = Map.empty, ro_responses = [], ro_buf = allocate_vec mem 65535,
      ro_last_cleanup = now, ro_resolver = rs, ro_sys = s, ro_tokens = 0, ro_cancelled = {}, ro_ended = Map.empty\<rparr>"

definition idle_session :: "instant \<Rightarrow> udp_session \<Rightarrow> bool" where
  "idle_session now us \<longleftrightarrow> now - us_last_activity us > association_timeout"

definition routing_cleanup :: "instant \<Rightarrow> ('v, 'r, 's) routing \<Rightarrow> ('v, 'r, 's) routing" where
  "routing_cleanup now st =
     (if now - ro_last_cleanup st \<ge> secs 10 then
        st\<lparr>ro_sessions := (\<lambda>d. case ro_sessions st d of
               Some us \<Rightarrow> if idle_session now us then None else Some us
             | None \<Rightarrow> None),
           ro_cancelled := ro_cancelled st \<union> {us_cancel us | us. us \<in> ran (ro_sessions st) \<and> idle_session now us},
           ro_last_cleanup := now\<rparr>
      else st)"

text \<open>A poll of the read: what was filled of the buffer, and its length. What a poll that gives no message leaves in the buffer
  is never used.\<close>

definition read_targeted_message ::
  "('v, net_location, socket_addr) targeted_stream \<Rightarrow> 'v \<Rightarrow> byte list \<Rightarrow>
   (net_location \<times> nat) res poll \<times> byte list \<times> 'v" where
  "read_targeted_message ops server buf =
     (case op_read_targeted ops server (length buf) of
        (Ready (Ok (loc, filled)), server') \<Rightarrow> (Ready (Ok (loc, length filled)), overwrite 0 filled buf, server')
      | (Ready (Err e), server') \<Rightarrow> (Ready (Err e), buf, server')
      | (Ready Panic, server') \<Rightarrow> (Ready Panic, buf, server')
      | (Pending, server') \<Rightarrow> (Pending, buf, server'))"

definition write_sourced_message ::
  "('v, 'loc, socket_addr) targeted_stream \<Rightarrow> 'v \<Rightarrow> byte list \<Rightarrow> socket_addr \<Rightarrow> (unit res \<times> 'v) option" where
  "write_sourced_message ops server payload source =
     Option.bind (await_poll (\<lambda>v. op_write_sourced ops v payload source) server) (\<lambda>(r, server').
       case r of
         Ok _ \<Rightarrow> await_poll (op_flush_targeted ops) server'
       | Err e \<Rightarrow> Some (Err e, server')
       | Panic \<Rightarrow> Some (Panic, server'))"

text \<open>An answer goes to the client.\<close>

definition routing_respond ::
  "('v, net_location, socket_addr) targeted_stream \<Rightarrow> socket_addr \<times> byte list \<Rightarrow> ('v, 'r, 's) routing \<Rightarrow>
   ('v, 'r, 's) routing control option" where
  "routing_respond ops answer st =
     Option.bind (write_sourced_message ops (ro_server st) (snd answer) (fst answer)) (\<lambda>(r, server').
       let st' = st\<lparr>ro_server := server'\<rparr> in
       case r of
         Ok _ \<Rightarrow> Some (Continue st')
       | _ \<Rightarrow> Some (Break st'))"

text \<open>The session of a destination, made if there is none; the new socket's task gets a token of its own.\<close>

definition create_session :: "'s system \<Rightarrow> bool \<Rightarrow> nat \<Rightarrow> 's \<Rightarrow> (fd \<times> nat) res \<times> 's" where
  "create_session sys is_ipv6 token =
     bind_io (new_udp_socket sys is_ipv6) (\<lambda>socket. ret (socket, token))"

definition ensure_session ::
  "'s system \<Rightarrow> instant \<Rightarrow> net_location \<Rightarrow> socket_addr \<Rightarrow> ('v, 'r, 's) routing \<Rightarrow> bool \<times> ('v, 'r, 's) routing" where
  "ensure_session sys now destination addr st =
     (case ro_sessions st destination of
        Some _ \<Rightarrow> (True, st)
      | None \<Rightarrow>
          (case create_session sys (socket_addr_is_ipv6 addr) (ro_tokens st) (ro_sys st) of
             (Ok (socket, cancel), s') \<Rightarrow>
               (True, st\<lparr>ro_sys := s', ro_tokens := ro_tokens st + 1,
                         ro_sessions := (ro_sessions st)(destination \<mapsto>
                           \<lparr>us_socket = socket, us_cancel = cancel, us_last_activity = now\<rparr>)\<rparr>)
           | (_, s') \<Rightarrow> (False, st\<lparr>ro_sys := s'\<rparr>)))"

text \<open>A packet of the client. Without an address or a socket it is dropped.\<close>

definition routing_forward ::
  "'s system \<Rightarrow> 's sender \<Rightarrow> 'r resolution \<Rightarrow> instant \<Rightarrow> net_location \<Rightarrow> byte list \<Rightarrow> ('v, 'r, 's) routing \<Rightarrow>
   ('v, 'r, 's) routing" where
  "routing_forward sys send_to rslv now destination payload st =
     (case rslv (ro_resolver st) destination of
        (Ok addr, rs') \<Rightarrow>
          (case ensure_session sys now destination addr (st\<lparr>ro_resolver := rs'\<rparr>) of
             (False, st2) \<Rightarrow> st2
           | (True, st2) \<Rightarrow>
               (case ro_sessions st2 destination of
                  Some us \<Rightarrow>
                    st2\<lparr>ro_sessions := (ro_sessions st2)(destination \<mapsto> us\<lparr>us_last_activity := now\<rparr>),
                        ro_sys := send_to (us_socket us) payload addr (ro_sys st2)\<rparr>
                | None \<Rightarrow> st2))
      | (_, rs') \<Rightarrow> st\<lparr>ro_resolver := rs'\<rparr>)"

definition routing_receive ::
  "'s system \<Rightarrow> 's sender \<Rightarrow> 'r resolution \<Rightarrow> instant \<Rightarrow> (net_location \<times> nat) res \<Rightarrow> ('v, 'r, 's) routing \<Rightarrow>
   ('v, 'r, 's) routing control" where
  "routing_receive sys send_to rslv now result st =
     (case result of
        Ok (destination, payload_len) \<Rightarrow>
          if is_unspecified destination then Break st
          else Continue (routing_forward sys send_to rslv now destination (take payload_len (ro_buf st)) st)
      | _ \<Rightarrow> Break st)"

definition routing_finish ::
  "('v, net_location, socket_addr) targeted_stream \<Rightarrow> ('v, 'r, 's) routing \<Rightarrow> ('v, 'r, 's) routing option" where
  "routing_finish ops st =
     (let st' = st\<lparr>ro_cancelled := ro_cancelled st \<union> us_cancel ` ran (ro_sessions st), ro_sessions := Map.empty\<rparr> in
      Option.bind (await_poll (op_shutdown_targeted ops) (ro_server st')) (\<lambda>(_, server').
        Some (st'\<lparr>ro_server := server', ro_phase := Over\<rparr>)))"

text \<open>A round of the task of a socket: what its \<^verbatim>\<open>select!\<close> takes is the cancellation of its token or a datagram, which is cut to
  the buffer. The task ends when it is cancelled, when the socket fails and when nobody takes its datagrams any more.\<close>

datatype recv_event = Cancelled | Received "(byte list \<times> socket_addr) res"

definition udp_recv_loop :: "nat \<Rightarrow> recv_event \<Rightarrow> ('v, 'r, 's) routing \<Rightarrow> ('v, 'r, 's) routing" where
  "udp_recv_loop token event st =
     (let return = (\<lambda>result. st\<lparr>ro_ended := (ro_ended st)(token \<mapsto> result)\<rparr>) in
      case event of
        Cancelled \<Rightarrow> return (Ok ())
      | Received (Ok (datagram, source)) \<Rightarrow>
          if ro_phase st = Over then return (Ok ())
          else st\<lparr>ro_responses := ro_responses st @ [(source, take 65535 datagram)]\<rparr>
      | Received (Err e) \<Rightarrow> return (Err e)
      | Received Panic \<Rightarrow> return Panic)"

section \<open>Steps\<close>

text \<open>\<open>select!\<close> is biased: a packet is taken only when there is no answer to send, or no session. That of a receiving
  task is not: a datagram that is there may be handed on although the token is cancelled.\<close>

inductive routing_step ::
  "('v, net_location, socket_addr) targeted_stream \<Rightarrow> 's system \<Rightarrow> 's sender \<Rightarrow> 'r resolution \<Rightarrow>
   ('v, 'r, 's) routing \<Rightarrow> ('v, 'r, 's) routing control \<Rightarrow> bool"
  for ops sys send_to rslv where
  top: "ro_phase st = AtTop \<Longrightarrow>
    routing_step ops sys send_to rslv st (Continue ((routing_cleanup now st)\<lparr>ro_phase := Selecting\<rparr>))"
| respond: "ro_phase st = Selecting \<Longrightarrow> ro_sessions st \<noteq> Map.empty \<Longrightarrow> ro_responses st = answer # answers \<Longrightarrow>
    routing_respond ops answer (st\<lparr>ro_phase := AtTop, ro_responses := answers\<rparr>) = Some c \<Longrightarrow>
    routing_step ops sys send_to rslv st c"
| receive: "ro_phase st = Selecting \<Longrightarrow> ro_sessions st = Map.empty \<or> ro_responses st = [] \<Longrightarrow>
    read_targeted_message ops (ro_server st) (ro_buf st) = (Ready result, buf', server') \<Longrightarrow>
    routing_step ops sys send_to rslv st
      (routing_receive sys send_to rslv now result (st\<lparr>ro_phase := AtTop, ro_server := server', ro_buf := buf'\<rparr>))"
| wait: "ro_phase st = Selecting \<Longrightarrow> ro_sessions st = Map.empty \<or> ro_responses st = [] \<Longrightarrow>
    read_targeted_message ops (ro_server st) (ro_buf st) = (Pending, buf', server') \<Longrightarrow>
    routing_step ops sys send_to rslv st (Continue (st\<lparr>ro_server := server', ro_buf := buf'\<rparr>))"
| receiver: "token < ro_tokens st \<Longrightarrow> ro_ended st token = None \<Longrightarrow> event = Cancelled \<longrightarrow> token \<in> ro_cancelled st \<Longrightarrow>
    routing_step ops sys send_to rslv st (Continue (udp_recv_loop token event st))"

inductive routing_reaches ::
  "('v, net_location, socket_addr) targeted_stream \<Rightarrow> 's system \<Rightarrow> 's sender \<Rightarrow> 'r resolution \<Rightarrow>
   ('v, 'r, 's) routing \<Rightarrow> ('v, 'r, 's) routing control \<Rightarrow> bool"
  for ops sys send_to rslv where
  here: "routing_reaches ops sys send_to rslv st (Continue st)"
| later: "routing_reaches ops sys send_to rslv st (Continue st1) \<Longrightarrow> routing_step ops sys send_to rslv st1 c \<Longrightarrow>
    routing_reaches ops sys send_to rslv st c"

section \<open>Tokens\<close>

fun control_state :: "'a control \<Rightarrow> 'a" where
  "control_state (Continue x) = x"
| "control_state (Break x) = x"

text \<open>Each token belongs to one session or has been cancelled, never both: no receiving task outlives its session.\<close>

definition held :: "('v, 'r, 's) routing \<Rightarrow> net_location \<rightharpoonup> nat" where
  "held st d = map_option us_cancel (ro_sessions st d)"

definition tokens_ok :: "('v, 'r, 's) routing \<Rightarrow> bool" where
  "tokens_ok st \<longleftrightarrow>
     (\<forall>t. t < ro_tokens st \<longleftrightarrow> t \<in> ro_cancelled st \<or> (\<exists>d. held st d = Some t)) \<and>
     (\<forall>d t. held st d = Some t \<longrightarrow> t \<notin> ro_cancelled st) \<and>
     (\<forall>d e t. held st d = Some t \<longrightarrow> held st e = Some t \<longrightarrow> d = e)"

lemma tokens_ok_fields [simp]:
  "tokens_ok (st\<lparr>ro_phase := p\<rparr>) = tokens_ok st" "tokens_ok (st\<lparr>ro_server := v\<rparr>) = tokens_ok st"
  "tokens_ok (st\<lparr>ro_responses := q\<rparr>) = tokens_ok st" "tokens_ok (st\<lparr>ro_resolver := rs\<rparr>) = tokens_ok st"
  "tokens_ok (st\<lparr>ro_sys := s\<rparr>) = tokens_ok st" "tokens_ok (st\<lparr>ro_buf := b\<rparr>) = tokens_ok st"
  "tokens_ok (st\<lparr>ro_ended := en\<rparr>) = tokens_ok st"
  by (simp_all add: tokens_ok_def held_def)

lemma tokens_ok_new: "tokens_ok (routing_new mem server rs s now)"
  by (simp add: tokens_ok_def held_def routing_new_def)

lemma tokens_ok_cleanup: "tokens_ok st \<Longrightarrow> tokens_ok (routing_cleanup now st)"
proof (cases "now - ro_last_cleanup st \<ge> secs 10")
  case True
  assume ok: "tokens_ok st"
  let ?st = "routing_cleanup now st"
  define idle where "idle d \<longleftrightarrow> (\<exists>us. ro_sessions st d = Some us \<and> idle_session now us)" for d
  have keep: "held ?st d = (if idle d then None else held st d)" for d
    using True by (auto simp: held_def routing_cleanup_def idle_def split: option.split)
  have gone: "t \<in> ro_cancelled ?st \<longleftrightarrow> t \<in> ro_cancelled st \<or> (\<exists>d. idle d \<and> held st d = Some t)" for t
    using True by (auto simp: held_def routing_cleanup_def idle_def ran_def)
  have n: "ro_tokens ?st = ro_tokens st" by (simp add: routing_cleanup_def)
  have a: "t < ro_tokens st \<longleftrightarrow> t \<in> ro_cancelled st \<or> (\<exists>d. held st d = Some t)" for t
    using ok unfolding tokens_ok_def by blast
  have b: "held st d = Some t \<Longrightarrow> t \<notin> ro_cancelled st" for d t
    using ok unfolding tokens_ok_def by blast
  have c: "held st d = Some t \<Longrightarrow> held st e = Some t \<Longrightarrow> d = e" for d e t
    using ok unfolding tokens_ok_def by blast
  have "t < ro_tokens st \<longleftrightarrow> (t \<in> ro_cancelled st \<or> (\<exists>d. idle d \<and> held st d = Some t)) \<or> (\<exists>d. held ?st d = Some t)" for t
    unfolding a keep by auto
  moreover have "\<not> (t \<in> ro_cancelled st \<or> (\<exists>d. idle d \<and> held st d = Some t))" if "held ?st d = Some t" for d t
  proof -
    have "\<not> idle d" "held st d = Some t" using that by (simp_all add: keep split: if_splits)
    with b c show ?thesis by metis
  qed
  moreover have "d = e" if "held ?st d = Some t" "held ?st e = Some t" for d e t
  proof -
    have "held st d = Some t" "held st e = Some t" using that by (simp_all add: keep split: if_splits)
    then show ?thesis by (rule c)
  qed
  ultimately show ?thesis unfolding tokens_ok_def gone n by blast
qed (simp add: routing_cleanup_def)

lemma tokens_ok_insert:
  assumes ok: "tokens_ok st" and none: "ro_sessions st d = None"
    and us: "us_cancel us = ro_tokens st"
  shows "tokens_ok (st\<lparr>ro_sys := s, ro_tokens := ro_tokens st + 1, ro_sessions := (ro_sessions st)(d \<mapsto> us)\<rparr>)"
    (is "tokens_ok ?st")
proof -
  have h: "held ?st = (held st)(d \<mapsto> ro_tokens st)" using us by (auto simp: held_def)
  have hd: "held st d = None" using none by (simp add: held_def)
  have below: "held st e = Some t \<Longrightarrow> t < ro_tokens st" "t \<in> ro_cancelled st \<Longrightarrow> t < ro_tokens st" for e t
    using ok by (auto simp: tokens_ok_def)
  have "t < Suc (ro_tokens st) \<longleftrightarrow> t \<in> ro_cancelled st \<or> (\<exists>e. ((held st)(d \<mapsto> ro_tokens st)) e = Some t)" for t
  proof (cases "t = ro_tokens st")
    case False
    then have "(\<exists>e. ((held st)(d \<mapsto> ro_tokens st)) e = Some t) \<longleftrightarrow> (\<exists>e. held st e = Some t)"
      using hd by (auto, metis option.distinct(1))
    with False ok show ?thesis by (auto simp: tokens_ok_def less_Suc_eq)
  qed auto
  moreover have "t \<notin> ro_cancelled st" if "((held st)(d \<mapsto> ro_tokens st)) e = Some t" for e t
  proof (cases "e = d")
    case True
    with that below(2) [of t] show ?thesis by auto
  next
    case False
    with that ok show ?thesis by (simp add: tokens_ok_def)
  qed
  moreover have "e = f" if "((held st)(d \<mapsto> ro_tokens st)) e = Some t" "((held st)(d \<mapsto> ro_tokens st)) f = Some t" for e f t
  proof (cases "t = ro_tokens st")
    case True
    then have "held st g \<noteq> Some t" for g using below(1) [of g t] by auto
    with that show ?thesis by (auto split: if_splits)
  next
    case False
    with that have "held st e = Some t" "held st f = Some t" by (auto split: if_splits)
    with ok show ?thesis by (simp add: tokens_ok_def)
  qed
  moreover have n: "ro_tokens ?st = Suc (ro_tokens st)" "ro_cancelled ?st = ro_cancelled st" by simp_all
  ultimately show ?thesis unfolding tokens_ok_def h n by blast
qed

lemma tokens_ok_touch:
  assumes "tokens_ok st" and "ro_sessions st d = Some us"
  shows "tokens_ok (st\<lparr>ro_sessions := (ro_sessions st)(d \<mapsto> us\<lparr>us_last_activity := now\<rparr>)\<rparr>)" (is "tokens_ok ?st")
proof -
  have "held ?st = held st" using assms(2) by (auto simp: held_def)
  with assms(1) show ?thesis by (simp add: tokens_ok_def)
qed

lemma create_session_token: "create_session sys v6 token s = (Ok (socket, cancel), s') \<Longrightarrow> cancel = token"
  by (auto simp: create_session_def bind_io_def ret_def split: prod.splits res.splits)

lemma tokens_ok_ensure:
  assumes "tokens_ok st" and "ensure_session sys now d addr st = (found, st')"
  shows "tokens_ok st' \<and> (found \<longrightarrow> ro_sessions st' d \<noteq> None)"
proof (cases "ro_sessions st d")
  case None
  obtain r s' where c: "create_session sys (socket_addr_is_ipv6 addr) (ro_tokens st) (ro_sys st) = (r, s')" by fastforce
  show ?thesis
  proof (cases r)
    case (Ok p)
    then obtain socket cancel where p: "r = Ok (socket, cancel)" by (cases p) auto
    with create_session_token [of sys "socket_addr_is_ipv6 addr" "ro_tokens st" "ro_sys st" socket cancel s'] c
    have "cancel = ro_tokens st" by simp
    with p c None assms show ?thesis
      using tokens_ok_insert [OF assms(1) None, of "\<lparr>us_socket = socket, us_cancel = cancel, us_last_activity = now\<rparr>" s']
      by (auto simp: ensure_session_def)
  qed (use c None assms in \<open>auto simp: ensure_session_def\<close>)
next
  case (Some us)
  with assms show ?thesis by (auto simp: ensure_session_def)
qed

lemma tokens_ok_forward:
  assumes "tokens_ok st"
  shows "tokens_ok (routing_forward sys send_to rslv now d payload st)"
proof -
  obtain r rs' where rs: "rslv (ro_resolver st) d = (r, rs')" by fastforce
  show ?thesis
  proof (cases r)
    case (Ok addr)
    obtain found st2 where e: "ensure_session sys now d addr (st\<lparr>ro_resolver := rs'\<rparr>) = (found, st2)" by fastforce
    with tokens_ok_ensure assms have ok: "tokens_ok st2" by (metis tokens_ok_fields(4))
    show ?thesis
    proof (cases "ro_sessions st2 d")
      case None
      with ok e rs Ok show ?thesis by (cases found) (simp_all add: routing_forward_def)
    next
      case (Some us)
      with tokens_ok_touch [OF ok Some, of now] ok e rs Ok show ?thesis
        by (cases found) (simp_all add: routing_forward_def)
    qed
  qed (use rs assms in \<open>simp_all add: routing_forward_def\<close>)
qed

lemma udp_recv_loop_tokens: "tokens_ok (udp_recv_loop token event st) = tokens_ok st"
  by (auto simp: udp_recv_loop_def Let_def split: recv_event.split res.split)

section \<open>Tasks\<close>

text \<open>A task has ended well only because it was cancelled.\<close>

definition ended_ok :: "('v, 'r, 's) routing \<Rightarrow> bool" where
  "ended_ok st \<longleftrightarrow> ro_phase st \<noteq> Over \<and> (\<forall>t. ro_ended st t = Some (Ok ()) \<longrightarrow> t \<in> ro_cancelled st)"

definition advances :: "('v, 'r, 's) routing \<Rightarrow> ('v, 'r, 's) routing \<Rightarrow> bool" where
  "advances st st' \<longleftrightarrow> ro_phase st' = ro_phase st \<and> ro_ended st' = ro_ended st \<and> ro_cancelled st \<subseteq> ro_cancelled st'"

lemma ended_ok_advances: "advances st st' \<Longrightarrow> ended_ok st \<Longrightarrow> ended_ok st'"
  by (auto simp: advances_def ended_ok_def)

lemma cleanup_advances: "advances st (routing_cleanup now st)"
  by (simp add: advances_def routing_cleanup_def)

lemma ensure_advances: "ensure_session sys now d addr st = (found, st') \<Longrightarrow> advances st st'"
  by (auto simp: advances_def ensure_session_def split: option.splits prod.splits res.splits)

lemma forward_advances: "advances st (routing_forward sys send_to rslv now d payload st)"
proof -
  obtain r rs' where rs: "rslv (ro_resolver st) d = (r, rs')" by fastforce
  show ?thesis
  proof (cases r)
    case (Ok addr)
    obtain found st2 where e: "ensure_session sys now d addr (st\<lparr>ro_resolver := rs'\<rparr>) = (found, st2)" by fastforce
    from ensure_advances [OF e] show ?thesis
      using e rs Ok by (cases found; cases "ro_sessions st2 d") (auto simp: routing_forward_def advances_def)
  qed (use rs in \<open>auto simp: routing_forward_def advances_def\<close>)
qed

lemma udp_recv_loop_ended:
  assumes "ended_ok st" and "event = Cancelled \<longrightarrow> token \<in> ro_cancelled st"
  shows "ended_ok (udp_recv_loop token event st)"
  using assms by (auto simp: udp_recv_loop_def Let_def ended_ok_def split: recv_event.split res.split if_splits)

section \<open>Invariants\<close>

definition routing_ok :: "('v, 'r, 's) routing \<Rightarrow> bool" where
  "routing_ok st \<longleftrightarrow> tokens_ok st \<and> ended_ok st"

lemma routing_ok_new: "routing_ok (routing_new mem server rs s now)"
  by (simp add: routing_ok_def tokens_ok_new) (simp add: ended_ok_def routing_new_def)

lemma routing_respond_control:
  assumes "routing_respond ops answer st = Some c"
  shows "\<exists>server'. control_state c = st\<lparr>ro_server := server'\<rparr>"
proof -
  obtain r server' where w: "write_sourced_message ops (ro_server st) (snd answer) (fst answer) = Some (r, server')"
    using assms by (auto simp: routing_respond_def bind_eq_Some_conv)
  show ?thesis using assms w by (cases r) (auto simp: routing_respond_def Let_def)
qed

lemma routing_ok_step:
  "routing_step ops sys send_to rslv st c \<Longrightarrow> routing_ok st \<Longrightarrow> routing_ok (control_state c)"
proof (induction rule: routing_step.induct)
  case (top st now)
  then have "ended_ok (routing_cleanup now st)" using ended_ok_advances [OF cleanup_advances [of st now]] by (simp add: routing_ok_def)
  with top show ?case by (simp add: routing_ok_def tokens_ok_cleanup) (simp add: ended_ok_def)
next
  case (respond st answer answers c)
  then show ?case using routing_respond_control by (fastforce simp: routing_ok_def ended_ok_def)
next
  case (receive st result buf' server' now)
  let ?st = "st\<lparr>ro_phase := AtTop, ro_server := server', ro_buf := buf'\<rparr>"
  have "routing_ok ?st" using receive by (simp add: routing_ok_def ended_ok_def)
  then have "routing_ok (routing_forward sys send_to rslv now d payload ?st)" for d payload
    unfolding routing_ok_def by (blast intro: tokens_ok_forward ended_ok_advances [OF forward_advances])
  with \<open>routing_ok ?st\<close> show ?case by (auto simp: routing_receive_def split: res.split)
next
  case (wait st buf' server')
  then show ?case by (simp add: routing_ok_def ended_ok_def)
next
  case (receiver token st event)
  then show ?case by (simp add: routing_ok_def udp_recv_loop_tokens udp_recv_loop_ended)
qed

lemma routing_ok_reaches:
  "routing_reaches ops sys send_to rslv st c \<Longrightarrow> routing_ok st \<Longrightarrow> routing_ok (control_state c)"
proof (induction rule: routing_reaches.induct)
  case (later st st1 c)
  then show ?case using routing_ok_step by fastforce
qed simp

text \<open>Once the routing is over, the next round of a task is its last.\<close>

lemma udp_recv_loop_last: "ro_phase st = Over \<Longrightarrow> ro_ended (udp_recv_loop token event st) token \<noteq> None"
  by (auto simp: udp_recv_loop_def Let_def split: recv_event.split res.split)

text \<open>A task whose socket failed is not replaced: packets to its destination still use the session it belonged to.\<close>

lemma failed_receiver_not_replaced:
  assumes "ro_sessions st d = Some us" and "ro_ended st (us_cancel us) = Some (Err e)"
    and "st' = routing_forward sys send_to rslv now d payload st"
  shows "\<exists>us'. ro_sessions st' d = Some us' \<and> us_cancel us' = us_cancel us \<and> ro_ended st' (us_cancel us') = Some (Err e)"
proof -
  obtain r rs' where "rslv (ro_resolver st) d = (r, rs')" by fastforce
  with assms show ?thesis by (cases r) (simp_all add: routing_forward_def ensure_session_def)
qed

section \<open>Properties\<close>

text \<open>C20. No receiving task is forgotten and none is stopped early: whatever packets, answers and waits there
  were, a task that was started is not cancelled exactly if one destination has it as its session, a task that ended without an
  error was cancelled, and when the routing ends, for whatever reason, every task has been cancelled and none goes round once
  more.\<close>

theorem receivers_accounted_for:
  assumes "routing_reaches ops sys send_to rslv (routing_new mem server rs s now) c"
    and "st = (case c of Continue st \<Rightarrow> st | Break st \<Rightarrow> st)"
  shows "(\<forall>t < ro_tokens st. t \<notin> ro_cancelled st \<longleftrightarrow>
      (\<exists>!d. \<exists>us. ro_sessions st d = Some us \<and> us_cancel us = t))
    \<and> (\<forall>t. ro_ended st t = Some (Ok ()) \<longrightarrow> t \<in> ro_cancelled st)
    \<and> (\<forall>st'. routing_finish ops st = Some st' \<longrightarrow>
        ro_cancelled st' = {..<ro_tokens st'} \<and> ro_sessions st' = Map.empty
        \<and> (\<forall>t event. ro_ended (udp_recv_loop t event st') t \<noteq> None))"
proof -
  have st: "st = control_state c" using assms(2) by (cases c) simp_all
  have "routing_ok st" using routing_ok_reaches [OF assms(1) routing_ok_new] st by simp
  then have ok: "tokens_ok st" and ended: "\<forall>t. ro_ended st t = Some (Ok ()) \<longrightarrow> t \<in> ro_cancelled st"
    by (simp_all add: routing_ok_def ended_ok_def)
  have h: "(\<exists>us. ro_sessions st d = Some us \<and> us_cancel us = t) \<longleftrightarrow> held st d = Some t" for d t
    by (auto simp: held_def)
  have owned: "t \<notin> ro_cancelled st \<longleftrightarrow> (\<exists>!d. held st d = Some t)" if "t < ro_tokens st" for t
    using ok that unfolding tokens_ok_def by metis
  have all: "ro_cancelled st \<union> us_cancel ` ran (ro_sessions st) = {..<ro_tokens st}"
  proof -
    have "t \<in> us_cancel ` ran (ro_sessions st) \<longleftrightarrow> (\<exists>d. held st d = Some t)" for t
      unfolding held_def ran_def by (auto simp: image_iff)
    with ok show ?thesis unfolding tokens_ok_def by auto
  qed
  have over: "ro_cancelled st' = {..<ro_tokens st'} \<and> ro_sessions st' = Map.empty \<and> ro_phase st' = Over"
    if "routing_finish ops st = Some st'" for st'
    using that unfolding routing_finish_def Let_def bind_eq_Some_conv all by auto
  show ?thesis unfolding h
  proof (intro conjI allI impI)
    fix st' t event
    assume "routing_finish ops st = Some st'"
    from over [OF this] show "ro_cancelled st' = {..<ro_tokens st'}" "ro_sessions st' = Map.empty"
      "ro_ended (udp_recv_loop t event st') t \<noteq> None" by (simp_all add: udp_recv_loop_last)
  qed (use owned ended in simp_all)
qed

text \<open>A server stream given by the packets it reads; it takes every answer.\<close>

definition script_targeted :: "(net_location \<times> byte list) list \<Rightarrow> (net_location \<times> byte list) res poll \<times> (net_location \<times> byte list) list" where
  "script_targeted v = (case v of [] \<Rightarrow> (Pending, []) | x # xs \<Rightarrow> (Ready (Ok x), xs))"

definition script_targeted_ops :: "((net_location \<times> byte list) list, net_location, socket_addr) targeted_stream" where
  "script_targeted_ops =
     \<lparr>op_supports_ping = (\<lambda>_. False), op_write_ping = (\<lambda>v. (Ready (Ok False), v)),
      op_read_targeted = (\<lambda>v n. script_targeted v), op_write_sourced = (\<lambda>v bs source. Some (Ready (Ok ()), v)),
      op_flush_targeted = (\<lambda>v. Some (Ready (Ok ()), v)), op_shutdown_targeted = (\<lambda>v. Some (Ready (Ok ()), v))\<rparr>"

definition demo_location :: net_location where
  "demo_location = \<lparr>nl_address = Ipv4 0x01020304, nl_port = 53\<rparr>"

definition demo_resolution :: "unit resolution" where
  "demo_resolution rs location = (Ok (SockV4 0x01020304 53), rs)"

theorem receivers_accounted_for_witness:
  "\<exists>st. routing_reaches script_targeted_ops table_call (\<lambda>_ _ _ s. s) demo_resolution
      (routing_new (\<lambda>_. 0) [(demo_location, [1])] () (fresh_table (\<lambda>_. False)) 0) (Continue st)
    \<and> ro_tokens st = 1 \<and> 0 \<notin> ro_cancelled st
    \<and> (\<exists>!d. \<exists>us. ro_sessions st d = Some us \<and> us_cancel us = 0)"
proof -
  let ?st = "routing_new (\<lambda>_. 0) [(demo_location, [1 :: byte])] () (fresh_table (\<lambda>_. False)) 0"
  let ?reach = "routing_reaches script_targeted_ops table_call (\<lambda>_ _ _ s. s) demo_resolution ?st"
  define st1 where "st1 = ?st\<lparr>ro_phase := AtTop, ro_server := [], ro_buf := overwrite 0 [1] (ro_buf ?st)\<rparr>"
  let ?st2 = "routing_forward table_call (\<lambda>_ _ _ s. s) demo_resolution 5 demo_location (take 1 (ro_buf st1)) st1"
  have clean: "routing_cleanup 0 ?st = ?st" by (simp add: routing_cleanup_def routing_new_def secs_def)
  have "ro_phase ?st = AtTop" by (simp add: routing_new_def)
  then have "?reach (Continue ((routing_cleanup 0 ?st)\<lparr>ro_phase := Selecting\<rparr>))"
    by (rule routing_reaches.later [OF routing_reaches.here routing_step.top])
  then have "?reach (Continue (?st\<lparr>ro_phase := Selecting\<rparr>))" unfolding clean .
  moreover have "routing_step script_targeted_ops table_call (\<lambda>_ _ _ s. s) demo_resolution (?st\<lparr>ro_phase := Selecting\<rparr>)
      (routing_receive table_call (\<lambda>_ _ _ s. s) demo_resolution 5 (Ok (demo_location, 1))
        (?st\<lparr>ro_phase := Selecting, ro_phase := AtTop, ro_server := [], ro_buf := overwrite 0 [1] (ro_buf ?st)\<rparr>))"
    by (rule routing_step.receive) (simp_all add: routing_new_def script_targeted_ops_def script_targeted_def read_targeted_message_def)
  moreover have "routing_receive table_call (\<lambda>_ _ _ s. s) demo_resolution 5 (Ok (demo_location, 1)) st1 = Continue ?st2"
    by (simp add: routing_receive_def is_unspecified_def net_location_unspecified_def net_location_new_def demo_location_def)
  ultimately have reach: "?reach (Continue ?st2)" using routing_reaches.later by (fastforce simp: st1_def)
  have tok: "ro_tokens ?st2 = 1 \<and> ro_cancelled ?st2 = {}"
    by (simp add: st1_def routing_new_def routing_forward_def demo_resolution_def ensure_session_def create_session_def
      new_udp_socket_def new_socket2_udp_socket_def new_socket2_udp_socket_with_buffer_size_def into_tokio_udp_socket_def
      bind_io_def ret_def owning_def table_call_def fresh_table_def)
  have "?st2 = (case Continue ?st2 of Continue st \<Rightarrow> st | Break st \<Rightarrow> st)" by simp
  from receivers_accounted_for [OF reach this] tok
  have "\<exists>!d. \<exists>us. ro_sessions ?st2 d = Some us \<and> us_cancel us = 0" by simp
  with reach tok show ?thesis by blast
qed

end
