(* ===== verification/Anytls_Server.thy ===== *)
theory Anytls_Server
  imports Anytls_Session Stream_Reader Copy_Bidirectional Socket_Util
begin

text \<open>
  \<^verbatim>\<open>src/anytls/server.rs\<close>: authentication of a connection, after which it becomes a session or, when the
  client is not a user, is forwarded to the fallback destination. SHA-256 is the parameter \<open>sha\<close>. The TLS stream of
  the client is given by its operations and the dialled connection by those of a TCP stream;
  \<open>split\<close> is \<^verbatim>\<open>tokio::io::split\<close>.
\<close>

section \<open>Users\<close>

record anytls_handler =
  ah_users :: "byte list \<rightharpoonup> string"
  ah_hash_prefixes :: "byte list set"
  ah_padding :: padding_factory
  ah_udp_enabled :: bool
  ah_fallback :: "net_location option"

definition add_user ::
  "(byte list \<Rightarrow> byte list) \<Rightarrow> (byte list \<rightharpoonup> string) \<times> byte list set \<Rightarrow> string \<times> string \<Rightarrow>
   (byte list \<rightharpoonup> string) \<times> byte list set" where
  "add_user sha = (\<lambda>(user_map, hash_prefixes) (name, password).
     let password_hash = sha (bytes_of password) in
     (user_map(password_hash \<mapsto> name), insert (take 8 password_hash) hash_prefixes))"

definition anytls_handler_new ::
  "(byte list \<Rightarrow> byte list) \<Rightarrow> (string \<times> string) list \<Rightarrow> padding_factory \<Rightarrow> bool \<Rightarrow> net_location option \<Rightarrow>
   anytls_handler" where
  "anytls_handler_new sha users padding udp_enabled fallback =
     (case foldl (add_user sha) (Map.empty, {}) users of
        (user_map, hash_prefixes) \<Rightarrow>
          \<lparr>ah_users = user_map, ah_hash_prefixes = hash_prefixes, ah_padding = padding,
           ah_udp_enabled = udp_enabled, ah_fallback = fallback\<rparr>)"

section \<open>Authentication\<close>

datatype auth_result = AuthUser string "byte list option" | AuthFailed string

definition authenticate ::
  "anytls_handler \<Rightarrow> 's reader \<Rightarrow> stream_reader \<Rightarrow> 's \<Rightarrow> (auth_result res \<times> stream_reader \<times> 's) option" where
  "authenticate h rd sr s =
     bind_rd (sr_peek_slice rd 8 sr s) (\<lambda>prefix_data sr1 s1.
       if prefix_data \<notin> ah_hash_prefixes h
       then Some (Ok (AuthFailed ''authentication failed (prefix mismatch)''), sr1, s1)
       else
         bind_rd (sr_peek_slice rd 32 sr1 s1) (\<lambda>auth_data sr2 s2.
           case ah_users h auth_data of
             None \<Rightarrow> Some (Ok (AuthFailed ''authentication failed''), sr2, s2)
           | Some name \<Rightarrow>
               bind_rd (sr_read_u16_be rd (sr_consume 32 sr2) s2) (\<lambda>padding_len sr3 s3.
                 bind_rd (if padding_len > 0 then sr_read_slice rd (unat padding_len) sr3 s3
                          else Some (Ok [], sr3, s3)) (\<lambda>_ sr4 s4.
                   Some (Ok (AuthUser name (unparsed_data_owned sr4)), sr4, s4)))))"

section \<open>Forwarding to the fallback\<close>

text \<open>Copy between two streams, then shut both down whatever the result.\<close>

definition copy_then_shutdown ::
  "copy_env \<Rightarrow> 'a async_stream \<Rightarrow> 'b async_stream \<Rightarrow> 'a \<Rightarrow> 'b \<Rightarrow> (unit res \<times> 'a \<times> 'b) option" where
  "copy_then_shutdown ce opa opb a b =
     run_copy ce opa opb (copy_bidirectional (ce_mem ce) (ce_clock ce 0) opa opb a b False False)"

text \<open>The connection to the fallback, its socket options tried in this order and their failures ignored.\<close>

definition fallback_connect :: "'s system \<Rightarrow> string \<Rightarrow> socket_addr \<Rightarrow> (fd, 's) io" where
  "fallback_connect sys cc addr =
     bind_io (sys (SysConnectTcp addr)) (\<lambda>stream.
     owning sys stream (
       bind_io (if cc \<noteq> [] then ignoring (set_tcp_congestion sys stream cc) else ret ()) (\<lambda>_.
       bind_io (ignoring (sys (SysNodelay stream True))) (\<lambda>_.
       bind_io (ignoring (set_tcp_keepalive sys stream (secs 60) (secs 15))) (\<lambda>_.
       ret stream)))))"

text \<open>What the client sent and was not consumed goes to the fallback first.\<close>

definition forward_unconsumed ::
  "'d async_stream \<Rightarrow> byte list \<Rightarrow> 'd \<Rightarrow> (unit res \<times> 'd) option" where
  "forward_unconsumed ops unconsumed dest =
     (if unconsumed \<noteq> [] then
        Option.bind (write_all (op_write ops) dest unconsumed) (\<lambda>(r, dest').
          case r of
            Ok _ \<Rightarrow> await_flush (op_flush ops) dest'
          | Err e \<Rightarrow> Some (Err e, dest')
          | Panic \<Rightarrow> Some (Panic, dest'))
      else Some (Ok (), dest))"

definition fallback_to_dest ::
  "copy_env \<Rightarrow> 's system \<Rightarrow> ('c resolver) resolution \<Rightarrow> 'a async_stream \<Rightarrow> 'd async_stream \<Rightarrow> (fd \<Rightarrow> 'd) \<Rightarrow>
   'a \<Rightarrow> stream_reader \<Rightarrow> net_location \<Rightarrow> 'c resolver \<times> 's \<Rightarrow>
   (unit res \<times> ('a \<times> 'd option) \<times> 'c resolver \<times> 's) option" where
  "fallback_to_dest ce sys rslv opa opd stream_of client reader fallback st =
     (case with_resolved rslv fallback (fallback_connect sys (rs_tcp_congestion (fst st))) st of
        (Ok fd, st') \<Rightarrow>
          Option.bind (forward_unconsumed opd (unparsed_data reader) (stream_of fd)) (\<lambda>(r, dest).
            case r of
              Ok _ \<Rightarrow>
                Option.bind (copy_then_shutdown ce opa (box_stream opd) client dest) (\<lambda>(result, client', dest').
                  Some (result, (client', Some dest'), st'))
            | Err e \<Rightarrow> Some (Err e, (client, Some dest), st')
            | Panic \<Rightarrow> Some (Panic, (client, Some dest), st'))
      | (Err e, st') \<Rightarrow> Some (Err e, (client, None), st')
      | (Panic, st') \<Rightarrow> Some (Panic, (client, None), st'))"

section \<open>A connection\<close>

text \<open>What becomes of a connection: a session ran, it was forwarded, or neither.\<close>

datatype ('s, 'w, 'a, 'd) served =
    RanSession 's "'w session" | Forwarded 'a "'d option" | Refused 'a

definition handle_connection ::
  "anytls_handler \<Rightarrow> copy_env \<Rightarrow> 'w session_env \<Rightarrow> 'h reader \<Rightarrow> (byte list \<Rightarrow> nat) \<Rightarrow> ('a \<Rightarrow> 'h \<times> 'w) \<Rightarrow>
   's system \<Rightarrow> ('c resolver) resolution \<Rightarrow> 'a async_stream \<Rightarrow> 'd async_stream \<Rightarrow> (fd \<Rightarrow> 'd) \<Rightarrow>
   'a \<Rightarrow> 'c resolver \<times> 's \<Rightarrow> (unit res \<times> ('h, 'w, 'a, 'd) served \<times> 'c resolver \<times> 's) option" where
  "handle_connection h ce env rd room split sys rslv opa opd stream_of stream st =
     Option.bind (authenticate h (op_read opa) (sr_new (ce_mem ce)) stream) (\<lambda>(r, reader, stream').
       case r of
         Ok (AuthUser user_name initial_data) \<Rightarrow>
           (case split stream' of
              (rd_half, wr_half) \<Rightarrow>
                Option.bind
                  (run_session env rd room rd_half
                     (new_server_with_initial_data wr_half (ah_padding h) (ah_udp_enabled h) user_name initial_data))
                  (\<lambda>(result, rd_half', session). Some (result, RanSession rd_half' session, st)))
       | Ok (AuthFailed msg) \<Rightarrow>
           (case ah_fallback h of
              Some fallback \<Rightarrow>
                Option.bind (fallback_to_dest ce sys rslv opa opd stream_of stream' reader fallback st)
                  (\<lambda>(result, (client, dest), st'). Some (result, Forwarded client dest, st'))
            | None \<Rightarrow> Some (Err (IoError PermissionDenied msg), Refused stream', st))
       | Err e \<Rightarrow> Some (Err e, Refused stream', st)
       | Panic \<Rightarrow> Some (Panic, Refused stream', st))"

section \<open>Who is a user\<close>

lemma add_user_foldl:
  "fst (foldl (add_user sha) (m, ps) users)
     = m ++ map_of (rev (map (\<lambda>(name, pw). (sha (bytes_of pw), name)) users))"
  "snd (foldl (add_user sha) (m, ps) users) = ps \<union> (\<lambda>(name, pw). take 8 (sha (bytes_of pw))) ` set users"
  by (induction users arbitrary: m ps) (auto simp: add_user_def Let_def)

lemma handler_users:
  "ah_users (anytls_handler_new sha users padding udp fallback)
     = map_of (rev (map (\<lambda>(name, pw). (sha (bytes_of pw), name)) users))"
  "ah_hash_prefixes (anytls_handler_new sha users padding udp fallback)
     = (\<lambda>(name, pw). take 8 (sha (bytes_of pw))) ` set users"
  using add_user_foldl [of sha Map.empty "{}" users]
  by (simp_all add: anytls_handler_new_def case_prod_unfold)

text \<open>The prefixes let every user through: they are the first eight bytes of the users' hashes.\<close>

definition handler_ok :: "anytls_handler \<Rightarrow> bool" where
  "handler_ok h \<longleftrightarrow> (\<forall>k name. ah_users h k = Some name \<longrightarrow> take 8 k \<in> ah_hash_prefixes h)"

lemma handler_ok_new: "handler_ok (anytls_handler_new sha users padding udp fallback)"
  unfolding handler_ok_def handler_users
  by (auto dest!: map_of_SomeD intro: rev_image_eqI)

text \<open>Bytes that hold a hash of 32 bytes, a length and that much padding.\<close>

definition auth_complete :: "byte list \<Rightarrow> bool" where
  "auth_complete before \<longleftrightarrow> (\<exists>hash padding rest. length hash = 32 \<and> length padding \<le> 65535 \<and>
     before = hash @ u16_be (of_nat (length padding)) @ padding @ rest)"

lemma auth_complete_length: "auth_complete before \<Longrightarrow> 34 \<le> length before"
  by (auto simp: auth_complete_def)

lemma auth_complete_padding:
  assumes "auth_complete (hash @ u16_be l @ rest)" and "length hash = 32"
  shows "unat l \<le> length rest"
proof -
  obtain hash' padding rest' where eq: "hash @ u16_be l @ rest = hash' @ u16_be (of_nat (length padding)) @ padding @ rest'"
    and len: "length hash' = 32" "length padding \<le> 65535"
    using assms(1) unfolding auth_complete_def by blast
  then have "u16_be l @ rest = u16_be (of_nat (length padding)) @ padding @ rest'" using assms(2) by simp
  then have "u16_be l = u16_be (of_nat (length padding))" and rest: "rest = padding @ rest'" by simp_all
  then have "l = of_nat (length padding)" by (metis u16_of_be_u16_be)
  then have "unat l = length padding" using len(2) by (simp add: unat_of_nat)
  with rest show ?thesis by simp
qed

text \<open>The bytes end before the authentication is decided: within the prefix, within the hash when the prefix is some user's, or
  within the padding of a user.\<close>

definition auth_short :: "anytls_handler \<Rightarrow> byte list \<Rightarrow> bool" where
  "auth_short h before \<longleftrightarrow> length before < 8 \<or> length before < 32 \<and> take 8 before \<in> ah_hash_prefixes h
     \<or> ah_users h (take 32 before) \<noteq> None \<and> \<not> auth_complete before"

context byte_source
begin

definition auth_post :: "anytls_handler \<Rightarrow> byte list \<Rightarrow> auth_result res \<Rightarrow> byte list \<Rightarrow> bool" where
  "auth_post h before r after \<longleftrightarrow>
     (case r of
        Ok (AuthFailed msg) \<Rightarrow> after = before \<and> ah_users h (take 32 before) = None
      | Ok (AuthUser name initial) \<Rightarrow>
          (\<exists>hash padding. ah_users h hash = Some name \<and> length hash = 32 \<and> length padding \<le> 32768 \<and>
             before = hash @ u16_be (of_nat (length padding)) @ padding @ after)
      | Err e \<Rightarrow> e = eof_while_reading \<and> auth_short h before \<or> src_err e \<or>
          (\<exists>hash l rest. ah_users h hash \<noteq> None \<and> before = hash @ u16_be l @ rest \<and> 32768 < unat l)
      | Panic \<Rightarrow> False)"

text \<open>What a computation that finishes the authentication of a connection with the bytes \<open>before\<close> promises.\<close>

definition authenticates ::
  "anytls_handler \<Rightarrow> byte list \<Rightarrow> (auth_result res \<times> stream_reader \<times> 's) option \<Rightarrow> bool" where
  "authenticates h before m \<longleftrightarrow> (\<exists>r sr s. m = Some (r, sr, s) \<and> src_inv s \<and> auth_post h before r (pending_bytes sr s) \<and>
     (\<forall>n i. r = Ok (AuthUser n i) \<longrightarrow> i = unparsed_data_owned sr))"

lemma authenticates_err:
  "reader_ok cap sr s \<Longrightarrow> e = eof_while_reading \<and> auth_short h before \<or> src_err e \<Longrightarrow>
   authenticates h before (Some (Err e, sr, s))"
  by (auto simp: authenticates_def auth_post_def reader_ok_def)

lemma authenticates_failed:
  "reader_ok cap sr s \<Longrightarrow> pending_bytes sr s = before \<Longrightarrow> ah_users h (take 32 before) = None \<Longrightarrow>
   authenticates h before (Some (Ok (AuthFailed msg), sr, s))"
  by (auto simp: authenticates_def auth_post_def reader_ok_def)

lemma authenticates_user:
  "reader_ok cap sr s \<Longrightarrow> ah_users h hash = Some name \<Longrightarrow> length hash = 32 \<Longrightarrow> length padding \<le> 32768 \<Longrightarrow>
   before = hash @ u16_be (of_nat (length padding)) @ padding @ pending_bytes sr s \<Longrightarrow>
   authenticates h before (Some (Ok (AuthUser name (unparsed_data_owned sr)), sr, s))"
  unfolding authenticates_def auth_post_def reader_ok_def by auto

lemma authenticate_padding:
  assumes ok: "reader_ok 32768 sr s" and user: "ah_users h hash = Some name" "length hash = 32"
    and before: "before = hash @ u16_be l @ pending_bytes sr s"
  shows "authenticates h before
    (bind_rd (if l > 0 then sr_read_slice poll_read (unat l) sr s else Some (Ok [], sr, s)) (\<lambda>_ sr4 s4.
       Some (Ok (AuthUser name (unparsed_data_owned sr4)), sr4, s4)))"
proof -
  consider (none) "l = 0" | (fits) "l > 0" "unat l \<le> 32768" | (long) "l > 0" "32768 < unat l"
    by (metis not_le_imp_less word_gt_0)
  then show ?thesis
  proof cases
    case none
    with before have "before = hash @ u16_be (of_nat (length ([] :: byte list))) @ [] @ pending_bytes sr s" by simp
    from authenticates_user [OF ok user _ this] none show ?thesis by (simp add: bind_rd_def)
  next
    case fits
    obtain r sr' s' where rd: "sr_read_slice poll_read (unat l) sr s = Some (r, sr', s')"
      and ok': "reader_ok 32768 sr' s'"
      and post: "case r of
        Ok bs \<Rightarrow> length bs = unat l \<and> pending_bytes sr s = bs @ pending_bytes sr' s'
      | Err e \<Rightarrow> e = eof_while_reading \<and> length (pending_bytes sr s) < unat l \<or> src_err e
      | Panic \<Rightarrow> False"
      using sr_read_slice_total [OF ok fits(2)] by blast
    show ?thesis
    proof (cases r)
      case (Ok bs)
      then have "before = hash @ u16_be (of_nat (length bs)) @ bs @ pending_bytes sr' s'" and "length bs \<le> 32768"
        using before post fits by simp_all
      from authenticates_user [OF ok' user this(2,1)] Ok rd fits show ?thesis by (simp add: bind_rd_def)
    next
      case (Err e)
      then have "e = eof_while_reading \<and> auth_short h before \<or> src_err e"
        using post auth_complete_padding [of hash l "pending_bytes sr s"] user before by (auto simp: auth_short_def)
      with authenticates_err [OF ok'] Err rd fits show ?thesis by (simp add: bind_rd_def)
    qed (use post in simp)
  next
    case long
    then have "length (sr_buf sr) < unat l" using ok by (simp add: reader_ok_def)
    moreover have "\<exists>hash l rest. ah_users h hash \<noteq> None \<and> before = hash @ u16_be l @ rest \<and> 32768 < unat l"
      by (intro exI [of _ hash] exI [of _ l] exI [of _ "pending_bytes sr s"]) (use before user(1) long in simp)
    ultimately show ?thesis
      using long ok by (auto simp: authenticates_def bind_rd_def sr_read_slice_def auth_post_def reader_ok_def)
  qed
qed

text \<open>After the hash of a user was peeked.\<close>

lemma authenticate_user:
  assumes ok: "reader_ok 32768 sr s" and user: "ah_users h auth = Some name" and len: "length auth = 32"
    and auth: "auth = take 32 (unparsed_data sr)"
  shows "authenticates h (pending_bytes sr s)
    (bind_rd (sr_read_u16_be poll_read (sr_consume 32 sr) s) (\<lambda>padding_len sr3 s3.
       bind_rd (if padding_len > 0 then sr_read_slice poll_read (unat padding_len) sr3 s3
                else Some (Ok [], sr3, s3)) (\<lambda>_ sr4 s4.
         Some (Ok (AuthUser name (unparsed_data_owned sr4)), sr4, s4))))"
proof -
  have "32 \<le> length (unparsed_data sr)" using len auth by simp
  note cons = consume_spec [OF _ this]
  have inv: "sr_inv sr" using ok by (simp add: reader_ok_def)
  have ok1: "reader_ok 32768 (sr_consume 32 sr) s" using ok cons(1) [OF inv] by (simp add: reader_ok_def sr_consume_def)
  have rest: "pending_bytes sr s = auth @ pending_bytes (sr_consume 32 sr) s"
    using cons(2) [OF inv] auth by (simp add: pending_bytes_def)
  obtain r sr' s' where rd: "sr_read_u16_be poll_read (sr_consume 32 sr) s = Some (r, sr', s')"
    and ok': "reader_ok 32768 sr' s'"
    and post: "case r of
        Ok l \<Rightarrow> pending_bytes (sr_consume 32 sr) s = u16_be l @ pending_bytes sr' s'
      | Err e \<Rightarrow> e = eof_while_reading \<and> length (pending_bytes (sr_consume 32 sr) s) < 2 \<or> src_err e
      | Panic \<Rightarrow> False"
    using sr_read_u16_be_total [OF ok1] by auto
  show ?thesis
  proof (cases r)
    case (Ok l)
    then have "pending_bytes sr s = auth @ u16_be l @ pending_bytes sr' s'" using rest post by simp
    from authenticate_padding [OF ok' user len this] show ?thesis using rd Ok by (simp add: bind_rd_def)
  next
    case (Err e)
    then have "e = eof_while_reading \<and> auth_short h (pending_bytes sr s) \<or> src_err e"
      using post auth_complete_length [of "pending_bytes sr s"] rest len user by (auto simp: auth_short_def)
    with authenticates_err [OF ok'] Err rd show ?thesis by (simp add: bind_rd_def)
  qed (use post in simp)
qed

text \<open>A peek that fails ends the authentication.\<close>

lemma authenticates_peek:
  assumes ok: "reader_ok 32768 sr s" and n: "n \<le> 32"
    and short: "length (pending_bytes sr s) < n \<Longrightarrow> auth_short h (pending_bytes sr s)"
    and step: "\<And>sr' s'. reader_ok 32768 sr' s' \<Longrightarrow> pending_bytes sr' s' = pending_bytes sr s \<Longrightarrow>
      n \<le> length (unparsed_data sr') \<Longrightarrow> take n (pending_bytes sr s) = take n (unparsed_data sr') \<Longrightarrow>
      authenticates h (pending_bytes sr s) (f (take n (unparsed_data sr')) sr' s')"
  shows "authenticates h (pending_bytes sr s) (bind_rd (sr_peek_slice poll_read n sr s) f)"
proof -
  obtain r sr' s' where pk: "sr_peek_slice poll_read n sr s = Some (r, sr', s')" and ok': "reader_ok 32768 sr' s'"
    and post: "case r of
        Ok bs \<Rightarrow> length bs = n \<and> bs = take n (pending_bytes sr s) \<and> n \<le> length (unparsed_data sr')
          \<and> pending_bytes sr' s' = pending_bytes sr s
      | Err e \<Rightarrow> e = eof_while_reading \<and> length (pending_bytes sr s) < n \<or> src_err e
      | Panic \<Rightarrow> False"
    using sr_peek_slice_total [OF ok, of n] n by auto
  show ?thesis
  proof (cases r)
    case (Ok bs)
    then have bs: "bs = take n (pending_bytes sr' s')" "n \<le> length (unparsed_data sr')"
      "pending_bytes sr' s' = pending_bytes sr s"
      using post by simp_all
    then have "bs = take n (unparsed_data sr')" by (simp add: pending_bytes_def)
    with step [OF ok' bs(3,2)] bs Ok pk show ?thesis by (simp add: bind_rd_def)
  next
    case (Err e)
    then have "e = eof_while_reading \<and> auth_short h (pending_bytes sr s) \<or> src_err e" using post short by auto
    with authenticates_err [OF ok'] Err pk show ?thesis by (simp add: bind_rd_def)
  qed (use post in simp)
qed

lemma authenticate_total:
  assumes ok: "reader_ok 32768 sr s" and h: "handler_ok h"
  shows "authenticates h (pending_bytes sr s) (authenticate h poll_read sr s)"
  unfolding authenticate_def
proof (rule authenticates_peek [OF ok])
  fix sr1 s1
  assume ok1: "reader_ok 32768 sr1 s1" and b1: "pending_bytes sr1 s1 = pending_bytes sr s"
    and prefix: "take 8 (pending_bytes sr s) = take 8 (unparsed_data sr1)"
  let ?second = "bind_rd (sr_peek_slice poll_read 32 sr1 s1) (\<lambda>auth_data sr2 s2.
      case ah_users h auth_data of
        None \<Rightarrow> Some (Ok (AuthFailed ''authentication failed''), sr2, s2)
      | Some name \<Rightarrow>
          bind_rd (sr_read_u16_be poll_read (sr_consume 32 sr2) s2) (\<lambda>padding_len sr3 s3.
            bind_rd (if padding_len > 0 then sr_read_slice poll_read (unat padding_len) sr3 s3
                     else Some (Ok [], sr3, s3)) (\<lambda>_ sr4 s4.
              Some (Ok (AuthUser name (unparsed_data_owned sr4)), sr4, s4))))"
  have "authenticates h (pending_bytes sr1 s1) ?second" if "take 8 (unparsed_data sr1) \<in> ah_hash_prefixes h"
  proof (rule authenticates_peek [OF ok1])
    assume "length (pending_bytes sr1 s1) < 32"
    then show "auth_short h (pending_bytes sr1 s1)" using that prefix b1 by (simp add: auth_short_def)
  next
    fix sr2 s2
    assume ok2: "reader_ok 32768 sr2 s2" and b2: "pending_bytes sr2 s2 = pending_bytes sr1 s1"
      and whole: "32 \<le> length (unparsed_data sr2)" "take 32 (pending_bytes sr1 s1) = take 32 (unparsed_data sr2)"
    show "authenticates h (pending_bytes sr1 s1)
        (case ah_users h (take 32 (unparsed_data sr2)) of
           None \<Rightarrow> Some (Ok (AuthFailed ''authentication failed''), sr2, s2)
         | Some name \<Rightarrow>
             bind_rd (sr_read_u16_be poll_read (sr_consume 32 sr2) s2) (\<lambda>padding_len sr3 s3.
               bind_rd (if padding_len > 0 then sr_read_slice poll_read (unat padding_len) sr3 s3
                        else Some (Ok [], sr3, s3)) (\<lambda>_ sr4 s4.
                 Some (Ok (AuthUser name (unparsed_data_owned sr4)), sr4, s4))))"
      using authenticates_failed [OF ok2 b2] authenticate_user [OF ok2 _ _ refl] whole b2
      by (auto split: option.splits)
  qed simp
  moreover have "ah_users h (take 32 (pending_bytes sr s)) = None" if "take 8 (unparsed_data sr1) \<notin> ah_hash_prefixes h"
  proof (rule ccontr)
    assume "ah_users h (take 32 (pending_bytes sr s)) \<noteq> None"
    with h have "take 8 (take 32 (pending_bytes sr s)) \<in> ah_hash_prefixes h" unfolding handler_ok_def by blast
    with that prefix show False by (simp add: min_def)
  qed
  ultimately show "authenticates h (pending_bytes sr s)
      (if take 8 (unparsed_data sr1) \<notin> ah_hash_prefixes h
       then Some (Ok (AuthFailed ''authentication failed (prefix mismatch)''), sr1, s1) else ?second)"
    using authenticates_failed [OF ok1 b1] b1 by simp
qed (simp_all add: auth_short_def)

end

section \<open>Properties\<close>

text \<open>C5. Authentication is exact, however the client's bytes arrive: a connection is a user's session exactly
  when it begins with the hash of a user's password, a length and that much padding, of at most 32768 bytes, and
  the session is left with exactly the bytes after these. Otherwise nothing is consumed: a fallback
  gets every byte the client sent. It fails only when the connection fails or ends too early (within the first eight bytes, within
  the hash when these eight are a user's, within a user's padding), or when a user announces more padding than the reader's
  buffer holds.\<close>

theorem authentication_exact:
  assumes "byte_source rd content src_inv delay src_err" and "src_inv s"
    and "\<And>b. length (sha b) = 32" and "h = anytls_handler_new sha users padding udp fallback"
  shows "\<exists>r sr s'. authenticate h rd (sr_new mem) s = Some (r, sr, s') \<and> src_inv s' \<and>
    (case r of
       Ok (AuthUser name initial) \<Rightarrow>
         \<exists>pw pad. (name, pw) \<in> set users \<and> length pad \<le> 32768 \<and>
           content s = sha (bytes_of pw) @ u16_be (of_nat (length pad)) @ pad
             @ (case initial of Some d \<Rightarrow> d | None \<Rightarrow> []) @ content s'
     | Ok (AuthFailed msg) \<Rightarrow>
         unparsed_data sr @ content s' = content s \<and> (\<forall>(name, pw) \<in> set users. take 32 (content s) \<noteq> sha (bytes_of pw))
     | Err e \<Rightarrow> e = eof_while_reading \<and> auth_short h (content s) \<or> src_err e \<or>
         (\<exists>name pw l rest. (name, pw) \<in> set users \<and> content s = sha (bytes_of pw) @ u16_be l @ rest \<and> 32768 < unat l)
     | Panic \<Rightarrow> False)"
proof -
  note src = assms(1)
  let ?sr = "sr_new mem"
  have known: "ah_users h k = Some name \<Longrightarrow> \<exists>pw. (name, pw) \<in> set users \<and> k = sha (bytes_of pw)" for k name
    unfolding assms(4) handler_users by (auto dest!: map_of_SomeD)
  have unknown: "ah_users h k = None \<Longrightarrow> \<forall>(name, pw) \<in> set users. k \<noteq> sha (bytes_of pw)" for k
    unfolding assms(4) handler_users by (fastforce simp: map_of_eq_None_iff image_iff)
  have ok: "byte_source.reader_ok src_inv 32768 ?sr s"
    using assms(2) by (simp add: byte_source.reader_ok_def [OF src] sr_new_def sr_new_with_buffer_size_def sr_inv_def)
  have hok: "handler_ok h" unfolding assms(4) by (rule handler_ok_new)
  have p0: "byte_source.pending_bytes content ?sr s = content s"
    by (simp add: byte_source.pending_bytes_def [OF src] sr_new_def)
  obtain r sr s' where run: "authenticate h rd ?sr s = Some (r, sr, s')" and inv: "src_inv s'"
    and post: "byte_source.auth_post src_err h (content s) r (unparsed_data sr @ content s')"
    and initial: "\<forall>n i. r = Ok (AuthUser n i) \<longrightarrow> i = unparsed_data_owned sr"
    using byte_source.authenticate_total [OF src ok hok] unfolding p0 byte_source.authenticates_def [OF src]
    unfolding byte_source.pending_bytes_def [OF src] by blast
  have own: "(case unparsed_data_owned sr of Some d \<Rightarrow> d | None \<Rightarrow> []) = unparsed_data sr"
    by (simp add: unparsed_data_owned_def)
  note post = post [unfolded byte_source.auth_post_def [OF src]]
  have "case r of
       Ok (AuthUser name initial) \<Rightarrow>
         \<exists>pw pad. (name, pw) \<in> set users \<and> length pad \<le> 32768 \<and>
           content s = sha (bytes_of pw) @ u16_be (of_nat (length pad)) @ pad
             @ (case initial of Some d \<Rightarrow> d | None \<Rightarrow> []) @ content s'
     | Ok (AuthFailed msg) \<Rightarrow>
         unparsed_data sr @ content s' = content s \<and> (\<forall>(name, pw) \<in> set users. take 32 (content s) \<noteq> sha (bytes_of pw))
     | Err e \<Rightarrow> e = eof_while_reading \<and> auth_short h (content s) \<or> src_err e \<or>
         (\<exists>name pw l rest. (name, pw) \<in> set users \<and> content s = sha (bytes_of pw) @ u16_be l @ rest \<and> 32768 < unat l)
     | Panic \<Rightarrow> False"
  proof (cases r)
    case (Ok a)
    show ?thesis
    proof (cases a)
      case (AuthUser name i)
      with post Ok initial own show ?thesis by simp (metis known)
    next
      case (AuthFailed msg)
      with post Ok unknown show ?thesis by simp
    qed
  next
    case (Err e)
    with post known show ?thesis by simp (metis option.exhaust_sel)
  qed (use post in simp)
  with run inv show ?thesis by blast
qed

text \<open>A user, one byte of padding, and the first bytes of the session, in two reads.\<close>

definition toy_hash :: "byte list \<Rightarrow> byte list" where
  "toy_hash b = take 32 (b @ replicate 32 0)"

theorem authentication_exact_witness:
  "\<exists>r sr s'. authenticate (anytls_handler_new toy_hash [(''u'', ''p'')] demo_padding True None) script_read
      (sr_new (\<lambda>_. 0)) [Chunk (toy_hash (bytes_of ''p'') @ [0]), Chunk [1, 9, 8, 0]] = Some (r, sr, s') \<and> r \<noteq> Panic"
proof -
  have "script_inv [Chunk (toy_hash (bytes_of ''p'') @ [0]), Chunk [1, 9, 8, 0]]" by (simp add: script_inv_def)
  moreover have "length (toy_hash b) = 32" for b by (simp add: toy_hash_def)
  ultimately obtain r sr s' where
    "authenticate (anytls_handler_new toy_hash [(''u'', ''p'')] demo_padding True None) script_read
       (sr_new (\<lambda>_. 0)) [Chunk (toy_hash (bytes_of ''p'') @ [0]), Chunk [1, 9, 8, 0]] = Some (r, sr, s')"
    and "r \<noteq> Panic"
    using authentication_exact [OF script.byte_source_axioms, where s = "[Chunk (toy_hash (bytes_of ''p'') @ [0]), Chunk [1, 9, 8, 0]]"
      and sha = toy_hash and users = "[(''u'', ''p'')]" and padding = demo_padding and udp = True and fallback = None
      and mem = "\<lambda>_. 0", OF _ _ refl] by fastforce
  then show ?thesis by blast
qed

end
