(* ===== verification/Hysteria_Udp.thy ===== *)
theory Hysteria_Udp
  imports Varint Socket_Util
begin

text \<open>
  \<^verbatim>\<open>src/hysteria2.rs\<close>, UDP: datagrams to the client, split into fragments when they do not fit a QUIC datagram, and
  datagrams of the client, whose fragments are put together again. The fragment cache is the \<^verbatim>\<open>lru\<close>
  crate's: its operations are the record \<open>frag_ops\<close> and what its documentation promises the locale \<open>frag_cache\<close>. Sending a
  datagram on a socket is the parameter \<open>send_to\<close>, which says whether it succeeded.
\<close>

section \<open>Datagrams to the client\<close>

text \<open>\<^verbatim>\<open>a.div_ceil(b)\<close>, for \<open>b > 0\<close>.\<close>

definition div_ceil :: "nat \<Rightarrow> nat \<Rightarrow> nat" where
  "div_ceil a b = (a + b - 1) div b"

definition build_datagram ::
  "u32 \<Rightarrow> u16 \<Rightarrow> byte \<Rightarrow> byte \<Rightarrow> byte list \<Rightarrow> byte list \<Rightarrow> byte list \<Rightarrow> byte list" where
  "build_datagram session_id packet_id fragment_id fragment_count address_len_bytes address_bytes payload =
     u32_be session_id @ u16_be packet_id @ [fragment_id, fragment_count] @ address_len_bytes @ address_bytes @ payload"

text \<open>The datagrams for one packet: one, or as many fragments as it takes; the count is cut to a byte. The
  \<^verbatim>\<open>assert!\<close> on the size of the header panics.\<close>

definition datagrams_for :: "nat \<Rightarrow> u32 \<Rightarrow> u16 \<Rightarrow> byte list \<Rightarrow> byte list \<Rightarrow> byte list list res" where
  "datagrams_for max_datagram_size session_id packet_id address_bytes payload =
     bind_res (encode_varint (of_nat (length address_bytes))) (\<lambda>address_len_bytes.
       let header_overhead = 4 + 2 + 1 + 1 + length address_len_bytes + length address_bytes;
           payload_len = length payload
       in if \<not> max_datagram_size > header_overhead then Panic
          else if header_overhead + payload_len \<le> max_datagram_size
          then Ok [build_datagram session_id packet_id 0 1 address_len_bytes address_bytes payload]
          else
            let available_payload = max_datagram_size - header_overhead;
                fragment_count = of_nat (div_ceil payload_len available_payload) :: byte
            in Ok (map (\<lambda>fragment_id.
                 let start = fragment_id * available_payload;
                     stop = min (start + available_payload) payload_len
                 in build_datagram session_id packet_id (of_nat fragment_id) fragment_count
                      address_len_bytes address_bytes (slice_of start stop payload))
                 [0..<unat fragment_count]))"

text \<open>\<^verbatim>\<open>run_udp_remote_to_local_loop\<close>: what a turn of its loop gets from the socket. A turn that would block waits, and is
  then cancelled or told that the socket can be read, or that waiting failed.\<close>

datatype hy_recv =
    HyReceived "byte list" socket_addr
  | HyCancelled
  | HyReadable
  | HyReadableErr io_error
  | HyRecvErr io_error

text \<open>The address that goes into every datagram when the session was opened with a name.\<close>

definition hy_answer_address :: "net_location option \<Rightarrow> socket_addr \<Rightarrow> byte list" where
  "hy_answer_address override_local_write_address src_addr =
     bytes_of (case override_local_write_address of
       Some a \<Rightarrow> display_location a | None \<Rightarrow> display_socket_addr src_addr)"

text \<open>The datagrams of one packet, in order, up to the first that cannot be sent.\<close>

fun send_datagrams :: "(byte list \<Rightarrow> (unit, 's) io) \<Rightarrow> byte list list \<Rightarrow> (unit, 's) io" where
  "send_datagrams send_datagram [] = ret ()"
| "send_datagrams send_datagram (d # ds) = (\<lambda>s.
     case send_datagram d s of
       (Ok (), s') \<Rightarrow> send_datagrams send_datagram ds s'
     | (Err _, s') \<Rightarrow> (Err (other_error ''Failed to send datagram''), s')
     | (Panic, s') \<Rightarrow> (Panic, s'))"

text \<open>The loop on the turns it is given: \<^term>\<open>Ok True\<close> when it was cancelled, \<^term>\<open>Ok False\<close> while it waits for the next turn.\<close>

fun hy_remote_to_local_loop ::
  "(byte list \<Rightarrow> (unit, 's) io) \<Rightarrow> nat \<Rightarrow> u32 \<Rightarrow> net_location option \<Rightarrow> u16 \<Rightarrow> hy_recv list \<Rightarrow> (bool, 's) io" where
  "hy_remote_to_local_loop send_datagram max_datagram_size session_id override next_packet_id [] = ret False"
| "hy_remote_to_local_loop send_datagram max_datagram_size session_id override next_packet_id (ev # evs) =
     (case ev of
        HyReceived payload src_addr \<Rightarrow>
          (\<lambda>s. case datagrams_for max_datagram_size session_id next_packet_id (hy_answer_address override src_addr) payload of
             Ok ds \<Rightarrow>
               bind_io (send_datagrams send_datagram ds)
                 (\<lambda>_. hy_remote_to_local_loop send_datagram max_datagram_size session_id override (next_packet_id + 1) evs) s
           | Err e \<Rightarrow> (Err e, s)
           | Panic \<Rightarrow> (Panic, s))
      | HyCancelled \<Rightarrow> ret True
      | HyReadable \<Rightarrow> hy_remote_to_local_loop send_datagram max_datagram_size session_id override next_packet_id evs
      | HyReadableErr e \<Rightarrow> (\<lambda>s. (Err e, s))
      | HyRecvErr e \<Rightarrow> (\<lambda>s. (Err (other_error ''failed to receive from UDP socket''), s)))"

definition run_udp_remote_to_local_loop ::
  "(byte list \<Rightarrow> (unit, 's) io) \<Rightarrow> nat option \<Rightarrow> u32 \<Rightarrow> net_location option \<Rightarrow> hy_recv list \<Rightarrow> (bool, 's) io" where
  "run_udp_remote_to_local_loop send_datagram max_datagram_size session_id override evs s =
     (case max_datagram_size of
        None \<Rightarrow> (Err (other_error ''datagram not supported by remote endpoint''), s)
      | Some m \<Rightarrow> hy_remote_to_local_loop send_datagram m session_id override 0 evs s)"

section \<open>Datagrams of the client\<close>

record parsed_datagram =
  pd_session :: u32
  pd_packet :: u16
  pd_fragment_id :: byte
  pd_fragment_count :: byte
  pd_address :: "byte list"
  pd_payload :: "byte list"

text \<open>\<^term>\<open>Ok None\<close> is a datagram that is ignored. The slice with the rest of the address length is taken without a
  look at how long the datagram is.\<close>

definition parse_datagram :: "byte list \<Rightarrow> parsed_datagram option res" where
  "parse_datagram data =
     (if length data < 9 then Ok None
      else
        let first_byte = data ! 8;
            num_bytes = varint_num_bytes first_byte
        in if num_bytes > 1 \<and> length data < 9 + (num_bytes - 1) then Panic
           else
             let address_len = unat (varint_accum (varint_first first_byte) (slice_of 9 (9 + (num_bytes - 1)) data));
                 next_index = 9 + (num_bytes - 1)
             in if address_len = 0 then Ok None
                else if address_len > 2048 then Ok None
                else if length data < next_index + address_len then Ok None
                else Ok (Some
                  \<lparr>pd_session = u32_of_be (slice_of 0 4 data), pd_packet = u16_of_be (slice_of 4 6 data),
                   pd_fragment_id = data ! 6, pd_fragment_count = data ! 7,
                   pd_address = slice_of next_index (next_index + address_len) data,
                   pd_payload = drop (next_index + address_len) data\<rparr>))"

section \<open>Fragments\<close>

record fragmented_packet =
  fp_fragment_count :: byte
  fp_fragment_received :: byte
  fp_packet_len :: nat
  fp_received :: "byte list option list"
  fp_remote_location :: net_location

text \<open>\<^verbatim>\<open>contains\<close>, \<^verbatim>\<open>put\<close>, \<^verbatim>\<open>get_mut\<close>, a write through the reference it gives, \<^verbatim>\<open>pop\<close>.\<close>

record 'l frag_ops =
  fc_new :: "nat \<Rightarrow> 'l"
  fc_contains :: "'l \<Rightarrow> u16 \<Rightarrow> bool"
  fc_put :: "'l \<Rightarrow> u16 \<Rightarrow> fragmented_packet \<Rightarrow> 'l"
  fc_get_mut :: "'l \<Rightarrow> u16 \<Rightarrow> fragmented_packet option \<times> 'l"
  fc_set :: "'l \<Rightarrow> u16 \<Rightarrow> fragmented_packet \<Rightarrow> 'l"
  fc_pop :: "'l \<Rightarrow> u16 \<Rightarrow> fragmented_packet option \<times> 'l"

definition add_fragment :: "nat \<Rightarrow> byte list \<Rightarrow> fragmented_packet \<Rightarrow> fragmented_packet" where
  "add_fragment fragment_id payload e =
     e\<lparr>fp_fragment_received := fp_fragment_received e + 1, fp_packet_len := fp_packet_len e + length payload,
       fp_received := (fp_received e)[fragment_id := Some payload]\<rparr>"

text \<open>One fragment: nothing yet, or the whole packet and the location of its first fragment. A fragment
  number out of range panics.\<close>

definition reassemble ::
  "'l frag_ops \<Rightarrow> u16 \<Rightarrow> byte \<Rightarrow> byte \<Rightarrow> byte list \<Rightarrow> net_location \<Rightarrow> 'l \<Rightarrow>
   (byte list \<times> net_location) option res \<times> 'l" where
  "reassemble ops packet_id fragment_id fragment_count payload_fragment remote_location fragments =
     (if fragment_count = 0 then (Ok None, fragments)
      else if fragment_count = 1 then (Ok (Some (payload_fragment, remote_location)), fragments)
      else
        let fragments1 =
          (if fc_contains ops fragments packet_id then fragments
           else fc_put ops fragments packet_id
             \<lparr>fp_fragment_count = fragment_count, fp_fragment_received = 0, fp_packet_len = 0,
              fp_received = replicate (unat fragment_count) None, fp_remote_location = remote_location\<rparr>)
        in case fc_get_mut ops fragments1 packet_id of
             (None, fragments2) \<Rightarrow> (Ok None, fragments2)
           | (Some e, fragments2) \<Rightarrow>
               if fp_fragment_count e \<noteq> fragment_count then (Ok None, snd (fc_pop ops fragments2 packet_id))
               else if \<not> unat fragment_id < length (fp_received e) then (Panic, fragments2)
               else if fp_received e ! unat fragment_id \<noteq> None then (Ok None, snd (fc_pop ops fragments2 packet_id))
               else
                 let e' = add_fragment (unat fragment_id) payload_fragment e;
                     fragments3 = fc_set ops fragments2 packet_id e'
                 in if fp_fragment_received e' \<noteq> fp_fragment_count e' then (Ok None, fragments3)
                    else
                      (case fc_pop ops fragments3 packet_id of
                         (None, fragments4) \<Rightarrow> (Panic, fragments4)
                       | (Some p, fragments4) \<Rightarrow>
                           if None \<in> set (fp_received p) then (Panic, fragments4)
                           else (Ok (Some (concat (map the (fp_received p)), fp_remote_location p)), fragments4)))"

section \<open>Sessions\<close>

record 'l hy_session =
  hs_fragments :: 'l
  hs_send_socket :: fd
  hs_last_location :: net_location
  hs_last_socket_addr :: socket_addr
  hs_override_remote_write_address :: "socket_addr option"
  hs_last_activity :: instant
  hs_cancel_token :: nat

text \<open>The state of the loop, with the tasks that carry answers back: how many were started and which
  were cancelled.\<close>

record ('l, 'r, 's) hy_udp =
  hu_sessions :: "u32 \<rightharpoonup> 'l hy_session"
  hu_last_cleanup :: instant
  hu_resolver :: 'r
  hu_sys :: 's
  hu_tasks :: nat
  hu_cancelled :: "nat set"

definition hy_udp_new :: "instant \<Rightarrow> 'r \<Rightarrow> 's \<Rightarrow> ('l, 'r, 's) hy_udp" where
  "hy_udp_new now rs s = \<lparr>hu_sessions = Map.empty, hu_last_cleanup = now, hu_resolver = rs, hu_sys = s, hu_tasks = 0,
     hu_cancelled = {}\<rparr>"

definition hy_idle :: "instant \<Rightarrow> 'l hy_session \<Rightarrow> bool" where
  "hy_idle now us \<longleftrightarrow> now - hs_last_activity us > secs 60"

definition hy_cleanup :: "instant \<Rightarrow> ('l, 'r, 's) hy_udp \<Rightarrow> ('l, 'r, 's) hy_udp" where
  "hy_cleanup now st =
     (if now - hu_last_cleanup st > secs 10 then
        st\<lparr>hu_sessions := (\<lambda>i. case hu_sessions st i of
               Some us \<Rightarrow> if hy_idle now us then None else Some us
             | None \<Rightarrow> None),
           hu_cancelled := hu_cancelled st \<union> {hs_cancel_token us | us. us \<in> ran (hu_sessions st) \<and> hy_idle now us},
           hu_last_cleanup := now\<rparr>
      else st)"

text \<open>\<^verbatim>\<open>UdpSession::start\<close>, which also starts the task.\<close>

definition hy_session_start ::
  "'l frag_ops \<Rightarrow> instant \<Rightarrow> fd \<Rightarrow> net_location \<Rightarrow> socket_addr \<Rightarrow> socket_addr option \<Rightarrow> nat \<Rightarrow> 'l hy_session" where
  "hy_session_start ops now client_socket initial_location initial_socket_addr override_remote_write_address token =
     \<lparr>hs_fragments = fc_new ops 256, hs_send_socket = client_socket, hs_last_location = initial_location,
      hs_last_socket_addr = initial_socket_addr,
      hs_override_remote_write_address = override_remote_write_address,
      hs_last_activity = now, hs_cancel_token = token\<rparr>"

text \<open>The session of a datagram, made if there is none. \<^term>\<open>Ok None\<close>: the datagram is dropped, since its location does not
  resolve.\<close>

definition hy_session_for ::
  "'l frag_ops \<Rightarrow> 's system \<Rightarrow> 'r resolution \<Rightarrow> instant \<Rightarrow> u32 \<Rightarrow> net_location \<Rightarrow> ('l, 'r, 's) hy_udp \<Rightarrow>
   'l hy_session option res \<times> ('l, 'r, 's) hy_udp" where
  "hy_session_for ops sys rslv now session_id remote_location st =
     (case hu_sessions st session_id of
        Some us \<Rightarrow> (Ok (Some us), st)
      | None \<Rightarrow>
          (case rslv (hu_resolver st) remote_location of
             (Ok resolved_address, rs') \<Rightarrow>
               (let st1 = st\<lparr>hu_resolver := rs'\<rparr>;
                    override = (if display_socket_addr resolved_address \<noteq> display_location remote_location
                                then Some resolved_address else None)
                in case new_udp_socket sys True (hu_sys st1) of
                     (Ok client_socket, s') \<Rightarrow>
                       (let us = hy_session_start ops now client_socket remote_location resolved_address override (hu_tasks st1)
                        in (Ok (Some us),
                            st1\<lparr>hu_sys := s', hu_tasks := hu_tasks st1 + 1,
                                hu_sessions := (hu_sessions st1)(session_id \<mapsto> us)\<rparr>))
                   | (Err e, s') \<Rightarrow> (Err e, st1\<lparr>hu_sys := s'\<rparr>)
                   | (Panic, s') \<Rightarrow> (Panic, st1\<lparr>hu_sys := s'\<rparr>))
           | (Err _, rs') \<Rightarrow> (Ok None, st\<lparr>hu_resolver := rs'\<rparr>)
           | (Panic, rs') \<Rightarrow> (Panic, st\<lparr>hu_resolver := rs'\<rparr>)))"

text \<open>Where a packet goes: for a session that was opened with a name, to the address the name had then;
  otherwise to the address of its location. \<^term>\<open>Ok None\<close>: a new location does not resolve.\<close>

definition hy_target ::
  "'r resolution \<Rightarrow> net_location \<Rightarrow> 'l hy_session \<Rightarrow> 'r \<Rightarrow> (socket_addr \<times> 'l hy_session) option res \<times> 'r" where
  "hy_target rslv remote_location us rs =
     (case hs_override_remote_write_address us of
        Some addr \<Rightarrow> (Ok (Some (addr, us)), rs)
      | None \<Rightarrow>
          if remote_location = hs_last_location us then (Ok (Some (hs_last_socket_addr us, us)), rs)
          else
            (case rslv rs remote_location of
               (Ok updated_socket_addr, rs') \<Rightarrow>
                 (Ok (Some (updated_socket_addr,
                   us\<lparr>hs_last_location := remote_location, hs_last_socket_addr := updated_socket_addr\<rparr>)), rs')
             | (Err _, rs') \<Rightarrow> (Ok None, rs')
             | (Panic, rs') \<Rightarrow> (Panic, rs')))"

definition hy_put_session :: "u32 \<Rightarrow> 'l hy_session \<Rightarrow> ('l, 'r, 's) hy_udp \<Rightarrow> ('l, 'r, 's) hy_udp" where
  "hy_put_session i us st = st\<lparr>hu_sessions := (hu_sessions st)(i \<mapsto> us)\<rparr>"

type_synonym 's try_sender = "fd \<Rightarrow> byte list \<Rightarrow> socket_addr \<Rightarrow> 's \<Rightarrow> bool \<times> 's"

text \<open>A complete packet is sent on; if that fails, the session is removed.\<close>

definition hy_send ::
  "'s try_sender \<Rightarrow> 'r resolution \<Rightarrow> u32 \<Rightarrow> 'l hy_session \<Rightarrow> byte list \<Rightarrow> net_location \<Rightarrow>
   (unit, ('l, 'r, 's) hy_udp) io" where
  "hy_send send_to rslv session_id us complete_payload remote_location st =
     (case hy_target rslv remote_location us (hu_resolver st) of
        (Ok (Some (socket_addr, us')), rs') \<Rightarrow>
          (case send_to (hs_send_socket us') complete_payload socket_addr (hu_sys st) of
             (True, s') \<Rightarrow> (Ok (), hy_put_session session_id us' (st\<lparr>hu_resolver := rs', hu_sys := s'\<rparr>))
           | (False, s') \<Rightarrow>
               (Ok (), st\<lparr>hu_resolver := rs', hu_sys := s', hu_sessions := (hu_sessions st)(session_id := None)\<rparr>))
      | (Ok None, rs') \<Rightarrow> (Ok (), st\<lparr>hu_resolver := rs'\<rparr>)
      | (Err e, rs') \<Rightarrow> (Err e, st\<lparr>hu_resolver := rs'\<rparr>)
      | (Panic, rs') \<Rightarrow> (Panic, st\<lparr>hu_resolver := rs'\<rparr>))"

text \<open>One datagram of the client.\<close>

definition handle_datagram ::
  "'l frag_ops \<Rightarrow> 's system \<Rightarrow> 's try_sender \<Rightarrow> 'r resolution \<Rightarrow> instant \<Rightarrow> byte list \<Rightarrow> (unit, ('l, 'r, 's) hy_udp) io" where
  "handle_datagram ops sys send_to rslv now data st =
     (case parse_datagram data of
        Panic \<Rightarrow> (Panic, st)
      | Err e \<Rightarrow> (Err e, st)
      | Ok None \<Rightarrow> (Ok (), st)
      | Ok (Some pd) \<Rightarrow>
          (case from_utf8 (pd_address pd) of
             None \<Rightarrow> (Ok (), st)
           | Some addr_str \<Rightarrow>
               (case net_location_from_str addr_str None of
                  Ok remote_location \<Rightarrow>
                    (case hy_session_for ops sys rslv now (pd_session pd) remote_location st of
                       (Ok (Some us), st1) \<Rightarrow>
                         (case reassemble ops (pd_packet pd) (pd_fragment_id pd) (pd_fragment_count pd)
                                 (pd_payload pd) remote_location (hs_fragments us) of
                            (r, fragments') \<Rightarrow>
                              (let us1 = us\<lparr>hs_fragments := fragments'\<rparr>;
                                   st2 = hy_put_session (pd_session pd) us1 st1
                               in case r of
                                    Ok None \<Rightarrow> (Ok (), st2)
                                  | Ok (Some (complete_payload, location)) \<Rightarrow>
                                      hy_send send_to rslv (pd_session pd) us1 complete_payload location st2
                                  | Err e \<Rightarrow> (Err e, st2)
                                  | Panic \<Rightarrow> (Panic, st2)))
                     | (Ok None, st1) \<Rightarrow> (Ok (), st1)
                     | (Err e, st1) \<Rightarrow> (Err e, st1)
                     | (Panic, st1) \<Rightarrow> (Panic, st1))
                | Err _ \<Rightarrow> (Ok (), st)
                | Panic \<Rightarrow> (Panic, st))))"

text \<open>\<^verbatim>\<open>run_udp_local_to_remote_loop\<close> on the datagrams it reads and the times at the top of its loop; the end of the list
  is waiting for the next.\<close>

fun hy_udp_loop ::
  "'l frag_ops \<Rightarrow> 's system \<Rightarrow> 's try_sender \<Rightarrow> 'r resolution \<Rightarrow> (instant \<times> byte list) list \<Rightarrow> ('l, 'r, 's) hy_udp \<Rightarrow>
   unit res \<times> ('l, 'r, 's) hy_udp" where
  "hy_udp_loop ops sys send_to rslv [] st = (Ok (), st)"
| "hy_udp_loop ops sys send_to rslv ((now, data) # rest) st =
     bind_io (handle_datagram ops sys send_to rslv now data)
       (\<lambda>_. hy_udp_loop ops sys send_to rslv rest) (hy_cleanup now st)"

section \<open>The parser reads the address length as a varint\<close>

lemma parse_datagram_varint:
  assumes "9 \<le> length data"
  shows "parse_datagram data =
    (case decode_varint (drop 8 data) of
       None \<Rightarrow> Panic
     | Some (v, rest) \<Rightarrow>
         if unat v = 0 \<or> unat v > 2048 \<or> length rest < unat v then Ok None
         else Ok (Some \<lparr>pd_session = u32_of_be (slice_of 0 4 data), pd_packet = u16_of_be (slice_of 4 6 data),
                pd_fragment_id = data ! 6, pd_fragment_count = data ! 7,
                pd_address = take (unat v) rest, pd_payload = drop (unat v) rest\<rparr>))"
proof -
  define k where "k = varint_num_bytes (data ! 8) - 1"
  define v where "v = varint_accum (varint_first (data ! 8)) (take k (drop 9 data))"
  have d: "drop 8 data = data ! 8 # drop 9 data"
    using assms Cons_nth_drop_Suc [of 8 data] by simp
  have dec: "decode_varint (drop 8 data) = (if length data - 9 < k then None else Some (v, drop k (drop 9 data)))"
    unfolding d decode_varint.simps Let_def length_drop v_def k_def by (rule refl)
  have panics: "varint_num_bytes (data ! 8) > 1 \<and> length data < 9 + k \<longleftrightarrow> length data - 9 < k"
    using assms unfolding k_def by linarith
  have sl: "slice_of 9 (9 + k) data = take k (drop 9 data)" "slice_of (9 + k) (9 + k + n) data = take n (drop k (drop 9 data))"
    "drop (9 + k + n) data = drop n (drop k (drop 9 data))" for n
    by (simp_all add: slice_of_def add.commute add.left_commute)
  have bound: "length data < 9 + k + n \<longleftrightarrow> length (drop k (drop 9 data)) < n" if "\<not> length data - 9 < k" for n
    using that assms by auto
  have short: "\<not> length data < 9" using assms by simp
  show ?thesis
  proof (cases "length data - 9 < k")
    case True
    then show ?thesis
      unfolding parse_datagram_def Let_def k_def [symmetric] panics dec if_not_P [OF short] by simp
  next
    case False
    show ?thesis
      unfolding parse_datagram_def Let_def k_def [symmetric] panics dec if_not_P [OF short] if_not_P [OF False] sl
        bound [OF False] v_def [symmetric] option.case prod.case
      by (simp only: if_bool_eq_disj simp_thms split: if_split) blast
  qed
qed

lemma parse_datagram_panics:
  "parse_datagram data = Panic \<longleftrightarrow> 9 \<le> length data \<and> decode_varint (drop 8 data) = None"
proof (cases "9 \<le> length data")
  case True
  then show ?thesis by (auto simp: parse_datagram_varint split: option.splits)
next
  case False
  then show ?thesis by (simp add: parse_datagram_def)
qed

lemma parse_datagram_build:
  assumes "encode_varint (of_nat (length address)) = Ok lenb" and "address \<noteq> []" and "length address \<le> 2048"
  shows "parse_datagram (build_datagram sid pid i n lenb address payload) =
    Ok (Some \<lparr>pd_session = sid, pd_packet = pid, pd_fragment_id = i, pd_fragment_count = n,
              pd_address = address, pd_payload = payload\<rparr>)"
proof -
  let ?data = "build_datagram sid pid i n lenb address payload"
  let ?rest = "address @ payload"
  have data: "?data = (u32_be sid @ u16_be pid @ [i, n]) @ (lenb @ ?rest)"
    by (simp add: build_datagram_def)
  have dec: "decode_varint (lenb @ ?rest) = Some (of_nat (length address), ?rest)"
    by (rule encode_varint_decodes [OF assms(1)])
  have "lenb \<noteq> []" using dec encode_varint_decodes [OF assms(1), of "[]"] by (cases lenb) auto
  then have "9 \<le> length ?data" unfolding data by (cases lenb) simp_all
  moreover have "drop 8 ?data = lenb @ ?rest" unfolding data by simp
  moreover have "unat (of_nat (length address) :: u64) = length address"
    using assms(3) by (simp add: unat_of_nat)
  moreover have "slice_of 0 4 ?data = u32_be sid" "slice_of 4 6 ?data = u16_be pid"
    unfolding data by (simp_all add: slice_of_def)
  moreover have "?data ! 6 = i" "?data ! 7 = n" unfolding data by (simp_all add: nth_append)
  ultimately show ?thesis
    using assms(2,3) dec by (simp add: parse_datagram_varint)
qed

section \<open>The pieces of a payload\<close>

definition fragment_of :: "nat \<Rightarrow> byte list \<Rightarrow> nat \<Rightarrow> byte list" where
  "fragment_of avail payload i = slice_of (i * avail) (min (i * avail + avail) (length payload)) payload"

lemma fragment_of_take: "fragment_of avail payload i = take avail (drop (i * avail) payload)"
  by (simp add: fragment_of_def slice_of_def min_def)

lemma concat_fragments: "concat (map (fragment_of avail payload) [0..<k]) = take (k * avail) payload"
  by (induction k) (simp_all add: fragment_of_take take_add add.commute [of avail])

lemma div_ceil_covers: "0 < b \<Longrightarrow> a \<le> div_ceil a b * b"
proof -
  assume b: "0 < b"
  have "a + b - 1 < (a + b - 1) div b * b + b"
    using dividend_less_div_times [OF b, of "a + b - 1"] by simp
  then show ?thesis using b by (simp add: div_ceil_def)
qed

lemma div_ceil_le: "a \<le> k * b \<Longrightarrow> 0 < b \<Longrightarrow> div_ceil a b \<le> k"
proof -
  assume ab: "a \<le> k * b" "0 < b"
  then have "a + b - 1 < Suc k * b" by (cases b) simp_all
  then have "(a + b - 1) div b < Suc k" by (rule less_mult_imp_div_less)
  then show ?thesis by (simp add: div_ceil_def)
qed

lemma div_ceil_gt1: "0 < b \<Longrightarrow> b < a \<Longrightarrow> 2 \<le> div_ceil a b"
  using div_le_mono [of "2 * b" "a + b - 1" b] by (simp add: div_ceil_def)

end
