(* ===== verification/Hysteria_Reassembly.thy ===== *)
theory Hysteria_Reassembly
  imports Hysteria_Udp "HOL-Library.Multiset"
begin

text \<open>
  Fragments of \<^verbatim>\<open>src/hysteria2.rs\<close>: reassembly through the cache is \<open>frag_step\<close> on the entry of one packet, whatever cache
  keeps the laws of \<open>frag_cache\<close>; the fragments that the sender makes of a packet give it back in any order.
\<close>

section \<open>One packet\<close>

text \<open>Reassembly without the cache: the entry of a packet, made by its first fragment, and what a fragment does to it.
  The second component is the entry that stays.\<close>

definition entry_for :: "byte \<Rightarrow> net_location \<Rightarrow> fragmented_packet option \<Rightarrow> fragmented_packet" where
  "entry_for n loc x =
     (case x of
        Some e \<Rightarrow> e
      | None \<Rightarrow> \<lparr>fp_fragment_count = n, fp_fragment_received = 0, fp_packet_len = 0,
                 fp_received = replicate (unat n) None, fp_remote_location = loc\<rparr>)"

definition frag_step ::
  "nat \<Rightarrow> byte \<Rightarrow> byte list \<Rightarrow> fragmented_packet \<Rightarrow>
   (byte list \<times> net_location) option res \<times> fragmented_packet option" where
  "frag_step i n payload e =
     (if fp_fragment_count e \<noteq> n then (Ok None, None)
      else if \<not> i < length (fp_received e) then (Panic, Some e)
      else if fp_received e ! i \<noteq> None then (Ok None, None)
      else
        let e' = add_fragment i payload e
        in if fp_fragment_received e' \<noteq> fp_fragment_count e' then (Ok None, Some e')
           else (if None \<in> set (fp_received e') then Panic
                 else Ok (Some (concat (map the (fp_received e')), fp_remote_location e')), None))"

text \<open>An entry misses at least one fragment, and its fragments are counted right.\<close>

definition frag_ok :: "fragmented_packet \<Rightarrow> bool" where
  "frag_ok e \<longleftrightarrow> length (fp_received e) = unat (fp_fragment_count e) \<and>
     length (filter (\<lambda>x. x \<noteq> None) (fp_received e)) = unat (fp_fragment_received e) \<and>
     unat (fp_fragment_received e) < unat (fp_fragment_count e)"

lemma filled_update:
  "i < length xs \<Longrightarrow> xs ! i = None \<Longrightarrow>
   length (filter (\<lambda>x. x \<noteq> None) (xs[i := Some y])) = Suc (length (filter (\<lambda>x. x \<noteq> None) xs))"
  by (induction xs arbitrary: i) (auto split: nat.splits simp: nth_Cons')

lemma all_filled: "length (filter (\<lambda>x. x \<noteq> None) xs) = length xs \<longleftrightarrow> None \<notin> set xs"
  by (metis (mono_tags) filter_True filter_id_conv length_filter_less less_irrefl)

lemma unat_byte_Suc: "unat (a :: byte) < unat (b :: byte) \<Longrightarrow> unat (a + 1) = Suc (unat a)"
  using unat_byte_less [of b] by (simp add: unat_word_ariths)

lemma entry_for_ok: "(\<And>e. x = Some e \<Longrightarrow> frag_ok e) \<Longrightarrow> n \<noteq> 0 \<Longrightarrow> frag_ok (entry_for n loc x)"
  unfolding entry_for_def by (cases x) (simp_all add: frag_ok_def unat_gt_0)

lemma add_fragment_ok:
  assumes "frag_ok e" and "i < length (fp_received e)" and "fp_received e ! i = None"
  shows "fp_fragment_received e + 1 \<noteq> fp_fragment_count e \<Longrightarrow> frag_ok (add_fragment i payload e)"
    "fp_fragment_received e + 1 = fp_fragment_count e \<Longrightarrow> None \<notin> set ((fp_received e)[i := Some payload])"
proof -
  have cnt: "unat (fp_fragment_received e + 1) = Suc (unat (fp_fragment_received e))"
    using assms(1) unat_byte_Suc unfolding frag_ok_def by blast
  have filled: "length (filter (\<lambda>x. x \<noteq> None) ((fp_received e)[i := Some payload])) = unat (fp_fragment_received e + 1)"
    using assms filled_update [OF assms(2,3)] unfolding cnt frag_ok_def by simp
  show "frag_ok (add_fragment i payload e)" if "fp_fragment_received e + 1 \<noteq> fp_fragment_count e"
  proof -
    have "unat (fp_fragment_received e + 1) \<noteq> unat (fp_fragment_count e)"
      using that by (simp add: word_unat_eq_iff)
    then show ?thesis
      using assms(1) filled cnt unfolding frag_ok_def add_fragment_def by simp
  qed
  show "None \<notin> set ((fp_received e)[i := Some payload])" if "fp_fragment_received e + 1 = fp_fragment_count e"
    using assms(1) filled that unfolding frag_ok_def all_filled [symmetric] by simp
qed

lemma frag_step_ok:
  assumes "frag_ok e"
  shows "snd (frag_step i n payload e) = Some e' \<Longrightarrow> frag_ok e'"
    and "fst (frag_step i n payload e) = Panic \<longleftrightarrow> fp_fragment_count e = n \<and> unat n \<le> i"
    and "fst (frag_step i n payload e) \<noteq> Err err"
proof -
  have len: "length (fp_received e) = unat (fp_fragment_count e)" using assms by (simp add: frag_ok_def)
  note ok = add_fragment_ok [OF assms, of i payload]
  show "snd (frag_step i n payload e) = Some e' \<Longrightarrow> frag_ok e'"
    using assms ok unfolding frag_step_def Let_def
    by (auto simp: add_fragment_def split: if_splits)
  show "fst (frag_step i n payload e) = Panic \<longleftrightarrow> fp_fragment_count e = n \<and> unat n \<le> i"
    using assms ok len unfolding frag_step_def Let_def
    by (auto simp: add_fragment_def)
  show "fst (frag_step i n payload e) \<noteq> Err err"
    unfolding frag_step_def Let_def by simp
qed

definition frags_ok :: "('l \<Rightarrow> u16 \<Rightarrow> fragmented_packet option) \<Rightarrow> 'l \<Rightarrow> bool" where
  "frags_ok entries l \<longleftrightarrow> (\<forall>k e. entries l k = Some e \<longrightarrow> frag_ok e)"

section \<open>The fragment cache\<close>

text \<open>What the \<^verbatim>\<open>lru\<close> crate documents: a value that was put is there, whatever else had to go.\<close>

locale frag_cache =
  fixes ops :: "'l frag_ops" and entries :: "'l \<Rightarrow> u16 \<Rightarrow> fragmented_packet option"
  assumes new_empty: "entries (fc_new ops n) k = None"
    and contains_iff: "fc_contains ops l k \<longleftrightarrow> entries l k \<noteq> None"
    and put_same: "entries (fc_put ops l k e) k = Some e"
    and put_other: "entries (fc_put ops l k e) j = Some x \<Longrightarrow> j \<noteq> k \<Longrightarrow> entries l j = Some x"
    and get_mut_value: "fst (fc_get_mut ops l k) = entries l k"
    and get_mut_entries: "entries (snd (fc_get_mut ops l k)) = entries l"
    and set_entries: "entries l k \<noteq> None \<Longrightarrow> entries (fc_set ops l k e) = (entries l)(k \<mapsto> e)"
    and pop_value: "fst (fc_pop ops l k) = entries l k"
    and pop_entries: "entries (snd (fc_pop ops l k)) = (entries l)(k := None)"
begin

text \<open>A fragment does to the entry of its packet what \<^const>\<open>frag_step\<close> does, and to others nothing but, at most, evict them.\<close>

lemma reassemble_entries:
  assumes "n \<noteq> 0" and "n \<noteq> 1" and run: "reassemble ops pid i n payload loc l = (r, l')"
  shows "frag_step (unat i) n payload (entry_for n loc (entries l pid)) = (r, entries l' pid)"
    and "\<And>j x. entries l' j = Some x \<Longrightarrow> j \<noteq> pid \<Longrightarrow> entries l j = Some x"
proof -
  define e where "e = entry_for n loc (entries l pid)"
  define e' where "e' = add_fragment (unat i) payload e"
  define l1 where "l1 = (if fc_contains ops l pid then l else fc_put ops l pid e)"
  have "entries l1 pid = Some e"
    unfolding l1_def e_def by (auto simp: contains_iff put_same entry_for_def)
  then obtain l2 where g: "fc_get_mut ops l1 pid = (Some e, l2)"
    using get_mut_value [of l1 pid] by (cases "fc_get_mut ops l1 pid") simp
  have l1: "l1 = (if fc_contains ops l pid then l
           else fc_put ops l pid
             \<lparr>fp_fragment_count = n, fp_fragment_received = 0, fp_packet_len = 0,
              fp_received = replicate (unat n) None, fp_remote_location = loc\<rparr>)"
    unfolding l1_def e_def by (auto simp: contains_iff entry_for_def)
  have l2: "entries l2 = entries l1" using get_mut_entries [of l1 pid] g by simp
  have l2_pid: "entries l2 pid = Some e" using get_mut_value [of l1 pid] g l2 by simp
  have l2_other: "entries l2 j = Some x \<Longrightarrow> j \<noteq> pid \<Longrightarrow> entries l j = Some x" for j x
    unfolding l2 l1_def by (auto split: if_splits dest: put_other)
  obtain p l4 where pop: "fc_pop ops (fc_set ops l2 pid e') pid = (p, l4)" by fastforce
  have p: "p = Some e'" "entries l4 = (entries l2)(pid := None)"
    using pop_value [of "fc_set ops l2 pid e'" pid] pop_entries [of "fc_set ops l2 pid e'" pid] pop l2_pid
    by (simp_all add: set_entries)
  have run': "(r, l') =
      (if fp_fragment_count e \<noteq> n then (Ok None, snd (fc_pop ops l2 pid))
       else if \<not> unat i < length (fp_received e) then (Panic, l2)
       else if fp_received e ! unat i \<noteq> None then (Ok None, snd (fc_pop ops l2 pid))
       else if fp_fragment_received e' \<noteq> fp_fragment_count e' then (Ok None, fc_set ops l2 pid e')
       else if None \<in> set (fp_received e') then (Panic, l4)
       else (Ok (Some (concat (map the (fp_received e')), fp_remote_location e')), l4))"
    using run assms(1,2) unfolding reassemble_def l1 [symmetric] Let_def g e'_def [symmetric] prod.case option.case pop p(1)
    by simp
  show "frag_step (unat i) n payload (entry_for n loc (entries l pid)) = (r, entries l' pid)"
    using run' unfolding frag_step_def Let_def e_def [symmetric] e'_def [symmetric]
    by (simp add: pop_entries p(2) l2_pid set_entries split: if_splits)
  show "\<And>j x. entries l' j = Some x \<Longrightarrow> j \<noteq> pid \<Longrightarrow> entries l j = Some x"
    using run' l2_other by (auto simp: pop_entries p(2) l2_pid set_entries split: if_splits)
qed

text \<open>Every branch keeps the cache well formed, and only a fragment number out of range panics.\<close>

lemma reassemble_safe:
  assumes ok: "frags_ok entries l" and run: "reassemble ops pid i n payload loc l = (r, l')"
  shows "frags_ok entries l'"
    and "r = Panic \<longleftrightarrow> n \<noteq> 0 \<and> n \<noteq> 1 \<and> fp_fragment_count (entry_for n loc (entries l pid)) = n \<and> unat n \<le> unat i"
    and "r \<noteq> Err err"
proof -
  have "frags_ok entries l' \<and> r \<noteq> Err err \<and>
     (r = Panic \<longleftrightarrow> n \<noteq> 0 \<and> n \<noteq> 1 \<and> fp_fragment_count (entry_for n loc (entries l pid)) = n \<and> unat n \<le> unat i)"
  proof (cases "n = 0 \<or> n = 1")
    case True
    then show ?thesis using run ok by (auto simp: reassemble_def)
  next
    case False
    then have n: "n \<noteq> 0" "n \<noteq> 1" by auto
    note entries = reassemble_entries [OF n run]
    have "frag_ok (entry_for n loc (entries l pid))"
      using ok n(1) unfolding frags_ok_def by (intro entry_for_ok) auto
    note step = frag_step_ok [OF this, where payload = payload and i = "unat i" and n = n, unfolded entries(1) fst_conv snd_conv]
    have "frag_ok e" if "entries l' k = Some e" for k e
      using that entries(2) [of k e] step(1) ok unfolding frags_ok_def by (cases "k = pid") auto
    then have "frags_ok entries l'" unfolding frags_ok_def by blast
    then show ?thesis using step(2,3) n by blast
  qed
  then show "frags_ok entries l'"
    and "r = Panic \<longleftrightarrow> n \<noteq> 0 \<and> n \<noteq> 1 \<and> fp_fragment_count (entry_for n loc (entries l pid)) = n \<and> unat n \<le> unat i"
    and "r \<noteq> Err err"
    by blast+
qed

end

section \<open>All fragments of a packet\<close>

text \<open>The fragments of a client, one after the other, with what each gives.\<close>

fun receive_fragments ::
  "'l frag_ops \<Rightarrow> net_location \<Rightarrow> parsed_datagram list \<Rightarrow> 'l \<Rightarrow> (byte list \<times> net_location) option res list \<times> 'l" where
  "receive_fragments ops loc [] l = ([], l)"
| "receive_fragments ops loc (pd # pds) l =
     (case reassemble ops (pd_packet pd) (pd_fragment_id pd) (pd_fragment_count pd) (pd_payload pd) loc l of
        (r, l1) \<Rightarrow> (case receive_fragments ops loc pds l1 of (rs, l2) \<Rightarrow> (r # rs, l2)))"

text \<open>The entry of a packet of \<open>n\<close> fragments of which those in \<open>S\<close> came.\<close>

definition partial_entry :: "nat \<Rightarrow> (nat \<Rightarrow> byte list) \<Rightarrow> net_location \<Rightarrow> nat set \<Rightarrow> fragmented_packet" where
  "partial_entry n frag loc S =
     \<lparr>fp_fragment_count = of_nat n, fp_fragment_received = of_nat (card S), fp_packet_len = (\<Sum>i\<in>S. length (frag i)),
      fp_received = map (\<lambda>i. if i \<in> S then Some (frag i) else None) [0..<n], fp_remote_location = loc\<rparr>"

lemma entry_for_partial: "n < 256 \<Longrightarrow> entry_for (of_nat n) loc None = partial_entry n frag loc {}"
  by (simp add: entry_for_def partial_entry_def unat_of_nat map_replicate_const)

lemma add_partial:
  assumes "i < n" and "i \<notin> S" and "S \<subseteq> {..<n}"
  shows "add_fragment i (frag i) (partial_entry n frag loc S) = partial_entry n frag loc (insert i S)"
proof -
  have "finite S" using assms(3) by (rule finite_subset) simp
  then show ?thesis
    using assms by (auto simp: add_fragment_def partial_entry_def intro!: nth_equalityI simp: nth_list_update)
qed

lemma frag_step_partial:
  assumes "i < n" and "i \<notin> S" and "S \<subseteq> {..<n}" and "n < 256"
  shows "frag_step i (of_nat n) (frag i) (partial_entry n frag loc S) =
    (if insert i S = {..<n} then (Ok (Some (concat (map frag [0..<n]), loc)), None)
     else (Ok None, Some (partial_entry n frag loc (insert i S))))"
proof -
  let ?S = "insert i S"
  have sub: "?S \<subseteq> {..<n}" using assms(1,3) by auto
  have "card ?S \<le> n" using card_mono [OF _ sub] by simp
  then have "(of_nat (card ?S) :: byte) = of_nat n \<longleftrightarrow> card ?S = n"
    using assms(4) by (simp add: word_unat_eq_iff unat_of_nat)
  also have "\<dots> \<longleftrightarrow> ?S = {..<n}" using sub by (metis card_lessThan card_subset_eq finite_lessThan)
  finally have all: "(of_nat (card ?S) :: byte) = of_nat n \<longleftrightarrow> ?S = {..<n}" .
  have "fp_received (partial_entry n frag loc S) ! i = None" "i < length (fp_received (partial_entry n frag loc S))"
    using assms(1,2) by (simp_all add: partial_entry_def)
  then show ?thesis
    unfolding frag_step_def add_partial [OF assms(1-3)] Let_def using all
    by (simp add: partial_entry_def comp_def image_iff) (intro impI arg_cong [where f = concat] map_cong, simp_all)
qed

definition fragment_datagram :: "u32 \<Rightarrow> u16 \<Rightarrow> byte list \<Rightarrow> nat \<Rightarrow> (nat \<Rightarrow> byte list) \<Rightarrow> nat \<Rightarrow> parsed_datagram" where
  "fragment_datagram sid pid address n frag i =
     \<lparr>pd_session = sid, pd_packet = pid, pd_fragment_id = of_nat i, pd_fragment_count = of_nat n,
      pd_address = address, pd_payload = frag i\<rparr>"

lemma pd_of_fragment:
  "pd_packet (fragment_datagram sid pid address n frag i) = pid"
  "pd_fragment_id (fragment_datagram sid pid address n frag i) = of_nat i"
  "pd_fragment_count (fragment_datagram sid pid address n frag i) = of_nat n"
  "pd_payload (fragment_datagram sid pid address n frag i) = frag i"
  by (simp_all add: fragment_datagram_def)

context frag_cache
begin

lemma receive_partial:
  assumes "2 \<le> n" and "n < 256"
  shows "distinct ids \<Longrightarrow> ids \<noteq> [] \<Longrightarrow> set ids \<inter> S = {} \<Longrightarrow> set ids \<union> S = {..<n} \<Longrightarrow>
    entries l pid = (if S = {} then None else Some (partial_entry n frag loc S)) \<Longrightarrow>
    \<exists>l'. receive_fragments ops loc (map (fragment_datagram sid pid address n frag) ids) l =
      (replicate (length ids - 1) (Ok None) @ [Ok (Some (concat (map frag [0..<n]), loc))], l') \<and> entries l' pid = None"
proof (induction ids arbitrary: S l)
  case Nil
  then show ?case by simp
next
  case (Cons i ids)
  have i: "i < n" "i \<notin> S" "S \<subseteq> {..<n}" using Cons.prems(3,4) by auto
  have n: "(of_nat n :: byte) \<noteq> 0" "(of_nat n :: byte) \<noteq> 1"
    using assms by (simp_all add: word_unat_eq_iff unat_of_nat)
  have ui: "unat (of_nat i :: byte) = i" using i(1) assms(2) by (simp add: unat_of_nat)
  obtain r l1 where run: "reassemble ops pid (of_nat i) (of_nat n) (frag i) loc l = (r, l1)" by fastforce
  have "entry_for (of_nat n) loc (entries l pid) = partial_entry n frag loc S"
    using Cons.prems(5) entry_for_partial [OF assms(2)] by (auto simp: entry_for_def [where x = "Some _"])
  with reassemble_entries(1) [OF n run] frag_step_partial [OF i assms(2), of frag loc]
  have step: "(r, entries l1 pid) = (if insert i S = {..<n} then (Ok (Some (concat (map frag [0..<n]), loc)), None)
     else (Ok None, Some (partial_entry n frag loc (insert i S))))"
    by (simp add: ui)
  have rest: "set ids = {..<n} - insert i S" using Cons.prems(1,3,4) by auto
  show ?case
  proof (cases "ids = []")
    case True
    then have "insert i S = {..<n}" using rest i by auto
    then show ?thesis using True step run by (simp add: pd_of_fragment)
  next
    case False
    then have "insert i S \<noteq> {..<n}" using rest by (metis Diff_cancel set_empty)
    then have r: "r = Ok None" "entries l1 pid = Some (partial_entry n frag loc (insert i S))" using step by simp_all
    obtain l' where l': "receive_fragments ops loc (map (fragment_datagram sid pid address n frag) ids) l1 =
      (replicate (length ids - 1) (Ok None) @ [Ok (Some (concat (map frag [0..<n]), loc))], l')" "entries l' pid = None"
    proof -
      have "distinct ids" "set ids \<inter> insert i S = {}" "set ids \<union> insert i S = {..<n}"
        using Cons.prems(1) rest i by auto
      moreover have "entries l1 pid = (if insert i S = {} then None else Some (partial_entry n frag loc (insert i S)))"
        using r(2) by simp
      ultimately show thesis using Cons.IH [OF _ False] that by blast
    qed
    have "replicate (length ids) (Ok None) = (Ok None :: (byte list \<times> net_location) option res) # replicate (length ids - 1) (Ok None)"
      using False by (cases ids) simp_all
    then show ?thesis
      using run r(1) l' by (simp add: pd_of_fragment)
  qed
qed

end

lemma mset_map_lift: "mset xs = mset (map f ys) \<Longrightarrow> \<exists>zs. mset zs = mset ys \<and> xs = map f zs"
proof (induction xs arbitrary: ys)
  case Nil
  then show ?case by simp
next
  case (Cons x xs)
  then have "x \<in> set (map f ys)" by (metis list.set_intros(1) mset_eq_setD)
  then obtain y where "y \<in> set ys" and x: "x = f y" by auto
  then obtain us vs where ys: "ys = us @ y # vs" by (auto dest: split_list)
  then have "mset xs = mset (map f (us @ vs))" using Cons.prems x by simp
  from Cons.IH [OF this] obtain zs where "mset zs = mset (us @ vs)" "xs = map f zs" by blast
  then show ?case using x ys by (intro exI [of _ "y # zs"]) simp
qed

text \<open>What the sender makes of a packet that takes \<open>n\<close> fragments.\<close>

lemma datagrams_for_cases:
  assumes "datagrams_for max_size sid pid address payload = Ok ds"
    and "encode_varint (of_nat (length address)) = Ok lenb"
    and "length payload \<le> 255 * (max_size - (8 + length lenb + length address))"
  obtains
    (whole) "ds = [build_datagram sid pid 0 1 lenb address payload]" "8 + length lenb + length address + length payload \<le> max_size"
  | (split) n avail where "2 \<le> n" "n < 256" "length payload \<le> n * avail" "8 + length lenb + length address + avail = max_size"
      "ds = map (\<lambda>i. build_datagram sid pid (of_nat i) (of_nat n) lenb address (fragment_of avail payload i)) [0..<n]"
proof -
  let ?overhead = "8 + length lenb + length address"
  define avail where "avail = max_size - ?overhead"
  define n where "n = div_ceil (length payload) avail"
  have pos: "?overhead < max_size" using assms(1,2) by (auto simp: datagrams_for_def Let_def split: if_splits)
  then have avail: "0 < avail" "?overhead + avail = max_size" by (simp_all add: avail_def)
  show thesis
  proof (cases "?overhead + length payload \<le> max_size")
    case True
    then show thesis using assms(1,2) pos by (intro whole) (auto simp: datagrams_for_def Let_def)
  next
    case False
    then have "avail < length payload" using avail by linarith
    then have n: "2 \<le> n" "n < 256" "length payload \<le> n * avail"
      using div_ceil_gt1 [OF avail(1)] div_ceil_le [of "length payload" 255 avail] div_ceil_covers [OF avail(1)] assms(3) avail(1)
      unfolding n_def avail_def [symmetric] by force+
    have "unat (of_nat n :: byte) = n" using n(2) by (simp add: unat_of_nat)
    then show thesis
      using assms(1,2) pos False n avail
      by (intro split [of n avail])
         (auto simp: datagrams_for_def Let_def fragment_of_def n_def [symmetric] avail_def [symmetric])
  qed
qed

definition frag_lru_new :: "nat \<Rightarrow> nat \<times> (u16 \<times> fragmented_packet) list" where
  "frag_lru_new cap = (cap - 1, [])"

definition frag_lru_put ::
  "nat \<times> (u16 \<times> fragmented_packet) list \<Rightarrow> u16 \<Rightarrow> fragmented_packet \<Rightarrow> nat \<times> (u16 \<times> fragmented_packet) list" where
  "frag_lru_put l k e = (fst l, (k, e) # take (fst l) (filter (\<lambda>x. fst x \<noteq> k) (snd l)))"

definition frag_lru_drop :: "nat \<times> (u16 \<times> fragmented_packet) list \<Rightarrow> u16 \<Rightarrow> nat \<times> (u16 \<times> fragmented_packet) list" where
  "frag_lru_drop l k = (fst l, filter (\<lambda>x. fst x \<noteq> k) (snd l))"

definition frag_lru_get_mut ::
  "nat \<times> (u16 \<times> fragmented_packet) list \<Rightarrow> u16 \<Rightarrow> fragmented_packet option \<times> nat \<times> (u16 \<times> fragmented_packet) list" where
  "frag_lru_get_mut l k =
     (case map_of (snd l) k of
        None \<Rightarrow> (None, l)
      | Some e \<Rightarrow> (Some e, fst l, (k, e) # filter (\<lambda>x. fst x \<noteq> k) (snd l)))"

definition frag_lru_ops :: "(nat \<times> (u16 \<times> fragmented_packet) list) frag_ops" where
  "frag_lru_ops =
     \<lparr>fc_new = frag_lru_new, fc_contains = (\<lambda>l k. map_of (snd l) k \<noteq> None), fc_put = frag_lru_put, fc_get_mut = frag_lru_get_mut,
      fc_set = (\<lambda>l k e. (fst l, (k, e) # filter (\<lambda>x. fst x \<noteq> k) (snd l))),
      fc_pop = (\<lambda>l k. (map_of (snd l) k, frag_lru_drop l k))\<rparr>"

lemma map_of_filter_neq: "map_of (filter (\<lambda>x. fst x \<noteq> k) xs) = (map_of xs)(k := None)"
  by (induction xs) (auto simp: fun_eq_iff)

lemma map_of_take: "map_of (take n xs) j = Some x \<Longrightarrow> map_of xs j = Some x"
  by (metis append_take_drop_id map_add_find_right map_of_append map_add_Some_iff)

interpretation frag_lru: frag_cache frag_lru_ops "\<lambda>l. map_of (snd l)"
proof unfold_locales
  show "map_of (snd (fc_put frag_lru_ops l k e)) j = Some x \<Longrightarrow> j \<noteq> k \<Longrightarrow> map_of (snd l) j = Some x" for l k e j x
    using map_of_take [of "fst l" "filter (\<lambda>x. fst x \<noteq> k) (snd l)" j x] unfolding frag_lru_ops_def
    by (simp add: frag_lru_put_def map_of_filter_neq)
qed (auto simp: frag_lru_ops_def frag_lru_new_def frag_lru_put_def frag_lru_get_mut_def frag_lru_drop_def map_of_filter_neq fun_eq_iff
       split: option.splits)

lemma length_build_datagram:
  "length (build_datagram sid pid i n lenb address payload) = 8 + length lenb + length address + length payload"
  by (simp add: build_datagram_def)

text \<open>C8. A packet of any size that 255 fragments can carry, for a destination of 1 to 2048 bytes: each datagram fits, each is
  read back with the session, packet and address it was sent with, and in whatever order they arrive the last one, and only
  it, gives exactly the packet, and leaves nothing in the cache.\<close>

theorem fragments_reassembled:
  assumes "frag_cache ops entries" and "entries fragments packet_id = None"
    and "address \<noteq> []" and "length address \<le> 2048"
    and sent: "datagrams_for max_datagram_size session_id packet_id address payload = Ok ds"
    and lenb: "encode_varint (of_nat (length address)) = Ok lenb"
    and room: "length payload \<le> 255 * (max_datagram_size - (8 + length lenb + length address))"
    and arrived: "mset ds' = mset ds"
  shows "(\<forall>d\<in>set ds. length d \<le> max_datagram_size) \<and>
    (\<exists>pds fragments'. map parse_datagram ds' = map (\<lambda>pd. Ok (Some pd)) pds \<and>
       (\<forall>pd\<in>set pds. pd_session pd = session_id \<and> pd_packet pd = packet_id \<and> pd_address pd = address) \<and>
       receive_fragments ops loc pds fragments =
         (replicate (length ds - 1) (Ok None) @ [Ok (Some (payload, loc))], fragments') \<and>
       entries fragments' packet_id = None)"
  using sent lenb room
proof (cases rule: datagrams_for_cases)
  case whole
  then have "ds' = [build_datagram session_id packet_id 0 1 lenb address payload]" using arrived by simp
  with whole show ?thesis
    using assms(2) parse_datagram_build [OF lenb assms(3,4)]
    by (auto simp: length_build_datagram reassemble_def intro!: exI [of _ "[_]"])
next
  case (split n avail)
  let ?frag = "fragment_of avail payload"
  let ?build = "\<lambda>i. build_datagram session_id packet_id (of_nat i) (of_nat n) lenb address (?frag i)"
  obtain ids where ids: "mset ids = mset [0..<n]" "ds' = map ?build ids"
    using mset_map_lift [of ds' ?build "[0..<n]"] arrived split(5) by auto
  have set: "distinct ids" "set ids = {..<n}" "length ids = n"
    using ids(1) mset_eq_imp_distinct_iff [OF ids(1)] mset_eq_setD [OF ids(1)] mset_eq_length [OF ids(1)]
    by (auto simp: atLeast0LessThan)
  let ?pds = "map (fragment_datagram session_id packet_id address n ?frag) ids"
  have "map parse_datagram ds' = map (\<lambda>pd. Ok (Some pd)) ?pds"
    unfolding ids(2) using parse_datagram_build [OF lenb assms(3,4)] by (simp add: fragment_datagram_def)
  moreover have "\<forall>pd\<in>set ?pds. pd_session pd = session_id \<and> pd_packet pd = packet_id \<and> pd_address pd = address"
    by (simp add: fragment_datagram_def)
  moreover have "\<exists>fragments'. receive_fragments ops loc ?pds fragments =
      (replicate (length ids - 1) (Ok None) @ [Ok (Some (concat (map ?frag [0..<n]), loc))], fragments') \<and>
      entries fragments' packet_id = None"
  proof (rule frag_cache.receive_partial [OF assms(1) split(1,2) set(1), where S = "{}"])
    show "ids \<noteq> []" using set(3) split(1) by (cases ids) simp_all
  qed (simp_all add: set(2) assms(2))
  moreover have "concat (map ?frag [0..<n]) = payload" "length ds = length ids"
    using split(3,5) set(3) by (simp_all add: concat_fragments)
  moreover have "\<forall>d\<in>set ds. length d \<le> max_datagram_size"
    using split(4,5) by (auto simp: length_build_datagram fragment_of_take)
  ultimately show ?thesis by (intro conjI exI [of _ ?pds]) simp_all
qed

theorem fragments_reassembled_witness:
  "\<exists>ds. datagrams_for 14 9 5 (bytes_of ''a:1'') [1, 2, 3, 4, 5] = Ok ds \<and> length ds = 3 \<and>
     (\<exists>pds fragments'. map parse_datagram (rev ds) = map (\<lambda>pd. Ok (Some pd)) pds \<and>
        receive_fragments frag_lru_ops (\<lparr>nl_address = Hostname ''a'', nl_port = 1\<rparr>) pds (frag_lru_new 256) =
          ([Ok None, Ok None, Ok (Some ([1, 2, 3, 4, 5], \<lparr>nl_address = Hostname ''a'', nl_port = 1\<rparr>))], fragments'))"
proof -
  let ?l = "\<lparr>nl_address = Hostname ''a'', nl_port = 1\<rparr>"
  have lenb: "encode_varint (of_nat (length (bytes_of ''a:1''))) = Ok [3]"
    by (simp add: encode_varint_def)
  obtain ds where ds: "datagrams_for 14 9 5 (bytes_of ''a:1'') [1, 2, 3, 4, 5] = Ok ds" "length ds = 3"
    using lenb by (simp add: datagrams_for_def Let_def div_ceil_def)
  have addr: "bytes_of ''a:1'' \<noteq> []" "length (bytes_of ''a:1'') \<le> 2048" by (simp_all add: bytes_of_def)
  have fresh: "map_of (snd (frag_lru_new 256)) 5 = None" by (simp add: frag_lru_new_def)
  have room: "length ([1, 2, 3, 4, 5] :: byte list) \<le> 255 * (14 - (8 + length [3 :: byte] + length (bytes_of ''a:1'')))"
    by simp
  have rep: "replicate (length ds - 1) x = [x, x]" for x :: "(byte list \<times> net_location) option res"
    using ds(2) by (simp add: numeral_2_eq_2)
  from fragments_reassembled [OF frag_lru.frag_cache_axioms fresh addr ds(1) lenb room mset_rev, of ?l]
  show ?thesis using ds rep by auto
qed

end
