(* ===== verification/Hysteria_Sessions.thy ===== *)
theory Hysteria_Sessions
  imports Hysteria_Reassembly
begin

text \<open>
  The UDP sessions of \<^verbatim>\<open>src/hysteria2.rs\<close> over time: what a turn of the loop leaves of them, the invariant of the loop, which
  datagrams panic, and how long a session lives.
\<close>

section \<open>Sessions over time\<close>

text \<open>What a turn of the loop may do to the sessions: a session keeps its socket, its task, the address it was bound to
  and the time of its start; any other session was started since.\<close>

definition same_session :: "'l hy_session \<Rightarrow> 'l hy_session \<Rightarrow> bool" where
  "same_session us us' \<longleftrightarrow> hs_send_socket us' = hs_send_socket us \<and> hs_cancel_token us' = hs_cancel_token us \<and>
     hs_override_remote_write_address us' = hs_override_remote_write_address us \<and>
     hs_last_activity us' = hs_last_activity us"

definition hu_evolves :: "('l, 'r, 's) hy_udp \<Rightarrow> ('l, 'r, 's) hy_udp \<Rightarrow> bool" where
  "hu_evolves st st' \<longleftrightarrow> hu_tasks st \<le> hu_tasks st' \<and> hu_cancelled st \<subseteq> hu_cancelled st' \<and>
     (\<forall>i us'. hu_sessions st' i = Some us' \<longrightarrow>
        (\<exists>us. hu_sessions st i = Some us \<and> same_session us us') \<or>
        hu_tasks st \<le> hs_cancel_token us' \<and> hs_cancel_token us' < hu_tasks st')"

lemma same_session_refl [simp]: "same_session us us"
  by (simp add: same_session_def)

lemma same_session_trans: "same_session a b \<Longrightarrow> same_session b c \<Longrightarrow> same_session a c"
  by (simp add: same_session_def)

lemma hu_evolves_trans:
  assumes "hu_evolves a b" and "hu_evolves b c"
  shows "hu_evolves a c"
proof -
  have "(\<exists>us. hu_sessions a i = Some us \<and> same_session us us') \<or>
        hu_tasks a \<le> hs_cancel_token us' \<and> hs_cancel_token us' < hu_tasks c" if c: "hu_sessions c i = Some us'" for i us'
  proof -
    consider (old) us where "hu_sessions b i = Some us" "same_session us us'"
      | (new) "hu_tasks b \<le> hs_cancel_token us'" "hs_cancel_token us' < hu_tasks c"
      using assms(2) c unfolding hu_evolves_def by blast
    then show ?thesis
    proof cases
      case old
      then have "(\<exists>us0. hu_sessions a i = Some us0 \<and> same_session us0 us) \<or>
          hu_tasks a \<le> hs_cancel_token us \<and> hs_cancel_token us < hu_tasks b"
        using assms(1) unfolding hu_evolves_def by blast
      moreover have "hs_cancel_token us' = hs_cancel_token us" using old(2) by (simp add: same_session_def)
      ultimately show ?thesis
        using old(2) assms(2) same_session_trans unfolding hu_evolves_def by (metis order.strict_trans2)
    next
      case new
      then show ?thesis using assms(1) unfolding hu_evolves_def by auto
    qed
  qed
  then show ?thesis using assms unfolding hu_evolves_def by (meson order_trans subset_trans)
qed

lemma hu_evolves_same:
  "hu_sessions st' = hu_sessions st \<Longrightarrow> hu_tasks st' = hu_tasks st \<Longrightarrow> hu_cancelled st' = hu_cancelled st \<Longrightarrow>
   hu_evolves st st'"
  unfolding hu_evolves_def by auto

lemma hu_evolves_cleanup: "hu_evolves st (hy_cleanup now st)"
  unfolding hu_evolves_def hy_cleanup_def by (auto split: option.splits if_splits)

lemma hy_target_same:
  "hy_target rslv loc us rs = (Ok (Some (addr, us')), rs') \<Longrightarrow>
   same_session us us' \<and> hs_fragments us' = hs_fragments us"
  unfolding hy_target_def same_session_def by (auto split: option.splits if_splits prod.splits res.splits)

lemma hu_evolves_put:
  "hu_sessions st i = Some us \<Longrightarrow> same_session us us' \<Longrightarrow> hu_evolves st (hy_put_session i us' st)"
  unfolding hu_evolves_def hy_put_session_def by auto

lemma hu_evolves_send:
  assumes "hu_sessions st i = Some us" and "hy_send send_to rslv i us payload loc st = (r, st')"
  shows "hu_evolves st st'"
proof -
  obtain t rs' where t: "hy_target rslv loc us (hu_resolver st) = (t, rs')" by fastforce
  show ?thesis
  proof (cases "\<exists>addr us'. t = Ok (Some (addr, us'))")
    case True
    then obtain addr us' where t': "t = Ok (Some (addr, us'))" by blast
    have same: "same_session us us'" using hy_target_same [OF t [unfolded t']] by blast
    obtain b s' where b: "send_to (hs_send_socket us') payload addr (hu_sys st) = (b, s')" by fastforce
    show ?thesis
      using assms same unfolding hy_send_def t t'
      by (cases b) (auto simp: b hu_evolves_def hy_put_session_def split: if_splits)
  next
    case False
    then have "hu_sessions st' = hu_sessions st" "hu_tasks st' = hu_tasks st" "hu_cancelled st' = hu_cancelled st"
      using assms(2) unfolding hy_send_def t by (auto split: res.splits option.splits)
    then show ?thesis by (rule hu_evolves_same)
  qed
qed

lemma hy_session_for_evolves:
  assumes "hy_session_for ops sys rslv now i loc st = (r, st')"
  shows "hu_evolves st st'"
    and "r = Ok (Some us) \<Longrightarrow> hu_sessions st' i = Some us"
  using assms unfolding hy_session_for_def hu_evolves_def
  by (auto simp: hy_session_start_def Let_def split: option.splits prod.splits res.splits if_splits)

text \<open>The ways a datagram is handled.\<close>

lemma handle_datagram_cases:
  assumes "handle_datagram ops sys send_to rslv now data st = (r, st')"
  obtains
    (cut) "parse_datagram data = Panic" "r = Panic" "st' = st"
  | (ignored) "parse_datagram data \<noteq> Panic" "r \<noteq> Panic" "st' = st"
  | (dropped) pd loc r1 where "parse_datagram data = Ok (Some pd)"
      "hy_session_for ops sys rslv now (pd_session pd) loc st = (r1, st')" "\<And>us. r1 \<noteq> Ok (Some us)" "r = Panic \<longleftrightarrow> r1 = Panic"
  | (fragment) pd loc us st1 r2 fr us' st2 where "parse_datagram data = Ok (Some pd)"
      "hy_session_for ops sys rslv now (pd_session pd) loc st = (Ok (Some us), st1)"
      "reassemble ops (pd_packet pd) (pd_fragment_id pd) (pd_fragment_count pd) (pd_payload pd) loc (hs_fragments us) = (r2, fr)"
      "us' = us\<lparr>hs_fragments := fr\<rparr>" "st2 = hy_put_session (pd_session pd) us' st1"
      "(\<forall>p. r2 \<noteq> Ok (Some p)) \<and> st' = st2 \<and> (r = Panic \<longleftrightarrow> r2 = Panic) \<or>
       (\<exists>payload l. r2 = Ok (Some (payload, l)) \<and> hy_send send_to rslv (pd_session pd) us' payload l st2 = (r, st'))"
proof (cases "\<exists>pd a loc. parse_datagram data = Ok (Some pd) \<and> from_utf8 (pd_address pd) = Some a \<and>
    net_location_from_str a None = Ok loc")
  case False
  then show thesis
    using assms cut ignored net_location_no_panic unfolding handle_datagram_def by (auto split: res.splits option.splits)
next
  case True
  then obtain pd a loc where p: "parse_datagram data = Ok (Some pd)" "from_utf8 (pd_address pd) = Some a"
    "net_location_from_str a None = Ok loc" by blast
  obtain r1 st1 where s1: "hy_session_for ops sys rslv now (pd_session pd) loc st = (r1, st1)" by fastforce
  show thesis
  proof (cases "\<exists>us. r1 = Ok (Some us)")
    case False
    then have "st' = st1" "r = Panic \<longleftrightarrow> r1 = Panic"
      using assms p s1 unfolding handle_datagram_def by (auto split: res.splits option.splits)
    then show ?thesis using dropped p(1) s1 False by blast
  next
    case True
    then obtain us where us: "r1 = Ok (Some us)" by blast
    obtain r2 fr where r2: "reassemble ops (pd_packet pd) (pd_fragment_id pd) (pd_fragment_count pd) (pd_payload pd) loc
        (hs_fragments us) = (r2, fr)" by fastforce
    show ?thesis
      by (rule fragment [OF p(1) s1 [unfolded us] r2 refl refl])
         (use assms(1) p s1 us r2 in \<open>auto simp: handle_datagram_def Let_def split: res.splits option.splits\<close>)
  qed
qed

lemma hu_evolves_datagram:
  assumes "handle_datagram ops sys send_to rslv now data st = (r, st')"
  shows "hu_evolves st st'"
  using assms
proof (cases rule: handle_datagram_cases)
  case (dropped pd loc r1)
  from hy_session_for_evolves(1) [OF dropped(2)] show ?thesis .
next
  case (fragment pd loc us st1 r2 fr us' st2)
  note ev1 = hy_session_for_evolves [OF fragment(2)]
  have "hu_evolves st1 st2"
    unfolding fragment(4,5) by (rule hu_evolves_put [OF ev1(2) [OF refl]]) (simp add: same_session_def)
  then have "hu_evolves st st2" using ev1(1) by (rule hu_evolves_trans [rotated])
  moreover have "hu_sessions st2 (pd_session pd) = Some us'" unfolding fragment(5) by (simp add: hy_put_session_def)
  ultimately show ?thesis using fragment(6) hu_evolves_send hu_evolves_trans by blast
qed (auto intro: hu_evolves_same)

lemma hu_evolves_loop:
  "hy_udp_loop ops sys send_to rslv evs st = (r, st') \<Longrightarrow> hu_evolves st st'"
proof (induction evs arbitrary: st r st')
  case Nil
  then show ?case by (auto intro: hu_evolves_same)
next
  case (Cons ev evs)
  obtain now data where ev: "ev = (now, data)" by fastforce
  obtain r1 st1 where h: "handle_datagram ops sys send_to rslv now data (hy_cleanup now st) = (r1, st1)" by fastforce
  then have ev1: "hu_evolves st st1"
    using hu_evolves_datagram hu_evolves_cleanup hu_evolves_trans by blast
  have "st' = st1 \<or> hy_udp_loop ops sys send_to rslv evs st1 = (r, st')"
    using Cons.prems h ev by (auto simp: bind_io_def split: res.splits)
  then show ?case using ev1 Cons.IH hu_evolves_trans by blast
qed

text \<open>C40. A session is dropped, and the task that carries its answers cancelled, at the first cleanup more than a minute after
  it was started, however many datagrams it carried in between: its last activity is the time of its start.\<close>

theorem active_session_expires:
  assumes "hu_sessions st i = Some us" and "hs_cancel_token us < hu_tasks st"
    and "hy_udp_loop ops sys send_to rslv datagrams st = (Ok (), st')"
    and "hu_sessions st' i = Some us'" and "hs_cancel_token us' = hs_cancel_token us"
    and "now - hs_last_activity us > secs 60" and "now - hu_last_cleanup st' > secs 10"
  shows "hu_sessions (hy_cleanup now st') i = None \<and> hs_cancel_token us \<in> hu_cancelled (hy_cleanup now st')"
proof -
  have "hu_evolves st st'" using assms(3) by (rule hu_evolves_loop)
  then have "same_session us us'"
    using assms(1,2,4,5) unfolding hu_evolves_def by fastforce
  then have "hs_last_activity us' = hs_last_activity us" by (simp add: same_session_def)
  then have "hy_idle now us'" using assms(6) by (simp add: hy_idle_def)
  moreover have "us' \<in> ran (hu_sessions st')" using assms(4) by (rule ranI)
  ultimately show ?thesis using assms(4,5,7) by (auto simp: hy_cleanup_def)
qed

lemma named_session_pinned:
  assumes "hu_sessions st i = Some us" and "hs_override_remote_write_address us = Some addr"
    and "hs_cancel_token us < hu_tasks st"
    and "hy_udp_loop ops sys send_to rslv datagrams st = (Ok (), st')"
    and "hu_sessions st' i = Some us'" and "hs_cancel_token us' = hs_cancel_token us"
  shows "hy_target rslv loc us' rs = (Ok (Some (addr, us')), rs)"
proof -
  have "hu_evolves st st'" using assms(4) by (rule hu_evolves_loop)
  then have "same_session us us'"
    using assms(1,3,5,6) unfolding hu_evolves_def by fastforce
  then show ?thesis using assms(2) by (simp add: same_session_def hy_target_def)
qed

definition demo_datagram :: "byte list" where
  "demo_datagram = build_datagram 9 5 0 1 [4] (bytes_of ''zz:1'') [1, 2, 3]"

lemma demo_datagram_parsed:
  "parse_datagram demo_datagram = Ok (Some
     \<lparr>pd_session = 9, pd_packet = 5, pd_fragment_id = 0, pd_fragment_count = 1,
      pd_address = bytes_of ''zz:1'', pd_payload = [1, 2, 3]\<rparr>)"
  unfolding demo_datagram_def
  by (rule parse_datagram_build) (simp_all add: encode_varint_def bytes_of_def)

text \<open>A session that was opened at time 0 with a name, and a datagram for it half a minute later.\<close>

definition demo_hy_session :: "(nat \<times> (u16 \<times> fragmented_packet) list) hy_session" where
  "demo_hy_session = hy_session_start frag_lru_ops 0 3 demo_name (SockV4 1 1) (Some (SockV4 1 1)) 0"

definition demo_hy_udp :: "(nat \<times> (u16 \<times> fragmented_packet) list, unit, unit) hy_udp" where
  "demo_hy_udp = \<lparr>hu_sessions = [9 \<mapsto> demo_hy_session], hu_last_cleanup = 0, hu_resolver = (), hu_sys = (),
     hu_tasks = 1, hu_cancelled = {}\<rparr>"

definition demo_silent :: "unit system" where
  "demo_silent = (\<lambda>c s. (Ok 3, s))"

definition demo_send :: "unit try_sender" where
  "demo_send = (\<lambda>fd data addr s. (True, s))"

definition demo_lookup :: "unit resolution" where
  "demo_lookup = (\<lambda>rs l. (Ok (SockV4 1 1), rs))"

lemma demo_handled:
  "hy_udp_loop frag_lru_ops demo_silent demo_send demo_lookup [(secs 9, demo_datagram)] demo_hy_udp = (Ok (), demo_hy_udp)"
proof -
  have "hy_cleanup (secs 9) demo_hy_udp = demo_hy_udp" by (simp add: hy_cleanup_def demo_hy_udp_def secs_def)
  moreover have "handle_datagram frag_lru_ops demo_silent demo_send demo_lookup now demo_datagram demo_hy_udp = (Ok (), demo_hy_udp)" for now
    unfolding handle_datagram_def demo_datagram_parsed
    by (simp add: demo_utf8 demo_name_parsed hy_session_for_def demo_hy_udp_def reassemble_def hy_send_def hy_target_def
        demo_hy_session_def hy_session_start_def demo_send_def hy_put_session_def)
  ultimately show ?thesis by (simp add: bind_io_def)
qed

theorem active_session_expires_witness:
  "hu_sessions demo_hy_udp 9 = Some demo_hy_session \<and>
   hu_sessions (hy_cleanup (secs 61) (snd (hy_udp_loop frag_lru_ops demo_silent demo_send demo_lookup
     [(secs 9, demo_datagram)] demo_hy_udp))) 9 = None"
proof -
  have s: "hu_sessions demo_hy_udp 9 = Some demo_hy_session" by (simp add: demo_hy_udp_def)
  have t: "hs_cancel_token demo_hy_session < hu_tasks demo_hy_udp"
    by (simp add: demo_hy_udp_def demo_hy_session_def hy_session_start_def)
  have "secs 61 - hs_last_activity demo_hy_session > secs 60" "secs 61 - hu_last_cleanup demo_hy_udp > secs 10"
    by (simp_all add: demo_hy_udp_def demo_hy_session_def hy_session_start_def secs_def)
  from active_session_expires [OF s t demo_handled s refl this] s show ?thesis unfolding demo_handled by simp
qed

section \<open>The invariant of the loop\<close>

definition hu_ok :: "('l \<Rightarrow> u16 \<Rightarrow> fragmented_packet option) \<Rightarrow> ('l, 'r, 's) hy_udp \<Rightarrow> bool" where
  "hu_ok entries st \<longleftrightarrow>
     (\<forall>i us. hu_sessions st i = Some us \<longrightarrow> frags_ok entries (hs_fragments us) \<and> hs_cancel_token us < hu_tasks st \<and>
        hs_cancel_token us \<notin> hu_cancelled st) \<and>
     (\<forall>i j us us'. hu_sessions st i = Some us \<longrightarrow> hu_sessions st j = Some us' \<longrightarrow>
        hs_cancel_token us = hs_cancel_token us' \<longrightarrow> i = j) \<and>
     (\<forall>t\<in>hu_cancelled st. t < hu_tasks st)"

lemma hu_ok_cleanup: "hu_ok entries st \<Longrightarrow> hu_ok entries (hy_cleanup now st)"
proof -
  assume ok: "hu_ok entries st"
  have "hs_cancel_token us \<noteq> hs_cancel_token us'"
    if us: "hu_sessions st i = Some us" "\<not> hy_idle now us" and us': "us' \<in> ran (hu_sessions st)" "hy_idle now us'" for i us us'
  proof
    obtain j where j: "hu_sessions st j = Some us'" using us'(1) by (auto simp: ran_def)
    assume "hs_cancel_token us = hs_cancel_token us'"
    then have "i = j" using ok us(1) j unfolding hu_ok_def by blast
    then show False using us us'(2) j by simp
  qed
  moreover have "\<And>us. us \<in> ran (hu_sessions st) \<Longrightarrow> hs_cancel_token us < hu_tasks st"
    using ok unfolding hu_ok_def ran_def by blast
  moreover have "hu_sessions (hy_cleanup now st) i = Some us \<longleftrightarrow>
      hu_sessions st i = Some us \<and> (now - hu_last_cleanup st > secs 10 \<longrightarrow> \<not> hy_idle now us)" for i us
    unfolding hy_cleanup_def by (auto split: option.splits)
  moreover have "hu_cancelled (hy_cleanup now st) = hu_cancelled st \<union> (if now - hu_last_cleanup st > secs 10
      then {hs_cancel_token us | us. us \<in> ran (hu_sessions st) \<and> hy_idle now us} else {})"
    "hu_tasks (hy_cleanup now st) = hu_tasks st"
    unfolding hy_cleanup_def by simp_all
  ultimately show ?thesis
    using ok unfolding hu_ok_def by (auto split: if_splits)
qed

lemma hu_ok_put:
  assumes "hu_ok entries st" and "hu_sessions st i = Some us" and "same_session us us'"
    and "frags_ok entries (hs_fragments us')"
  shows "hu_ok entries (hy_put_session i us' st)"
  using assms unfolding hu_ok_def hy_put_session_def same_session_def
  by (simp split: if_splits) metis

lemma hu_ok_drop: "hu_ok entries st \<Longrightarrow> hu_ok entries (st\<lparr>hu_sessions := (hu_sessions st)(i := None)\<rparr>)"
  unfolding hu_ok_def by (simp split: if_splits)

lemma hu_ok_same:
  "hu_sessions st' = hu_sessions st \<Longrightarrow> hu_tasks st' = hu_tasks st \<Longrightarrow> hu_cancelled st' = hu_cancelled st \<Longrightarrow>
   hu_ok entries st' = hu_ok entries st"
  unfolding hu_ok_def by simp

lemma hu_ok_send:
  assumes "hu_ok entries st" and "hu_sessions st i = Some us"
    and "hy_send send_to rslv i us payload loc st = (r, st')"
  shows "hu_ok entries st'"
proof -
  obtain t rs' where t: "hy_target rslv loc us (hu_resolver st) = (t, rs')" by fastforce
  show ?thesis
  proof (cases "\<exists>addr us'. t = Ok (Some (addr, us'))")
    case True
    then obtain addr us' where t': "t = Ok (Some (addr, us'))" by blast
    have same: "same_session us us'" "hs_fragments us' = hs_fragments us"
      using hy_target_same [OF t [unfolded t']] by auto
    obtain b s' where b: "send_to (hs_send_socket us') payload addr (hu_sys st) = (b, s')" by fastforce
    let ?st = "st\<lparr>hu_resolver := rs', hu_sys := s'\<rparr>"
    have ok: "hu_ok entries ?st" using assms(1) by (simp add: hu_ok_def)
    have "hu_ok entries (hy_put_session i us' ?st)"
      by (rule hu_ok_put [OF ok _ same(1)]) (use assms same(2) in \<open>auto simp: hu_ok_def\<close>)
    moreover have "st' = hy_put_session i us' ?st \<or> st' = ?st\<lparr>hu_sessions := (hu_sessions ?st)(i := None)\<rparr>"
      using assms(3) unfolding hy_send_def t t' by (cases b) (auto simp: b)
    ultimately show ?thesis using hu_ok_drop [OF ok] by blast
  next
    case False
    then have "hu_sessions st' = hu_sessions st" "hu_tasks st' = hu_tasks st" "hu_cancelled st' = hu_cancelled st"
      using assms(3) unfolding hy_send_def t by (auto split: res.splits option.splits)
    then show ?thesis using assms(1) hu_ok_same by blast
  qed
qed

lemma hy_send_no_panic:
  assumes "\<And>rs l. fst (rslv rs l) \<noteq> Panic"
  shows "fst (hy_send send_to rslv i us payload loc st) \<noteq> Panic"
proof -
  have "fst (hy_target rslv loc us rs) \<noteq> Panic" for rs
    using assms [of rs loc] unfolding hy_target_def by (auto split: option.splits prod.splits res.splits)
  from this [of "hu_resolver st"] show ?thesis
    unfolding hy_send_def by (auto split: option.splits prod.splits res.splits bool.splits)
qed

lemma byte_at_least_2: "(n :: byte) \<noteq> 0 \<Longrightarrow> n \<noteq> 1 \<Longrightarrow> 1 < unat n"
  by (simp add: word_unat_eq_iff)

lemma hy_session_for_no_panic:
  assumes "\<And>rs l. fst (rslv rs l) \<noteq> Panic" and "\<And>s. fst (new_udp_socket sys True s) \<noteq> Panic"
  shows "fst (hy_session_for ops sys rslv now i loc st) \<noteq> Panic"
  using assms(1) [of "hu_resolver st" loc] assms(2) [of "hu_sys st"]
  unfolding hy_session_for_def Let_def by (auto split: option.splits prod.splits res.splits)

context frag_cache
begin

lemma frags_ok_new: "frags_ok entries (fc_new ops n)"
  by (simp add: frags_ok_def new_empty)

lemma hu_ok_session_for:
  assumes "hu_ok entries st" and "hy_session_for ops sys rslv now i loc st = (r, st')"
  shows "hu_ok entries st'"
proof (cases "hu_sessions st' = hu_sessions st \<and> hu_tasks st' = hu_tasks st")
  case True
  moreover have "hu_cancelled st' = hu_cancelled st"
    using assms(2) unfolding hy_session_for_def by (auto simp: Let_def split: option.splits prod.splits res.splits)
  ultimately show ?thesis using assms(1) hu_ok_same by blast
next
  case False
  then obtain us where st': "hu_sessions st' = (hu_sessions st)(i \<mapsto> us)" "hu_tasks st' = hu_tasks st + 1"
    "hu_cancelled st' = hu_cancelled st" "hs_cancel_token us = hu_tasks st" "hs_fragments us = fc_new ops 256"
    using assms(2) unfolding hy_session_for_def
    by (auto simp: Let_def hy_session_start_def split: option.splits prod.splits res.splits)
  have old: "hu_sessions st j = Some u \<Longrightarrow> hs_cancel_token u < hu_tasks st" for j u
    using assms(1) unfolding hu_ok_def by blast
  moreover have "hu_tasks st \<notin> hu_cancelled st" "\<forall>t\<in>hu_cancelled st. t < hu_tasks st + 1"
    using assms(1) unfolding hu_ok_def by (blast, fastforce)
  ultimately show ?thesis
    using assms(1) frags_ok_new [of 256] unfolding hu_ok_def st'
    by (simp add: st' less_Suc_eq split: if_splits) (metis less_irrefl)
qed

lemma hu_ok_datagram:
  assumes "hu_ok entries st" and "handle_datagram ops sys send_to rslv now data st = (r, st')"
  shows "hu_ok entries st'"
  using assms(2)
proof (cases rule: handle_datagram_cases)
  case (dropped pd loc r1)
  then show ?thesis using hu_ok_session_for assms(1) by blast
next
  case (fragment pd loc us st1 r2 fr us' st2)
  have st1: "hu_ok entries st1" "hu_sessions st1 (pd_session pd) = Some us"
    using hu_ok_session_for [OF assms(1) fragment(2)] hy_session_for_evolves(2) [OF fragment(2) refl] by auto
  then have "frags_ok entries (hs_fragments us)" unfolding hu_ok_def by blast
  then have "frags_ok entries fr" using reassemble_safe(1) fragment(3) by blast
  then have "hu_ok entries st2"
    unfolding fragment(5) by (intro hu_ok_put [OF st1]) (simp_all add: fragment(4) same_session_def)
  moreover have "hu_sessions st2 (pd_session pd) = Some us'" unfolding fragment(5) by (simp add: hy_put_session_def)
  ultimately show ?thesis using fragment(6) hu_ok_send by blast
qed (use assms(1) in simp_all)

lemma hu_ok_loop:
  "hu_ok entries st \<Longrightarrow> hy_udp_loop ops sys send_to rslv evs st = (r, st') \<Longrightarrow> hu_ok entries st'"
proof (induction evs arbitrary: st r st')
  case Nil
  then show ?case by simp
next
  case (Cons ev evs)
  obtain now data where ev: "ev = (now, data)" by fastforce
  obtain r1 st1 where h: "handle_datagram ops sys send_to rslv now data (hy_cleanup now st) = (r1, st1)" by fastforce
  then have "hu_ok entries st1" using hu_ok_datagram hu_ok_cleanup Cons.prems(1) by blast
  moreover have "st' = st1 \<or> hy_udp_loop ops sys send_to rslv evs st1 = (r, st')"
    using Cons.prems(2) h ev by (auto simp: bind_io_def split: res.splits)
  ultimately show ?case using Cons.IH by blast
qed

end

context frag_cache
begin

lemma datagram_panic_cause:
  assumes "hu_ok entries st" and "handle_datagram ops sys send_to rslv now data st = (r, st')" and "r = Panic"
    and "\<And>rs l. fst (rslv rs l) \<noteq> Panic" and "\<And>s. fst (new_udp_socket sys True s) \<noteq> Panic"
  shows "9 \<le> length data \<and> decode_varint (drop 8 data) = None \<or>
    (\<exists>pd. parse_datagram data = Ok (Some pd) \<and> 1 < unat (pd_fragment_count pd) \<and>
       unat (pd_fragment_count pd) \<le> unat (pd_fragment_id pd))"
  using assms(2)
proof (cases rule: handle_datagram_cases)
  case cut
  then show ?thesis by (simp add: parse_datagram_panics)
next
  case ignored
  then show ?thesis using assms(3) by simp
next
  case (dropped pd loc r1)
  have "r1 \<noteq> Panic"
    using hy_session_for_no_panic [where rslv = rslv and sys = sys and st = st, OF assms(4,5), of ops now "pd_session pd" loc] unfolding dropped(2) by simp
  then show ?thesis using dropped(4) assms(3) by simp
next
  case (fragment pd loc us st1 r2 fr us' st2)
  have "hy_send send_to rslv (pd_session pd) us' p l st2 \<noteq> (Panic, st')" for p l
    using hy_send_no_panic [where rslv = rslv and st = st2, OF assms(4), of send_to "pd_session pd" us' p l] by auto
  then have "r2 = Panic" using fragment(6) assms(3) by blast
  have "hu_ok entries st1" "hu_sessions st1 (pd_session pd) = Some us"
    using hu_ok_session_for [OF assms(1) fragment(2)] hy_session_for_evolves(2) [OF fragment(2) refl] by auto
  then have "frags_ok entries (hs_fragments us)" unfolding hu_ok_def by blast
  from reassemble_safe(2) [OF this fragment(3)] \<open>r2 = Panic\<close>
  have "pd_fragment_count pd \<noteq> 0" "pd_fragment_count pd \<noteq> 1" "unat (pd_fragment_count pd) \<le> unat (pd_fragment_id pd)"
    by auto
  then show ?thesis using fragment(1) byte_at_least_2 by blast
qed

end

lemma hu_ok_new: "hu_ok entries (hy_udp_new now rs s)"
  by (simp add: hu_ok_def hy_udp_new_def)



end
