(* ===== verification/Byte_Parser.thy ===== *)
theory Byte_Parser
  imports Stream_Reader Varint
begin

text \<open>
  What a sequence of reads through the buffered reader amounts to: a parser on the bytes that the connection delivers.
  A parser finishes with a value and the rest, finds too few bytes, or rejects. \<open>reads\<close> relates a computation on the reader
  to a parser, \<open>bind_parsed\<close> to the \<^verbatim>\<open>?\<close> operator.
\<close>

datatype 'a parsed = Parsed 'a "byte list" | Short | Rejected io_error

fun bind_parsed :: "'a parsed \<Rightarrow> ('a \<Rightarrow> byte list \<Rightarrow> 'b parsed) \<Rightarrow> 'b parsed" where
  "bind_parsed (Parsed x rest) f = f x rest"
| "bind_parsed Short f = Short"
| "bind_parsed (Rejected e) f = Rejected e"

definition parse_u8 :: "byte list \<Rightarrow> byte parsed" where
  "parse_u8 bs = (case bs of [] \<Rightarrow> Short | b # rest \<Rightarrow> Parsed b rest)"

definition parse_bytes :: "nat \<Rightarrow> byte list \<Rightarrow> byte list parsed" where
  "parse_bytes n bs = (if length bs < n then Short else Parsed (take n bs) (drop n bs))"

lemma parse_bytes_append [simp]: "length xs = n \<Longrightarrow> parse_bytes n (xs @ ys) = Parsed xs ys"
  by (simp add: parse_bytes_def)

context byte_source
begin

text \<open>The computation returns, and what it returns is what the parser says of the bytes, or an error of the source.\<close>

definition reads ::
  "nat \<Rightarrow> ('a res \<times> stream_reader \<times> 's) option \<Rightarrow> 'a parsed \<Rightarrow> bool" where
  "reads cap m p \<longleftrightarrow> (\<exists>r sr s. m = Some (r, sr, s) \<and> reader_ok cap sr s \<and>
     (case r of
        Ok x \<Rightarrow> p = Parsed x (pending_bytes sr s)
      | Err e \<Rightarrow> src_err e \<or> e = eof_while_reading \<and> p = Short \<or> p = Rejected e
      | Panic \<Rightarrow> False))"

lemma reads_return: "reader_ok cap sr s \<Longrightarrow> reads cap (Some (Ok x, sr, s)) (Parsed x (pending_bytes sr s))"
  by (simp add: reads_def)

lemma reads_reject: "reader_ok cap sr s \<Longrightarrow> reads cap (Some (Err e, sr, s)) (Rejected e)"
  by (simp add: reads_def)

lemma reads_bind:
  assumes "reads cap m p"
    and "\<And>x sr s. reader_ok cap sr s \<Longrightarrow> reads cap (f x sr s) (g x (pending_bytes sr s))"
  shows "reads cap (bind_rd m f) (bind_parsed p g)"
proof -
  obtain r sr s where m: "m = Some (r, sr, s)" and ok: "reader_ok cap sr s"
    and post: "case r of
        Ok x \<Rightarrow> p = Parsed x (pending_bytes sr s)
      | Err e \<Rightarrow> src_err e \<or> e = eof_while_reading \<and> p = Short \<or> p = Rejected e
      | Panic \<Rightarrow> False"
    using assms(1) unfolding reads_def by blast
  show ?thesis
  proof (cases r)
    case (Ok x)
    then show ?thesis using post assms(2) [OF ok, of x] unfolding m by (simp add: bind_rd_def)
  next
    case (Err e)
    then show ?thesis using post ok unfolding m reads_def by (auto simp: bind_rd_def)
  qed (use post in simp)
qed

lemma reads_if:
  "(c \<Longrightarrow> reads cap m p) \<Longrightarrow> (\<not> c \<Longrightarrow> reads cap m' p') \<Longrightarrow> reads cap (if c then m else m') (if c then p else p')"
  by simp

lemma reads_u8:
  assumes "reader_ok cap sr s" and "1 \<le> cap"
  shows "reads cap (sr_read_u8 poll_read sr s) (parse_u8 (pending_bytes sr s))"
proof -
  obtain r sr' s' where run: "sr_read_u8 poll_read sr s = Some (r, sr', s')" and ok: "reader_ok cap sr' s'"
    and post: "case r of
        Ok b \<Rightarrow> pending_bytes sr s = b # pending_bytes sr' s'
      | Err e \<Rightarrow> e = eof_while_reading \<and> pending_bytes sr s = [] \<or> src_err e
      | Panic \<Rightarrow> False"
    using sr_read_u8_total [OF assms] by blast
  show ?thesis
    unfolding reads_def run using ok post by (cases r) (auto simp: parse_u8_def)
qed

lemma reads_slice:
  assumes "reader_ok cap sr s" and "n \<le> cap"
  shows "reads cap (sr_read_slice poll_read n sr s) (parse_bytes n (pending_bytes sr s))"
proof -
  obtain r sr' s' where run: "sr_read_slice poll_read n sr s = Some (r, sr', s')" and ok: "reader_ok cap sr' s'"
    and post: "case r of
        Ok bs \<Rightarrow> length bs = n \<and> pending_bytes sr s = bs @ pending_bytes sr' s'
      | Err e \<Rightarrow> e = eof_while_reading \<and> length (pending_bytes sr s) < n \<or> src_err e
      | Panic \<Rightarrow> False"
    using sr_read_slice_total [OF assms] by blast
  show ?thesis
    unfolding reads_def run using ok post by (cases r) (auto simp: parse_bytes_def)
qed

end

section \<open>Varints\<close>

definition parse_varint :: "byte list \<Rightarrow> u64 parsed" where
  "parse_varint bs = (case decode_varint bs of None \<Rightarrow> Short | Some (v, rest) \<Rightarrow> Parsed v rest)"

text \<open>\<^verbatim>\<open>read_varint\<close> of \<^verbatim>\<open>src/hysteria2.rs\<close>.\<close>

definition read_varint ::
  "'s reader \<Rightarrow> stream_reader \<Rightarrow> 's \<Rightarrow> (u64 res \<times> stream_reader \<times> 's) option" where
  "read_varint rd sr s =
     bind_rd (sr_read_u8 rd sr s) (\<lambda>first_byte sr1 s1.
       let value = varint_first first_byte;
           num_bytes = varint_num_bytes first_byte
       in if num_bytes > 1 then
            bind_rd (sr_read_slice rd (num_bytes - 1) sr1 s1) (\<lambda>remaining_bytes sr2 s2.
              Some (Ok (varint_accum value remaining_bytes), sr2, s2))
          else Some (Ok value, sr1, s1))"

lemma parse_varint_steps:
  "parse_varint bs = bind_parsed (parse_u8 bs) (\<lambda>b rest.
     if varint_num_bytes b > 1 then
       bind_parsed (parse_bytes (varint_num_bytes b - 1) rest) (\<lambda>rest_bytes. Parsed (varint_accum (varint_first b) rest_bytes))
     else Parsed (varint_first b) rest)"
  by (cases bs) (auto simp: parse_varint_def parse_u8_def parse_bytes_def Let_def varint_accum_def)

lemma varint_num_bytes_le: "varint_num_bytes b \<le> 8"
  by (simp add: varint_num_bytes_def Let_def)

context byte_source
begin

lemma reads_varint:
  assumes "reader_ok cap sr s" and "7 \<le> cap"
  shows "reads cap (read_varint poll_read sr s) (parse_varint (pending_bytes sr s))"
proof -
  have "varint_num_bytes b - 1 \<le> cap" for b using assms(2) varint_num_bytes_le [of b] by linarith
  then show ?thesis
    unfolding read_varint_def parse_varint_steps Let_def using assms
    by (intro reads_bind reads_if reads_u8 reads_slice reads_return) simp_all
qed

end

end
