(* ===== verification/Copy_Termination.thy ===== *)
theory Copy_Termination
  imports Quic_Stream
begin

text \<open>
  The bidirectional copy comes to an end: over streams that are read and written independently of each other, every
  poll in which the task may go on brings it closer. The rank of a direction is what is left to move, whether the
  end was seen, and how often its streams can still keep it waiting.
\<close>

section \<open>One direction\<close>

definition tadd :: "nat \<times> nat \<times> nat \<Rightarrow> nat \<times> nat \<times> nat \<Rightarrow> nat \<times> nat \<times> nat" where
  "tadd x y = (fst x + fst y, fst (snd x) + fst (snd y), snd (snd x) + snd (snd y))"

definition dir_rank :: "transfer_state \<Rightarrow> copy_buffer \<Rightarrow> byte list \<Rightarrow> nat \<Rightarrow> nat \<Rightarrow> nat \<times> nat \<times> nat" where
  "dir_rank st cb cs rd_delay wr_delay =
     (2 * length cs + length (ring cb) + state_rank st, if cb_read_done cb then 0 else 1, rd_delay + wr_delay)"

lemma rank_less_add:
  "rank_less x y \<Longrightarrow> rank_less (tadd x z) (tadd y z)" "rank_less x y \<Longrightarrow> rank_less (tadd z x) (tadd z y)"
  by (cases x; cases y; cases z; auto simp: rank_less_def tadd_def)+

context copy_dir
begin

abbreviation "rank st cb r w \<equiv> dir_rank st cb (content r) (delay r) (snk_delay w)"

lemma copy_progress:
  "rank_less (copy_rank cb' r' w') (copy_rank cb r w) \<Longrightarrow> rank_less (rank st cb' r' w') (rank st cb r w)"
  by (auto simp: rank_less_def copy_rank_def dir_rank_def)

lemma shutdown_progress:
  assumes "sd_inv w" and "ring cb = []" and "content r = []"
    and "transfer_one_direction proceed rd ops ShuttingDown cb r w = Some (p, st', cb', r', w')"
    and "p = Pending \<or> p = Ready (Ok ())"
  shows "rank_less (rank st' cb' r' w') (rank ShuttingDown cb r w)"
proof -
  obtain q w2 where sd: "op_shutdown ops w = (q, w2)" by (cases "op_shutdown ops w")
  from shutdown_law [OF assms(1) sd] sd assms(2-5) show ?thesis
    by (cases q rule: poll_res_exhaust) (auto simp: dir_rank_def rank_less_def)
qed

lemma transfer_progress:
  assumes ok: "transfer_ok st cb r w"
    and run: "transfer_one_direction proceed rd ops st cb r w = Some (p, st', cb', r', w')"
    and p: "p = Pending \<or> p = Ready (Ok ())"
  shows "rank_less (rank st' cb' r' w') (rank st cb r w) \<or>
    rank st' cb' r' w' = rank st cb r w \<and> (p = Pending \<longrightarrow> \<not> proceed)"
proof (cases st)
  case Done
  then show ?thesis using run by auto
next
  case ShuttingDown
  with ok have "sd_inv w" "ring cb = []" "content r = []" by (simp_all add: transfer_ok_def)
  from shutdown_progress [OF this run [unfolded ShuttingDown] p] show ?thesis unfolding ShuttingDown by blast
next
  case Running
  have cok: "copy_ok cb r w" using ok Running by (simp add: transfer_ok_def)
  show ?thesis
  proof (cases proceed)
    case False
    then show ?thesis using run Running p by (auto simp: poll_copy_def)
  next
    case True
    obtain q cb1 r1 w1 where lp: "copy_loop rd ops cb r w = Some (q, cb1, r1, w1)"
      and post: "round_post cb r w (Some q) cb1 r1 w1"
      using copy_loop_total [OF cok] by blast
    show ?thesis
    proof (cases "q = Ready (Ok ())")
      case fin: True
      with post sd_inv have c: "sd_inv w1" "ring cb1 = []" "content r1 = []"
        by (auto simp: round_post_def copy_ok_def)
      have run1: "transfer_one_direction proceed rd ops ShuttingDown cb1 r1 w1 = Some (p, st', cb', r', w')"
        using run True Running fin lp by (simp add: poll_copy_def del: transfer_one_direction.simps(2))
      have "rank_less (rank ShuttingDown cb1 r1 w1) (rank Running cb r w)"
        using c by (simp add: dir_rank_def rank_less_def)
      with shutdown_progress [OF c run1 p] rank_less_trans Running show ?thesis by blast
    next
      case False
      have "q = p" "st' = Running" "cb' = cb1" "r' = r1" "w' = w1"
        using run True Running False lp by (auto simp: poll_copy_def split: poll.splits res.splits)
      then show ?thesis using post p False Running copy_progress by (auto simp: round_post_def)
    qed
  qed
qed

end

section \<open>Streams that wait independently\<close>

locale steady_duplex = duplex_stream ops content written inv rd_delay wr_delay io_err pings
  for ops :: "'s async_stream" and content written inv rd_delay wr_delay io_err pings +
  assumes steady_read: "byte_source (op_read ops) content (\<lambda>s. inv s \<and> written s = ws \<and> wr_delay s = d) rd_delay io_err"
    and steady_write: "byte_sink (op_write ops) written (\<lambda>s. inv s \<and> content s = cs \<and> rd_delay s = d) wr_delay io_err"
    and steady_flush: "inv s \<Longrightarrow> op_flush ops s = (p, s') \<Longrightarrow> rd_delay s' = rd_delay s"
    and steady_ping: "inv s \<Longrightarrow> op_write_ping ops s = (q, s') \<Longrightarrow> rd_delay s' = rd_delay s"
    and steady_shutdown: "inv s \<Longrightarrow> op_shutdown ops s = (p, s') \<Longrightarrow> rd_delay s' = rd_delay s"

lemma steady_copy_dir:
  assumes a: "steady_duplex opa ca wa inva rda wra ea pa" and b: "steady_duplex opb cb wb invb rdb wrb eb pb"
  shows "copy_dir (op_read opa) ca (\<lambda>s. inva s \<and> wa s = ws \<and> wra s = d) rda ea
    opb wb (\<lambda>s. invb s \<and> cb s = cs \<and> rdb s = e) wrb eb pb (\<lambda>s. invb s \<and> cb s = cs \<and> rdb s = e)"
proof -
  have db: "duplex_stream opb cb wb invb rdb wrb eb pb" using b by (simp add: steady_duplex_def)
  show ?thesis
  proof (intro copy_dir.intro copy_dir_axioms.intro, goal_cases)
    case 1
    show ?case by (rule steady_duplex.steady_read [OF a])
  next
    case 2
    show ?case by (rule steady_duplex.steady_write [OF b])
  next
    case (3 w p w')
    then show ?case using duplex_stream.duplex_flush [OF db, of w p w'] steady_duplex.steady_flush [OF b, of w p w']
      by (auto split: poll.splits res.splits)
  next
    case (4 w p w')
    then show ?case using duplex_stream.duplex_ping [OF db, of w p w'] steady_duplex.steady_ping [OF b, of w p w']
      by (auto split: poll.splits res.splits)
  next
    case (5 w p w')
    then show ?case using duplex_stream.duplex_shutdown [OF db, of w p w'] steady_duplex.steady_shutdown [OF b, of w p w']
      by (auto split: poll.splits res.splits)
  qed simp
qed

text \<open>A poll of one direction: its rank falls, or stays when the task may not go on or has nothing left to do; the streams'
  other sides are left alone.\<close>

lemma steady_transfer:
  assumes a: "steady_duplex opa ca wa inva rda wra ea pa" and b: "steady_duplex opb cb wb invb rdb wrb eb pb"
    and inv: "inva x" "invb y" "dir_ok pb st buf (ca x)"
    and run: "transfer_one_direction proceed (op_read opa) opb st buf x y = Some (p, st', buf', x', y')"
  shows "wra x' = wra x" and "rdb y' = rdb y"
    and "p = Pending \<or> p = Ready (Ok ()) \<Longrightarrow>
      rank_less (dir_rank st' buf' (ca x') (rda x') (wrb y')) (dir_rank st buf (ca x) (rda x) (wrb y)) \<or>
      dir_rank st' buf' (ca x') (rda x') (wrb y') = dir_rank st buf (ca x) (rda x) (wrb y) \<and> (p = Pending \<longrightarrow> \<not> proceed)"
proof -
  note cd = steady_copy_dir [OF a b, of "wa x" "wra x" "cb y" "rdb y"]
  note defs = copy_dir.transfer_ok_def [OF cd] copy_dir.copy_ok_def [OF cd] copy_dir.fill_ok_def [OF cd]
    copy_dir.poll_post_def [OF cd] copy_dir.all_bytes_def [OF cd]
  have ok: "copy_dir.transfer_ok ca (\<lambda>s. inva s \<and> wa s = wa x \<and> wra s = wra x) (\<lambda>s. invb s \<and> cb s = cb y \<and> rdb s = rdb y) pb
      (\<lambda>s. invb s \<and> cb s = cb y \<and> rdb s = rdb y) st buf x y"
    using inv by (cases st) (auto simp: defs dir_ok_def)
  have post: "copy_dir.poll_post ca (\<lambda>s. inva s \<and> wa s = wa x \<and> wra s = wra x) ea wb (\<lambda>s. invb s \<and> cb s = cb y \<and> rdb s = rdb y)
      eb pb (\<lambda>s. invb s \<and> cb s = cb y \<and> rdb s = rdb y) buf x y p st' buf' x' y'"
    using copy_dir.transfer_poll [OF cd ok, of proceed] run by auto
  show "wra x' = wra x" "rdb y' = rdb y"
    using post by (cases st'; auto simp: defs split: poll.splits res.splits)+
  show "p = Pending \<or> p = Ready (Ok ()) \<Longrightarrow>
      rank_less (dir_rank st' buf' (ca x') (rda x') (wrb y')) (dir_rank st buf (ca x) (rda x) (wrb y)) \<or>
      dir_rank st' buf' (ca x') (rda x') (wrb y') = dir_rank st buf (ca x) (rda x) (wrb y) \<and> (p = Pending \<longrightarrow> \<not> proceed)"
    by (rule copy_dir.transfer_progress [OF cd ok run])
qed

section \<open>Both directions\<close>

definition bidi_rank ::
  "('a \<Rightarrow> byte list) \<Rightarrow> ('a \<Rightarrow> nat) \<Rightarrow> ('a \<Rightarrow> nat) \<Rightarrow> ('b \<Rightarrow> byte list) \<Rightarrow> ('b \<Rightarrow> nat) \<Rightarrow> ('b \<Rightarrow> nat) \<Rightarrow>
   ('a, 'b) copy_bidi \<Rightarrow> nat \<times> nat \<times> nat" where
  "bidi_rank ca rda wra cb rdb wrb c =
     tadd (dir_rank (bi_a_to_b c) (bi_a_buf c) (ca (bi_a c)) (rda (bi_a c)) (wrb (bi_b c)))
       (dir_rank (bi_b_to_a c) (bi_b_buf c) (cb (bi_b c)) (rdb (bi_b c)) (wra (bi_a c)))"

lemma bidi_timer_rank [simp]: "bidi_rank ca rda wra cb rdb wrb (bidi_timer now opa opb c) = bidi_rank ca rda wra cb rdb wrb c"
  by (auto simp: bidi_timer_def bidi_rank_def dir_rank_def ring_def split: option.split)

lemma rank_less_sum:
  "rank_less x y \<Longrightarrow> rank_less x' y' \<or> x' = y' \<Longrightarrow> rank_less (tadd x x') (tadd y y')"
  "x = y \<Longrightarrow> rank_less x' y' \<Longrightarrow> rank_less (tadd x x') (tadd y y')"
  by (cases x; cases y; cases x'; cases y'; auto simp: rank_less_def tadd_def)+

lemma bidi_poll_progress:
  assumes a: "steady_duplex opa ca wa inva rda wra ea pa" and b: "steady_duplex opb cb wb invb rdb wrb eb pb"
    and ok: "bidi_ok ca inva pa cb invb pb c"
    and run: "bidi_poll now proceed_a proceed_b opa opb c = Some (Pending, c')"
  shows "rank_less (bidi_rank ca rda wra cb rdb wrb c') (bidi_rank ca rda wra cb rdb wrb c) \<or>
    bidi_rank ca rda wra cb rdb wrb c' = bidi_rank ca rda wra cb rdb wrb c \<and> \<not> (proceed_a \<and> proceed_b)"
proof -
  have da: "duplex_stream opa ca wa inva rda wra ea pa" and db: "duplex_stream opb cb wb invb rdb wrb eb pb"
    using a b by (simp_all add: steady_duplex_def)
  define d where "d = bidi_timer now opa opb c"
  have "bidi_ok ca inva pa cb invb pb d" using bidi_timer_ok [OF da db ok] by (simp add: d_def)
  then have d: "inva (bi_a d)" "invb (bi_b d)" "dir_ok pb (bi_a_to_b d) (bi_a_buf d) (ca (bi_a d))"
    "dir_ok pa (bi_b_to_a d) (bi_b_buf d) (cb (bi_b d))"
    by (auto simp: bidi_ok_def)
  obtain p sa ba a1 b1 where
    run1: "transfer_one_direction proceed_a (op_read opa) opb (bi_a_to_b d) (bi_a_buf d) (bi_a d) (bi_b d) = Some (p, sa, ba, a1, b1)"
    and i1: "inva a1" "invb b1" "cb b1 = cb (bi_b d)"
    using duplex_transfer_poll [OF da db d(1-3), of proceed_a] by blast
  have ib: "dir_ok pa (bi_b_to_a d) (bi_b_buf d) (cb b1)" using d(4) i1(3) by simp
  obtain q sb bb b2 a2 where
    run2: "transfer_one_direction proceed_b (op_read opb) opa (bi_b_to_a d) (bi_b_buf d) b1 a1 = Some (q, sb, bb, b2, a2)"
    and i2: "ca a2 = ca a1"
    using duplex_transfer_poll [OF db da i1(2,1) ib, of proceed_b] by blast
  note s1 = steady_transfer [OF a b d(1-3) run1] and s2 = steady_transfer [OF b a i1(2,1) ib run2]
  have c': "c' = d\<lparr>bi_a := a2, bi_b := b2, bi_a_buf := ba, bi_b_buf := bb, bi_a_to_b := sa, bi_b_to_a := sb\<rparr>"
    and pq: "bidi_result p q = Pending"
    using run run1 run2 by (simp_all add: bidi_poll_def Let_def flip: d_def)
  have p: "p = Pending \<or> p = Ready (Ok ())" "q = Pending \<or> q = Ready (Ok ())" "p = Pending \<or> q = Pending"
    using pq by (auto simp: bidi_result_def split: poll.splits res.splits if_splits)
  define R1 where "R1 = dir_rank sa ba (ca a1) (rda a1) (wrb b1)"
  define R2 where "R2 = dir_rank sb bb (cb b2) (rdb b2) (wra a2)"
  define Q1 where "Q1 = dir_rank (bi_a_to_b d) (bi_a_buf d) (ca (bi_a d)) (rda (bi_a d)) (wrb (bi_b d))"
  define Q2 where "Q2 = dir_rank (bi_b_to_a d) (bi_b_buf d) (cb (bi_b d)) (rdb (bi_b d)) (wra (bi_a d))"
  have r: "bidi_rank ca rda wra cb rdb wrb c' = tadd R1 R2" "bidi_rank ca rda wra cb rdb wrb c = tadd Q1 Q2"
    using s2(1,2) i2 bidi_timer_rank [of ca rda wra cb rdb wrb now opa opb c]
    by (simp_all add: bidi_rank_def c' R1_def R2_def Q1_def Q2_def flip: d_def)
  have l1: "rank_less R1 Q1 \<or> R1 = Q1 \<and> (p = Pending \<longrightarrow> \<not> proceed_a)"
    using s1(3) [OF p(1)] by (simp add: R1_def Q1_def)
  have l2: "rank_less R2 Q2 \<or> R2 = Q2 \<and> (q = Pending \<longrightarrow> \<not> proceed_b)"
    using s2(3) [OF p(2)] s1(1,2) i1(3) by (simp add: R2_def Q2_def)
  show ?thesis
    unfolding r using rank_less_sum [of R1 Q1 R2 Q2] l1 l2 p(3) by blast
qed


lemma await_bidi_total:
  assumes a: "steady_duplex opa ca wa inva rda wra ea pa" and b: "steady_duplex opb cb wb invb rdb wrb eb pb"
    and fair: "\<And>k. \<exists>j\<ge>k. budget j = (True, True)"
  shows "bidi_ok ca inva pa cb invb pb c \<Longrightarrow> \<exists>y. await_bidi clock budget k opa opb c = Some y"
proof (induction "bidi_rank ca rda wra cb rdb wrb c" arbitrary: c k rule: wfp_induct_rule [OF wf_rank_less])
  case 1
  have da: "duplex_stream opa ca wa inva rda wra ea pa" and db: "duplex_stream opb cb wb invb rdb wrb eb pb"
    using a b by (simp_all add: steady_duplex_def)
  let ?rank = "bidi_rank ca rda wra cb rdb wrb"
  obtain j where "j \<ge> k" "budget j = (True, True)" using fair by blast
  then show ?case
    using "1.prems" "1.hyps"
  proof (induction "j - k" arbitrary: k c rule: less_induct)
    case less
    obtain p c' where p: "bidi_poll (clock k) (fst (budget k)) (snd (budget k)) opa opb c = Some (p, c')"
      using bidi_poll_step [OF da db less.prems(3), of "clock k" "fst (budget k)" "snd (budget k)"] by blast
    have post: "p = Pending \<Longrightarrow> bidi_ok ca inva pa cb invb pb c'"
      using bidi_poll_step [OF da db less.prems(3), of "clock k" "fst (budget k)" "snd (budget k)"] p by auto
    show ?case
    proof (cases p)
      case (Ready r)
      then show ?thesis using p by (simp add: await_bidi.simps [of clock budget k])
    next
      case Pending
      have step: "await_bidi clock budget k opa opb c = await_bidi clock budget (Suc k) opa opb c'"
        using p Pending by (simp add: await_bidi.simps [of clock budget k])
      have ok': "bidi_ok ca inva pa cb invb pb c'" using post Pending by simp
      from bidi_poll_progress [OF a b less.prems(3) p [unfolded Pending]]
      show ?thesis
      proof
        assume "rank_less (?rank c') (?rank c)"
        from less.prems(4) [OF this ok'] show ?thesis unfolding step .
      next
        assume same: "?rank c' = ?rank c \<and> \<not> (fst (budget k) \<and> snd (budget k))"
        then have "j \<noteq> k" using less.prems(2) by auto
        then have "j - Suc k < j - k" "Suc k \<le> j" using less.prems(1) by auto
        from less.hyps [OF this less.prems(2) ok'] less.prems(4) same show ?thesis unfolding step by auto
      qed
    qed
  qed
qed

lemma run_copy_total:
  assumes a: "steady_duplex opa ca wa inva rda wra ea pa" and b: "steady_duplex opb cb wb invb rdb wrb eb pb"
    and fair: "\<And>k. \<exists>j\<ge>k. ce_budget ce j = (True, True)" and ok: "bidi_ok ca inva pa cb invb pb c"
  shows "\<exists>r a' b'. run_copy ce opa opb c = Some (r, a', b') \<and> copied ca wa inva ea cb wb invb eb c r a' b'"
proof -
  have da: "duplex_stream opa ca wa inva rda wra ea pa" and db: "duplex_stream opb cb wb invb rdb wrb eb pb"
    using a b by (simp_all add: steady_duplex_def)
  obtain r c' where aw: "await_bidi (ce_clock ce) (ce_budget ce) 0 opa opb c = Some (r, c')"
    using await_bidi_total [OF a b fair ok] by force
  have "inva (bi_a c')" "invb (bi_b c')"
    using await_bidi_conserves [OF da db aw ok] by (simp_all add: copied_def)
  then obtain x a' y b' where "await_flush (op_shutdown opa) (bi_a c') = Some (x, a')"
    "await_flush (op_shutdown opb) (bi_b c') = Some (y, b')"
    using await_duplex_shutdown [OF da] await_duplex_shutdown [OF db] by metis
  then have "run_copy ce opa opb c = Some (r, a', b')" using aw by (simp add: run_copy_def)
  with run_copy_conserves [OF da db _ ok] show ?thesis by blast
qed

section \<open>What a relay has forwarded\<close>

text \<open>\<open>payload\<close> is what was for the client when \<open>stream\<close> was to be copied to it.\<close>

definition forwarded ::
  "('a \<Rightarrow> byte list) \<Rightarrow> ('d \<Rightarrow> byte list) \<Rightarrow> ('d \<Rightarrow> byte list) \<Rightarrow> byte list \<Rightarrow> 'a \<Rightarrow> 'd \<Rightarrow>
   unit res \<Rightarrow> 'a \<Rightarrow> 'd \<Rightarrow> bool" where
  "forwarded wa cd wd payload stream client r stream' client' \<longleftrightarrow>
     (case r of
        Ok _ \<Rightarrow> wd client' = wd client @ payload \<and> wa stream' = wa stream @ cd client
      | Err e \<Rightarrow> (\<exists>rest. wd client @ payload = wd client' @ rest) \<and> (\<exists>rest. wa stream @ cd client = wa stream' @ rest)
      | Panic \<Rightarrow> False)"

lemma forwarded_failed:
  "\<exists>rest. wd client @ pre = wd client' @ rest \<Longrightarrow> wa stream' = wa stream \<Longrightarrow>
   forwarded wa cd wd (pre @ payload) stream client (Err e) stream' client'"
  unfolding forwarded_def by (auto, metis append_assoc)

lemma forwarded_after:
  "wd client1 = wd client @ pre \<Longrightarrow> cd client1 = cd client \<Longrightarrow>
   forwarded wa cd wd payload stream client1 r stream' client' \<Longrightarrow>
   forwarded wa cd wd (pre @ payload) stream client r stream' client'"
  unfolding forwarded_def by (cases r) auto

lemma copy_forwards:
  assumes "steady_duplex ops ca wa inva rda wra ea pa" and "steady_duplex opd cd wd invd rdd wrd ed pd"
    and "inva stream" and "invd client" and "\<And>k. \<exists>j\<ge>k. ce_budget ce j = (True, True)" and "0 < n" and "0 < m"
  shows "\<exists>r stream' client'.
    run_copy ce ops opd (copy_bidirectional_with_sizes mem now ops opd stream client fa fb n m) = Some (r, stream', client') \<and>
    forwarded wa cd wd (ca stream) stream client r stream' client'"
proof -
  note start = bidi_start [where inva = inva and invb = invd, OF assms(3,4,6,7) refl]
  obtain r s' c' where "run_copy ce ops opd (copy_bidirectional_with_sizes mem now ops opd stream client fa fb n m) = Some (r, s', c')"
    and "copied ca wa inva ea cd wd invd ed (copy_bidirectional_with_sizes mem now ops opd stream client fa fb n m) r s' c'"
    using run_copy_total [OF assms(1,2,5) start(1)] by blast
  then show ?thesis unfolding copied_def start(2,3) forwarded_def by (cases r) auto
qed

section \<open>The streams of the program\<close>

sublocale quic_halves \<subseteq> steady: steady_duplex "quic_stream_ops rd wr fl sd"
    "\<lambda>s. content (qs_recv s)" "\<lambda>s. written (qs_send s)" "\<lambda>s. src_inv (qs_recv s) \<and> snk_inv (qs_send s)"
    "\<lambda>s. delay (qs_recv s)" "\<lambda>s. snk_delay (qs_send s)" quic_err False
proof (unfold_locales, goal_cases)
  case (1 ws d s n bs s')
  then show ?case using src.read_ok [of "qs_recv s" n bs]
    by (auto simp: quic_stream_ops_def elim!: quic_read_cases)
next
  case (2 ws d s n e s')
  then show ?case using src.read_err [of "qs_recv s" n e]
    by (auto simp: quic_stream_ops_def quic_err_def elim!: quic_read_cases)
next
  case (3 ws d s n s')
  then show ?case using src.read_pending [of "qs_recv s" n]
    by (auto simp: quic_stream_ops_def elim!: quic_read_cases)
next
  case (4 ws d s n s')
  then show ?case using src.read_no_panic [of "qs_recv s" n]
    by (auto simp: quic_stream_ops_def elim!: quic_read_cases)
next
  case (5 cs d w bs k w')
  then show ?case using snk.write_ok [of "qs_send w" bs k]
    by (auto simp: quic_stream_ops_def elim!: quic_write_cases)
next
  case (6 cs d w bs e w')
  then show ?case using snk.write_err [of "qs_send w" bs]
    by (fastforce simp: quic_stream_ops_def quic_err_def elim!: quic_write_cases)
next
  case (7 cs d w bs w')
  then show ?case using snk.write_pending [of "qs_send w" bs]
    by (auto simp: quic_stream_ops_def elim!: quic_write_cases)
next
  case (8 cs d w bs w')
  then show ?case using snk.write_no_panic [of "qs_send w" bs]
    by (fastforce simp: quic_stream_ops_def elim!: quic_write_cases)
qed (auto simp: quic_stream_ops_def quic_poll_flush_def quic_poll_shutdown_def split: prod.splits)

context quic_halves
begin

lemmas quic_steady = steady.steady_duplex_axioms

end

interpretation steady_peer: steady_duplex peer_ops "\<lambda>s. script_content (fst s)" "\<lambda>s. snd (snd s)" "\<lambda>s. script_inv (fst s)"
    "\<lambda>s. length (fst s)" "\<lambda>s. length (fst (snd s))" "\<lambda>_. True" False
proof (unfold_locales, goal_cases)
  case (1 ws d s n bs s')
  then show ?case using script.read_ok [of "fst s" n bs "fst s'"]
    by (cases s; cases "script_read (fst s) n") auto
next
  case (2 ws d s n e s')
  then show ?case using script.read_err [of "fst s" n e "fst s'"]
    by (cases s; cases "script_read (fst s) n") auto
next
  case (3 ws d s n s')
  then show ?case using script.read_pending [of "fst s" n "fst s'"]
    by (cases s; cases "script_read (fst s) n") auto
next
  case (4 ws d s n s')
  then show ?case using script.read_no_panic [of "fst s" n "fst s'"]
    by (cases s; cases "script_read (fst s) n") auto
next
  case (5 cs d w bs k w')
  then show ?case using script_sink.write_ok [of bs "snd w" k "snd w'"]
    by (cases w; cases "script_write (snd w) bs") auto
next
  case (6 cs d w bs e w')
  then show ?case using script_sink.write_err [of bs "snd w" e "snd w'"]
    by (cases w; cases "script_write (snd w) bs") auto
next
  case (7 cs d w bs w')
  then show ?case using script_sink.write_pending [of bs "snd w" "snd w'"]
    by (cases w; cases "script_write (snd w) bs") auto
next
  case (8 cs d w bs w')
  then show ?case using script_sink.write_no_panic [of bs "snd w" "snd w'"]
    by (cases w; cases "script_write (snd w) bs") auto
qed auto

section \<open>Properties\<close>

text \<open>C2. The bidirectional copy ends and then shuts both streams down, provided the streams end, are not pending for ever
  and the runtime lets the task go on every now and then: it ends well, with all bytes of each stream written to the
  other, once and in order, or with an error of one of the streams, each having got a beginning of what was for it.\<close>

theorem bidirectional_copy_ends:
  assumes "steady_duplex opa ca wa inva rda wra ea pa" and "steady_duplex opb cb wb invb rdb wrb eb pb"
    and "inva a" and "invb b" and "0 < n" and "0 < m" and "\<And>k. \<exists>j\<ge>k. ce_budget ce j = (True, True)"
  shows "\<exists>r a' b'. run_copy ce opa opb (copy_bidirectional_with_sizes mem now opa opb a b fa fb n m) = Some (r, a', b') \<and>
     (case r of
        Ok _ \<Rightarrow> wb b' = wb b @ ca a \<and> wa a' = wa a @ cb b
      | Err e \<Rightarrow> (ea e \<or> eb e) \<and> (\<exists>rest. wb b @ ca a = wb b' @ rest) \<and> (\<exists>rest. wa a @ cb b = wa a' @ rest)
      | Panic \<Rightarrow> False)"
proof -
  note start = bidi_start [where inva = inva and invb = invb, OF assms(3-6) refl]
  show ?thesis
    using run_copy_total [OF assms(1,2,7) start(1)] unfolding copied_def start(2,3) by blast
qed

definition demo_env :: copy_env where
  "demo_env = \<lparr>ce_mem = \<lambda>_. 0, ce_clock = \<lambda>k. k, ce_budget = \<lambda>k. (even k, even k)\<rparr>"

text \<open>A destination that sends two bytes.\<close>

definition demo_dest :: "nat \<Rightarrow> peer" where
  "demo_dest fd = ([Chunk [8, 8]], [Accept 0], [])"

definition demo_a :: peer where
  "demo_a = ([Chunk [1, 2, 3], Wait, Chunk [4]], [], [])"

definition demo_b :: peer where
  "demo_b = ([Chunk [9], Wait], [Accept 0, AcceptWait], [])"

lemma demo_fair: "\<exists>j\<ge>k. ce_budget demo_env j = (True, True)"
  by (rule exI [of _ "2 * k"]) (simp add: demo_env_def)

theorem bidirectional_copy_ends_witness:
  "\<exists>r a' b'. run_copy demo_env peer_ops peer_ops
       (copy_bidirectional_with_sizes (\<lambda>_. 0) 0 peer_ops peer_ops demo_a demo_b False True 2 2) = Some (r, a', b') \<and>
     (case r of
        Ok _ \<Rightarrow> snd (snd b') = [1, 2, 3, 4] \<and> snd (snd a') = [9]
      | Err e \<Rightarrow> (True \<or> True) \<and> (\<exists>rest. [1, 2, 3, 4] = snd (snd b') @ rest) \<and> (\<exists>rest. [9] = snd (snd a') @ rest)
      | Panic \<Rightarrow> False)"
proof -
  have inv: "script_inv (fst demo_a)" "script_inv (fst demo_b)" by (simp_all add: script_inv_def demo_a_def demo_b_def)
  have all: "snd (snd demo_b) @ script_content (fst demo_a) = [1, 2, 3, 4]" "snd (snd demo_a) @ script_content (fst demo_b) = [9]"
    by (simp_all add: demo_a_def demo_b_def)
  show ?thesis
    by (rule bidirectional_copy_ends [OF steady_peer.steady_duplex_axioms steady_peer.steady_duplex_axioms inv _ _ demo_fair,
        unfolded all]) simp_all
qed

end
