(* ===== verification/Hysteria_Tcp.thy ===== *)
theory Hysteria_Tcp
  imports Byte_Parser Copy_Termination Socket_Util
begin

text \<open>
  \<^verbatim>\<open>src/hysteria2.rs\<close>, TCP: a bidirectional QUIC stream opens with a request that names a destination; it is answered, the
  destination dialled, and the two streams copied into each other. The halves of the QUIC stream are quinn's: their
  operations are parameters, as are the random padding of the answer and whether the dial takes longer than a
  minute.
\<close>

section \<open>The request\<close>

abbreviation FRAME_TYPE_TCP_REQUEST :: u64 where
  "FRAME_TYPE_TCP_REQUEST \<equiv> 0x401"

definition read_tcp_request ::
  "'s reader \<Rightarrow> stream_reader \<Rightarrow> 's \<Rightarrow> (net_location res \<times> stream_reader \<times> 's) option" where
  "read_tcp_request rd sr s =
     bind_rd (read_varint rd sr s) (\<lambda>tcp_request_id sr s.
       if tcp_request_id \<noteq> FRAME_TYPE_TCP_REQUEST then Some (Err (other_error ''invalid tcp request id''), sr, s)
       else bind_rd (read_varint rd sr s) (\<lambda>address_len sr s.
         if address_len > 2048 then Some (Err (other_error ''invalid address length''), sr, s)
         else bind_rd (sr_read_slice rd (unat address_len) sr s) (\<lambda>address_bytes sr s.
           case from_utf8 address_bytes of
             None \<Rightarrow> Some (Err (other_error ''invalid address encoding''), sr, s)
           | Some address \<Rightarrow>
               (case net_location_from_str address None of
                  Err e \<Rightarrow> Some (Err e, sr, s)
                | Panic \<Rightarrow> Some (Panic, sr, s)
                | Ok remote_location \<Rightarrow>
                    bind_rd (read_varint rd sr s) (\<lambda>padding_len sr s.
                      if padding_len > 4096 then Some (Err (other_error ''invalid padding length''), sr, s)
                      else bind_rd (sr_read_slice rd (unat padding_len) sr s) (\<lambda>_ sr s.
                        Some (Ok remote_location, sr, s)))))))"

text \<open>The answer: status, message length, padding length, padding.\<close>

definition tcp_response :: "byte list \<Rightarrow> byte list" where
  "tcp_response padding = [0, 0, of_nat (length padding)] @ padding"

definition handle_tcp_header ::
  "(nat \<Rightarrow> byte) \<Rightarrow> 'r reader \<Rightarrow> 'w writer \<Rightarrow> byte list \<Rightarrow> 'w \<Rightarrow> 'r \<Rightarrow>
   ((net_location \<times> stream_reader) res \<times> 'w \<times> 'r) option" where
  "handle_tcp_header mem rd wr padding send recv =
     Option.bind (read_tcp_request rd (sr_new_with_buffer_size mem 8192) recv) (\<lambda>(r, sr, recv').
       case r of
         Err e \<Rightarrow> Some (Err e, send, recv')
       | Panic \<Rightarrow> Some (Panic, send, recv')
       | Ok remote_location \<Rightarrow>
           Option.bind (write_all wr send (tcp_response padding)) (\<lambda>(w, send').
             case w of
               Ok _ \<Rightarrow> Some (Ok (remote_location, sr), send', recv')
             | Err e \<Rightarrow> Some (Err (other_error ''H3 stream write failed''), send', recv')
             | Panic \<Rightarrow> Some (Panic, send', recv')))"

section \<open>The connection\<close>

text \<open>What followed the request in the reader's buffer goes to the destination, and the copy must then begin with a flush.\<close>

definition forward_unparsed :: "'d writer \<Rightarrow> byte list \<Rightarrow> 'd \<Rightarrow> (bool res \<times> 'd) option" where
  "forward_unparsed wr unparsed client =
     (if unparsed = [] then Some (Ok False, client)
      else Option.bind (write_all wr client unparsed) (\<lambda>(r, client').
        case r of
          Ok _ \<Rightarrow> Some (Ok True, client')
        | Err e \<Rightarrow> Some (Err (other_error ''H3 stream write failed''), client')
        | Panic \<Rightarrow> Some (Panic, client')))"

text \<open>The stream after its request was answered.\<close>

definition relay_tcp_stream ::
  "copy_env \<Rightarrow> ('w, 'r) quic_stream async_stream \<Rightarrow> 'd async_stream \<Rightarrow> byte list \<Rightarrow> ('w, 'r) quic_stream \<Rightarrow> 'd \<Rightarrow>
   (unit res \<times> ('w, 'r) quic_stream \<times> 'd) option" where
  "relay_tcp_stream ce ops opd unparsed server client =
     Option.bind (forward_unparsed (op_write opd) unparsed client) (\<lambda>(f, client').
       case f of
         Ok client_requires_flush \<Rightarrow>
           run_copy ce (box_stream ops) (box_stream opd)
             (copy_bidirectional_with_sizes (ce_mem ce) (ce_clock ce 0) (box_stream ops) (box_stream opd) server client'
                False client_requires_flush 32768 32768)
       | Err e \<Rightarrow> Some (Err e, server, client')
       | Panic \<Rightarrow> Some (Panic, server, client'))"

definition process_tcp_stream ::
  "copy_env \<Rightarrow> 'r reader \<Rightarrow> 'w writer \<Rightarrow> 'w flusher \<Rightarrow> 'w flusher \<Rightarrow> 's system \<Rightarrow> ('c resolver) resolution \<Rightarrow>
   'd async_stream \<Rightarrow> (fd \<Rightarrow> 'd) \<Rightarrow> byte list \<Rightarrow> ('c resolver \<times> 's) option \<Rightarrow> 'w \<Rightarrow> 'r \<Rightarrow> 'c resolver \<times> 's \<Rightarrow>
   (unit res \<times> ('w, 'r) quic_stream \<times> 'd option \<times> 'c resolver \<times> 's) option" where
  "process_tcp_stream ce rd wr fl sd sys rslv opd stream_of padding elapsed send recv st =
     Option.bind (handle_tcp_header (ce_mem ce) rd wr padding send recv) (\<lambda>(h, send1, recv1).
       let server = quic_stream_from (send1, recv1);
           ops = quic_stream_ops rd wr fl sd
       in case h of
            Panic \<Rightarrow> Some (Panic, server, None, st)
          | Err e \<Rightarrow>
              Option.bind (await_flush sd send1) (\<lambda>(_, send2). Some (Err e, quic_stream_from (send2, recv1), None, st))
          | Ok (remote_location, reader) \<Rightarrow>
              (case within elapsed (connect_tcp_arc sys rslv remote_location) st of
                 (Some (Ok fd), st1) \<Rightarrow>
                   Option.bind (relay_tcp_stream ce ops opd (unparsed_data reader) server (stream_of fd))
                     (\<lambda>(r, server', client). Some (r, server', Some client, st1))
               | (Some (Err e), st1) \<Rightarrow>
                   Option.bind (await_flush (op_shutdown ops) server) (\<lambda>(_, server').
                     Some (Err (IoError (err_kind e) ''failed to setup client stream''), server', None, st1))
               | (Some Panic, st1) \<Rightarrow> Some (Panic, server, None, st1)
               | (None, st1) \<Rightarrow>
                   Option.bind (await_flush (op_shutdown ops) server) (\<lambda>(_, server').
                     Some (Err (IoError TimedOut ''client setup timed out''), server', None, st1))))"

section \<open>The request as a parser\<close>

definition tcp_request :: "byte list \<Rightarrow> net_location parsed" where
  "tcp_request bs =
     bind_parsed (parse_varint bs) (\<lambda>tcp_request_id bs.
       if tcp_request_id \<noteq> FRAME_TYPE_TCP_REQUEST then Rejected (other_error ''invalid tcp request id'')
       else bind_parsed (parse_varint bs) (\<lambda>address_len bs.
         if address_len > 2048 then Rejected (other_error ''invalid address length'')
         else bind_parsed (parse_bytes (unat address_len) bs) (\<lambda>address_bytes bs.
           case from_utf8 address_bytes of
             None \<Rightarrow> Rejected (other_error ''invalid address encoding'')
           | Some address \<Rightarrow>
               (case net_location_from_str address None of
                  Err e \<Rightarrow> Rejected e
                | Panic \<Rightarrow> Short
                | Ok remote_location \<Rightarrow>
                    bind_parsed (parse_varint bs) (\<lambda>padding_len bs.
                      if padding_len > 4096 then Rejected (other_error ''invalid padding length'')
                      else bind_parsed (parse_bytes (unat padding_len) bs) (\<lambda>_ bs. Parsed remote_location bs))))))"

lemma parse_varint_encoded: "encode_varint v = Ok bs \<Longrightarrow> parse_varint (bs @ rest) = Parsed v rest"
  by (simp add: parse_varint_def encode_varint_decodes)

text \<open>A request as a client writes it.\<close>

lemma tcp_request_written:
  assumes "encode_varint FRAME_TYPE_TCP_REQUEST = Ok rid" and "encode_varint (of_nat (length address)) = Ok al"
    and "encode_varint (of_nat (length padding)) = Ok pl" and "length address \<le> 2048" and "length padding \<le> 4096"
    and "from_utf8 address = Some a" and "net_location_from_str a None = Ok loc"
  shows "tcp_request (rid @ al @ address @ pl @ padding @ rest) = Parsed loc rest"
proof -
  have le: "\<not> (of_nat (length address) :: u64) > 2048" "\<not> (of_nat (length padding) :: u64) > 4096"
    using assms(4,5) by (simp_all add: word_less_nat_alt unat_of_nat)
  have len: "unat (of_nat (length address) :: u64) = length address" "unat (of_nat (length padding) :: u64) = length padding"
    using assms(4,5) by (simp_all add: unat_of_nat)
  show ?thesis
    unfolding tcp_request_def parse_varint_encoded [OF assms(1)] bind_parsed.simps
    using le len assms(6,7) by (simp add: parse_varint_encoded [OF assms(2)] parse_varint_encoded [OF assms(3)])
qed

context byte_source
begin

lemma reads_tcp_request:
  assumes "reader_ok cap sr s" and "4096 \<le> cap"
  shows "reads cap (read_tcp_request poll_read sr s) (tcp_request (pending_bytes sr s))"
proof -
  have small: "unat (v :: u64) \<le> cap" if "\<not> v > 2048 \<or> \<not> v > 4096" for v
    using that assms(2) by (auto simp: word_less_nat_alt)
  have opt: "reads cap (case x of None \<Rightarrow> m | Some y \<Rightarrow> f y) (case x of None \<Rightarrow> p | Some y \<Rightarrow> q y)"
    if "reads cap m p" "\<And>y. reads cap (f y) (q y)" for x :: "string option" and m :: "(net_location res \<times> stream_reader \<times> 's) option" and p f q
    using that by (cases x) simp_all
  have loc: "reads cap (case x of Err e \<Rightarrow> Some (Err e, sr, s) | Panic \<Rightarrow> Some (Panic, sr, s) | Ok y \<Rightarrow> f y)
      (case x of Err e \<Rightarrow> Rejected e | Panic \<Rightarrow> Short | Ok y \<Rightarrow> q y)"
    if "x \<noteq> Panic" "reader_ok cap sr s" "\<And>y. reads cap (f y) (q y)" for x :: "net_location res" and f and q :: "net_location \<Rightarrow> net_location parsed" and sr s
    using that reads_reject by (cases x) simp_all
  show ?thesis
    unfolding read_tcp_request_def tcp_request_def using assms
    by (intro reads_bind reads_if reads_varint reads_slice reads_return reads_reject opt loc small net_location_no_panic) simp_all
qed

end

lemma tcp_request_read:
  assumes src: "byte_source rd content src_inv delay src_err" and "src_inv recv"
  shows "\<exists>r sr recv'. read_tcp_request rd (sr_new_with_buffer_size mem 8192) recv = Some (r, sr, recv') \<and> src_inv recv' \<and>
    (case r of
       Ok loc \<Rightarrow> tcp_request (content recv) = Parsed loc (unparsed_data sr @ content recv')
     | Err e \<Rightarrow> src_err e \<or> e = eof_while_reading \<and> tcp_request (content recv) = Short \<or>
         tcp_request (content recv) = Rejected e
     | Panic \<Rightarrow> False)"
proof -
  let ?sr = "sr_new_with_buffer_size mem 8192"
  have ok: "byte_source.reader_ok src_inv 8192 ?sr recv"
    using assms(2) by (simp add: byte_source.reader_ok_def [OF src] sr_new_with_buffer_size_def sr_inv_def)
  have p0: "byte_source.pending_bytes content ?sr recv = content recv"
    by (simp add: byte_source.pending_bytes_def [OF src])
  have "byte_source.reads content src_inv src_err 8192 (read_tcp_request rd ?sr recv) (tcp_request (content recv))"
    using byte_source.reads_tcp_request [OF src ok] unfolding p0 by simp
  then show ?thesis
    unfolding byte_source.reads_def [OF src] byte_source.reader_ok_def [OF src] byte_source.pending_bytes_def [OF src]
    by blast
qed

text \<open>C26. The request of a stream is read exactly, however its bytes are cut into reads: the reader accepts what the grammar of
  requests accepts, with the destination it names and all bytes after it left for the relay; it fails only as the grammar
  rejects, when the stream ends within the request, or with an error of the stream.\<close>

theorem tcp_request_exact:
  assumes "byte_source rd content src_inv delay src_err" and "src_inv recv"
  shows "\<exists>r sr recv'. read_tcp_request rd (sr_new_with_buffer_size mem 8192) recv = Some (r, sr, recv') \<and> src_inv recv' \<and>
    (case r of
       Ok loc \<Rightarrow> tcp_request (content recv) = Parsed loc (unparsed_data sr @ content recv')
     | Err e \<Rightarrow> src_err e \<or> e = eof_while_reading \<and> tcp_request (content recv) = Short \<or>
         tcp_request (content recv) = Rejected e
     | Panic \<Rightarrow> False)"
  by (rule tcp_request_read [OF assms])

definition demo_request :: "script_item list" where
  "demo_request = [Chunk [68], Chunk [1, 4, 122, 122], Wait, Chunk [58, 49, 1, 7, 9]]"

lemma demo_request_parsed: "tcp_request (script_content demo_request) = Parsed demo_name [9]"
proof -
  have "script_content demo_request = [68, 1] @ [4] @ bytes_of ''zz:1'' @ [1] @ [7] @ [9]"
    by (simp add: demo_request_def bytes_of_def)
  moreover have "tcp_request ([68, 1] @ [4] @ bytes_of ''zz:1'' @ [1] @ [7] @ [9]) = Parsed demo_name [9]"
    by (rule tcp_request_written [OF _ _ _ _ _ demo_utf8 demo_name_parsed])
       (simp_all add: encode_varint_def u_be_eval)
  ultimately show ?thesis by simp
qed

theorem tcp_request_exact_witness:
  "\<exists>r sr recv'. read_tcp_request script_read (sr_new_with_buffer_size (\<lambda>_. 0) 8192) demo_request = Some (r, sr, recv') \<and>
     (case r of
        Ok loc \<Rightarrow> loc = demo_name \<and> unparsed_data sr @ script_content recv' = [9]
      | Err e \<Rightarrow> True
      | Panic \<Rightarrow> False)"
proof -
  have "script_inv demo_request" by (simp add: script_inv_def demo_request_def)
  from tcp_request_exact [OF script.byte_source_axioms this, of "\<lambda>_. 0"]
  obtain r sr recv' where run: "read_tcp_request script_read (sr_new_with_buffer_size (\<lambda>_. 0) 8192) demo_request = Some (r, sr, recv')"
    and post: "case r of
        Ok loc \<Rightarrow> tcp_request (script_content demo_request) = Parsed loc (unparsed_data sr @ script_content recv')
      | Err e \<Rightarrow> True \<or> e = eof_while_reading \<and> tcp_request (script_content demo_request) = Short \<or>
          tcp_request (script_content demo_request) = Rejected e
      | Panic \<Rightarrow> False"
    by blast
  from post run show ?thesis unfolding demo_request_parsed by (cases r) auto
qed

section \<open>The relay\<close>

lemma forward_unparsed_total:
  assumes "duplex_stream opd cd wd invd rdd wrd ed pd" and "invd client"
  shows "\<exists>f client'. forward_unparsed (op_write opd) unparsed client = Some (f, client') \<and>
    invd client' \<and> cd client' = cd client \<and>
    (case f of
       Ok _ \<Rightarrow> wd client' = wd client @ unparsed
     | Err e \<Rightarrow> (\<exists>rest. wd client @ unparsed = wd client' @ rest)
     | Panic \<Rightarrow> False)"
proof -
  obtain r client' where w: "write_all (op_write opd) client unparsed = Some (r, client')"
    and post: "invd client'" "cd client' = cd client"
      "case r of
         Ok _ \<Rightarrow> wd client' = wd client @ unparsed
       | Err e \<Rightarrow> (\<exists>rest. wd client @ unparsed = wd client' @ rest)
       | Panic \<Rightarrow> False"
    using duplex_write_all [OF assms] by blast
  show ?thesis
  proof (cases "unparsed = []")
    case True
    then show ?thesis using assms(2) by (simp add: forward_unparsed_def)
  next
    case False
    then show ?thesis using w post by (cases r) (auto simp: forward_unparsed_def)
  qed
qed

lemma relay_total:
  assumes a: "steady_duplex ops ca wa inva rda wra ea pa" and d: "steady_duplex opd cd wd invd rdd wrd ed pd"
    and inv: "inva server" "invd client" and fair: "\<And>k. \<exists>j\<ge>k. ce_budget ce j = (True, True)"
  shows "\<exists>r server' client'. relay_tcp_stream ce ops opd unparsed server client = Some (r, server', client') \<and>
    forwarded wa cd wd (unparsed @ ca server) server client r server' client'"
proof -
  have dd: "duplex_stream opd cd wd invd rdd wrd ed pd" using d by (simp add: steady_duplex_def)
  obtain f c1 where f: "forward_unparsed (op_write opd) unparsed client = Some (f, c1)"
    and c1: "invd c1" "cd c1 = cd client"
    and post: "case f of
       Ok _ \<Rightarrow> wd c1 = wd client @ unparsed
     | Err e \<Rightarrow> (\<exists>rest. wd client @ unparsed = wd c1 @ rest)
     | Panic \<Rightarrow> False"
    using forward_unparsed_total [OF dd inv(2)] by blast
  show ?thesis
  proof (cases f)
    case (Ok b)
    then have "wd c1 = wd client @ unparsed" using post by simp
    with forwarded_after [OF this c1(2)] copy_forwards [OF a d inv(1) c1(1) fair, of 32768 32768] f Ok
    show ?thesis by (fastforce simp: relay_tcp_stream_def)
  next
    case (Err e)
    with post forwarded_failed [of wd client unparsed c1 wa server server cd "ca server" e] f
    show ?thesis by (auto simp: relay_tcp_stream_def)
  qed (use post in simp)
qed

text \<open>The header is read and answered, or the stream failed.\<close>

lemma handle_tcp_header_total:
  assumes src: "byte_source rd content src_inv delay src_err" and snk: "byte_sink wr written snk_inv snk_delay snk_err"
    and inv: "src_inv recv" "snk_inv send" and request: "tcp_request (content recv) = Parsed loc payload"
  shows "\<exists>h send' recv'. handle_tcp_header mem rd wr padding send recv = Some (h, send', recv') \<and> src_inv recv' \<and> snk_inv send' \<and>
    (case h of
       Ok (loc', sr) \<Rightarrow> loc' = loc \<and> unparsed_data sr @ content recv' = payload \<and> written send' = written send @ tcp_response padding
     | Err e \<Rightarrow> True
     | Panic \<Rightarrow> False)"
proof -
  obtain r sr recv' where rr: "read_tcp_request rd (sr_new_with_buffer_size mem 8192) recv = Some (r, sr, recv')"
    and inv0: "src_inv recv'"
    and post: "case r of
       Ok loc \<Rightarrow> tcp_request (content recv) = Parsed loc (unparsed_data sr @ content recv')
     | Err e \<Rightarrow> src_err e \<or> e = eof_while_reading \<and> tcp_request (content recv) = Short \<or>
         tcp_request (content recv) = Rejected e
     | Panic \<Rightarrow> False"
    using tcp_request_read [OF src inv(1)] by blast
  obtain w send' where ww: "write_all wr send (tcp_response padding) = Some (w, send')" "snk_inv send'"
    and wpost: "case w of
        Ok _ \<Rightarrow> written send' = written send @ tcp_response padding
      | Err e \<Rightarrow> snk_err e \<and> (\<exists>k < length (tcp_response padding). written send' = written send @ take k (tcp_response padding))
      | Panic \<Rightarrow> False"
    using byte_sink.write_all_total [OF snk inv(2)] by blast
  show ?thesis
  proof (cases r)
    case (Ok l)
    with post request have "l = loc" "unparsed_data sr @ content recv' = payload" by simp_all
    with rr Ok ww wpost inv0 show ?thesis by (cases w) (auto simp: handle_tcp_header_def)
  qed (use rr post inv inv0 in \<open>auto simp: handle_tcp_header_def\<close>)
qed

context quic_halves
begin

lemma await_send_shutdown:
  assumes "snk_inv w"
  shows "\<exists>x w'. await_flush sd w = Some (x, w')"
proof -
  have "snk_inv w' \<and> () = () \<and> p \<noteq> Ready Panic \<and> (p = Pending \<longrightarrow> snk_delay w' < snk_delay w)"
    if "snk_inv w" "sd w = (p, w')" for w p w'
    using send_shutdown [OF that] by (auto split: poll.splits res.splits)
  from await_settles [where ok = snk_inv and kept = "\<lambda>_. ()" and left_over = snk_delay and fl = sd, OF this assms]
  show ?thesis by blast
qed

end



end
