(* ===== verification/Hysteria_Auth.thy ===== *)
theory Hysteria_Auth
  imports Prelude
begin

text \<open>
  \<^verbatim>\<open>src/hysteria2.rs\<close>: authentication of a QUIC connection by an HTTP/3 request, and the loops that serve it afterwards.
  The HTTP/3 connection is the \<^verbatim>\<open>h3\<close> crate's: its calls are the record \<open>h3_ops\<close> on a state of its own. A request
  answers the comparisons and the lookup that the program asks of it; \<open>to_str\<close> is \<^verbatim>\<open>HeaderValue::to_str\<close>.
\<close>

section \<open>Requests\<close>

record http_request =
  rq_uri_is :: "string \<Rightarrow> bool"
  rq_method_is :: "string \<Rightarrow> bool"
  rq_header :: "string \<Rightarrow> byte list option"

definition validate_auth_request :: "(byte list \<Rightarrow> string option) \<Rightarrow> http_request \<Rightarrow> string \<Rightarrow> unit res" where
  "validate_auth_request to_str req password =
     (if \<not> rq_uri_is req ''https://hysteria/auth'' then Err (other_error ''unexpected uri'')
      else if \<not> rq_method_is req ''POST'' then Err (other_error ''unexpected method'')
      else
        (case rq_header req ''hysteria-auth'' of
           None \<Rightarrow> Err (other_error ''missing auth header'')
         | Some auth_value \<Rightarrow>
             (case to_str auth_value of
                None \<Rightarrow> Err (other_error ''invalid auth header value'')
              | Some auth_str \<Rightarrow>
                  if auth_str \<noteq> password then Err (other_error ''incorrect auth password'') else Ok ())))"

record http_response =
  rp_status :: nat
  rp_headers :: "(string \<times> string) list"

text \<open>The answers; \<open>padding\<close> is \<^verbatim>\<open>generate_ascii_string\<close>.\<close>

definition auth_response :: "bool \<Rightarrow> string \<Rightarrow> http_response" where
  "auth_response udp_enabled padding =
     \<lparr>rp_status = 233,
      rp_headers = [(''Hysteria-UDP'', if udp_enabled then ''true'' else ''false''),
                    (''Hysteria-CC-RX'', ''0''), (''Hysteria-Padding'', padding)]\<rparr>"

definition reject_response :: http_response where
  "reject_response = \<lparr>rp_status = 404, rp_headers = []\<rparr>"

section \<open>Authentication\<close>

record ('h, 'i, 'q) h3_ops =
  h3_accept :: "('i option, 'h) io"
  h3_resolve_request :: "'i \<Rightarrow> (http_request \<times> 'q, 'h) io"
  h3_send_response :: "'q \<Rightarrow> http_response \<Rightarrow> (unit, 'h) io"
  h3_finish :: "'q \<Rightarrow> (unit, 'h) io"

text \<open>\<^verbatim>\<open>map_err\<close> to an error of kind \<^verbatim>\<open>Other\<close>.\<close>

definition map_err :: "string \<Rightarrow> ('a, 's) io \<Rightarrow> ('a, 's) io" where
  "map_err msg m s = (case m s of (Err _, s') \<Rightarrow> (Err (other_error msg), s') | r \<Rightarrow> r)"

text \<open>One turn of the loop: authenticated or to be repeated.\<close>

definition auth_turn ::
  "('h, 'i, 'q) h3_ops \<Rightarrow> (byte list \<Rightarrow> string option) \<Rightarrow> ('h \<Rightarrow> string) \<Rightarrow> string \<Rightarrow> bool \<Rightarrow> (bool, 'h) io" where
  "auth_turn h3 to_str padding password udp_enabled =
     bind_io (map_err ''H3 accept failed'' (h3_accept h3)) (\<lambda>accepted.
       case accepted of
         None \<Rightarrow> (\<lambda>h. (Err (IoError UnexpectedEof ''no streams''), h))
       | Some resolver \<Rightarrow>
           bind_io (map_err ''Failed to resolve request'' (h3_resolve_request h3 resolver)) (\<lambda>(req, stream).
             case validate_auth_request to_str req password of
               Ok _ \<Rightarrow> (\<lambda>h.
                 bind_io (map_err ''failed to send auth response''
                            (h3_send_response h3 stream (auth_response udp_enabled (padding h)))) (\<lambda>_.
                 bind_io (map_err ''failed to finish auth stream'' (h3_finish h3 stream)) (\<lambda>_.
                 ret True)) h)
             | Err e \<Rightarrow>
                 bind_io (map_err ''failed to send reject response'' (h3_send_response h3 stream reject_response)) (\<lambda>_.
                 bind_io (map_err ''failed to finish reject stream'' (h3_finish h3 stream)) (\<lambda>_.
                 ret False))
             | Panic \<Rightarrow> (\<lambda>h. (Panic, h))))"

partial_function (option) auth_connection ::
  "('h, 'i, 'q) h3_ops \<Rightarrow> (byte list \<Rightarrow> string option) \<Rightarrow> ('h \<Rightarrow> string) \<Rightarrow> string \<Rightarrow> bool \<Rightarrow> 'h \<Rightarrow> (unit res \<times> 'h) option" where
  "auth_connection h3 to_str padding password udp_enabled h =
     (case auth_turn h3 to_str padding password udp_enabled h of
        (Ok authenticated, h') \<Rightarrow>
          if authenticated then Some (Ok (), h') else auth_connection h3 to_str padding password udp_enabled h'
      | (Err e, h') \<Rightarrow> Some (Err e, h')
      | (Panic, h') \<Rightarrow> Some (Panic, h'))"

section \<open>A connection\<close>

text \<open>What accepting a stream of a connection gives.\<close>

datatype 'a accepted = Accepted 'a | ApplicationClosed | ConnectionClosed | AcceptFailed

text \<open>Unidirectional streams are stopped as they come. The result is \<^term>\<open>None\<close> while the loop waits; with it, how many
  were stopped.\<close>

fun uni_loop :: "unit accepted list \<Rightarrow> nat \<Rightarrow> unit res option \<times> nat" where
  "uni_loop [] n = (None, n)"
| "uni_loop (Accepted _ # evs) n = uni_loop evs (Suc n)"
| "uni_loop (ApplicationClosed # evs) n = (Some (Ok ()), n)"
| "uni_loop (ConnectionClosed # evs) n = (Some (Ok ()), n)"
| "uni_loop (AcceptFailed # evs) n = (Some (Err (other_error ''unidirectional loop error'')), n)"

text \<open>\<^verbatim>\<open>run_tcp_loop\<close>: each bidirectional stream gets a task of its own.\<close>

fun run_tcp_loop :: "'a accepted list \<Rightarrow> 'a list \<Rightarrow> unit res option \<times> 'a list" where
  "run_tcp_loop [] spawned = (None, spawned)"
| "run_tcp_loop (Accepted stream # evs) spawned = run_tcp_loop evs (spawned @ [stream])"
| "run_tcp_loop (ApplicationClosed # evs) spawned = (Some (Ok ()), spawned)"
| "run_tcp_loop (ConnectionClosed # evs) spawned = (Some (Ok ()), spawned)"
| "run_tcp_loop (AcceptFailed # evs) spawned = (Some (Err (other_error ''failed to accept bidirectional stream'')), spawned)"

text \<open>\<^verbatim>\<open>try_join!\<close> of loops, by what each has come to: the first failure, or success of all.\<close>

fun try_join :: "unit res option list \<Rightarrow> unit res option" where
  "try_join [] = Some (Ok ())"
| "try_join (Some (Ok _) # rs) = try_join rs"
| "try_join (Some (Err e) # rs) = Some (Err e)"
| "try_join (Some Panic # rs) = Some Panic"
| "try_join (None # rs) = (case try_join rs of Some (Ok _) \<Rightarrow> None | r \<Rightarrow> r)"

text \<open>What became of a connection: its result (\<^term>\<open>None\<close> while it is served), the streams that got a task, how many
  unidirectional streams were stopped, the reason it was closed with, and whether its UDP tasks were cancelled.\<close>

record 'a conn_run =
  cr_result :: "unit res option"
  cr_spawned :: "'a list"
  cr_stopped :: nat
  cr_closed :: "string option"
  cr_cancelled :: bool

definition not_served :: "unit res \<Rightarrow> string option \<Rightarrow> 'a conn_run" where
  "not_served r closed =
     \<lparr>cr_result = Some r, cr_spawned = [], cr_stopped = 0, cr_closed = closed, cr_cancelled = False\<rparr>"

text \<open>The loops of an authenticated connection, with \<open>udp_loop\<close> what became of the loop over datagrams.\<close>

definition serve_connection ::
  "bool \<Rightarrow> unit res option \<Rightarrow> unit accepted list \<Rightarrow> 'a accepted list \<Rightarrow> 'a conn_run" where
  "serve_connection udp_enabled udp_loop uni_events bi_events =
     (case uni_loop uni_events 0 of (uni, stopped) \<Rightarrow>
      case run_tcp_loop bi_events [] of (tcp, spawned) \<Rightarrow>
        let result = try_join [if udp_enabled then udp_loop else Some (Ok ()), uni, tcp] in
        \<lparr>cr_result = result, cr_spawned = spawned, cr_stopped = stopped,
         cr_closed = (case result of Some (Err _) \<Rightarrow> Some [] | _ \<Rightarrow> None),
         cr_cancelled = (case result of None \<Rightarrow> False | Some Panic \<Rightarrow> False | _ \<Rightarrow> True)\<rparr>)"

text \<open>A connection: the handshakes of QUIC and of HTTP/3, authentication, which has three seconds (\<open>elapsed\<close> when they are
  over first), the loops. \<^term>\<open>None\<close>: authentication goes on for ever.\<close>

definition process_connection ::
  "('h, 'i, 'q) h3_ops \<Rightarrow> (byte list \<Rightarrow> string option) \<Rightarrow> ('h \<Rightarrow> string) \<Rightarrow> string \<Rightarrow> bool \<Rightarrow> unit res \<Rightarrow> 'h res \<Rightarrow> bool \<Rightarrow>
   unit res option \<Rightarrow> unit accepted list \<Rightarrow> 'a accepted list \<Rightarrow> 'a conn_run option" where
  "process_connection h3 to_str padding password udp_enabled handshake h3_new elapsed udp_loop uni_events bi_events =
     (case handshake of
        Err e \<Rightarrow> Some (not_served (Err e) None)
      | Panic \<Rightarrow> Some (not_served Panic None)
      | Ok _ \<Rightarrow>
          (case h3_new of
             Err e \<Rightarrow> Some (not_served (Err (other_error ''H3 connection setup failed'')) None)
           | Panic \<Rightarrow> Some (not_served Panic None)
           | Ok h \<Rightarrow>
               if elapsed
               then Some (not_served (Err (IoError TimedOut ''authentication timeout'')) (Some ''auth timeout''))
               else
                 (case auth_connection h3 to_str padding password udp_enabled h of
                    None \<Rightarrow> None
                  | Some (Ok _, _) \<Rightarrow> Some (serve_connection udp_enabled udp_loop uni_events bi_events)
                  | Some (Err e, _) \<Rightarrow> Some (not_served (Err e) (Some ''auth failed''))
                  | Some (Panic, _) \<Rightarrow> Some (not_served Panic None))))"

section \<open>Who is authenticated\<close>

lemma validate_Ok_iff:
  "validate_auth_request to_str req password = Ok () \<longleftrightarrow>
     rq_uri_is req ''https://hysteria/auth'' \<and> rq_method_is req ''POST'' \<and>
     (\<exists>v. rq_header req ''hysteria-auth'' = Some v \<and> to_str v = Some password)"
  by (auto simp: validate_auth_request_def split: option.splits)

lemma validate_no_panic [simp]: "validate_auth_request to_str req password \<noteq> Panic"
  by (auto simp: validate_auth_request_def split: option.splits)

text \<open>Over any connection, a client is let in only after a request with the password.\<close>

lemma map_err_Ok_iff: "map_err msg m s = (Ok x, s') \<longleftrightarrow> m s = (Ok x, s')"
  by (auto simp: map_err_def split: prod.splits res.splits)

lemma auth_turn_True:
  "auth_turn h3 to_str padding password udp_enabled h = (Ok True, h') \<Longrightarrow>
   \<exists>i h1 req q h2. h3_resolve_request h3 i h1 = (Ok (req, q), h2) \<and> validate_auth_request to_str req password = Ok ()"
proof -
  assume turn: "auth_turn h3 to_str padding password udp_enabled h = (Ok True, h')"
  then obtain i h1 req q h2 where r: "h3_resolve_request h3 i h1 = (Ok (req, q), h2)"
    and rest: "(case validate_auth_request to_str req password of
               Ok _ \<Rightarrow> (\<lambda>h.
                 bind_io (map_err ''failed to send auth response''
                            (h3_send_response h3 q (auth_response udp_enabled (padding h)))) (\<lambda>_.
                 bind_io (map_err ''failed to finish auth stream'' (h3_finish h3 q)) (\<lambda>_.
                 ret True)) h)
             | Err e \<Rightarrow>
                 bind_io (map_err ''failed to send reject response'' (h3_send_response h3 q reject_response)) (\<lambda>_.
                 bind_io (map_err ''failed to finish reject stream'' (h3_finish h3 q)) (\<lambda>_.
                 ret False))
             | Panic \<Rightarrow> (\<lambda>h. (Panic, h))) h2 = (Ok True, h')"
    unfolding auth_turn_def by (auto simp: bind_io_Ok_iff map_err_Ok_iff split: option.splits)
  have "validate_auth_request to_str req password = Ok ()"
    using rest by (cases "validate_auth_request to_str req password") (auto simp: bind_io_Ok_iff ret_def)
  with r show ?thesis by blast
qed

lemma auth_needs_password:
  assumes "auth_connection h3 to_str padding password udp_enabled h = Some (Ok (), h')"
  shows "\<exists>i h1 req q h2. h3_resolve_request h3 i h1 = (Ok (req, q), h2) \<and> validate_auth_request to_str req password = Ok ()"
proof -
  let ?P = "\<lambda>h3 to_str padding password udp_enabled h y. fst y = Ok () \<longrightarrow>
    (\<exists>i h1 req q h2. h3_resolve_request h3 i h1 = (Ok (req, q), h2) \<and> validate_auth_request to_str req password = Ok ())"
  have "?P h3 to_str padding password udp_enabled h (Ok (), h')"
    using assms
  proof (rule auth_connection.raw_induct [where P = ?P, rotated], intro impI)
    fix f h3 to_str padding password udp_enabled h y
    assume IH: "\<And>h3 to_str padding password udp_enabled h y. f h3 to_str padding password udp_enabled h = Some y \<Longrightarrow>
        ?P h3 to_str padding password udp_enabled h y"
      and body: "(case auth_turn h3 to_str padding password udp_enabled h of
        (Ok authenticated, h') \<Rightarrow>
          if authenticated then Some (Ok (), h') else f h3 to_str padding password udp_enabled h'
      | (Err e, h') \<Rightarrow> Some (Err e, h')
      | (Panic, h') \<Rightarrow> Some (Panic, h')) = Some y"
      and y: "fst y = Ok ()"
    show "\<exists>i h1 req q h2. h3_resolve_request h3 i h1 = (Ok (req, q), h2) \<and> validate_auth_request to_str req password = Ok ()"
    proof -
      obtain a h1 where t: "auth_turn h3 to_str padding password udp_enabled h = (a, h1)" by fastforce
      show ?thesis
      proof (cases a)
        case (Ok authed)
        then show ?thesis
        proof (cases authed)
          case True
          then show ?thesis using auth_turn_True t Ok by simp
        next
          case False
          with body t Ok have "f h3 to_str padding password udp_enabled h1 = Some y" by simp
          from IH [OF this] y show ?thesis by blast
        qed
      qed (use body t y in auto)
    qed
  qed
  then show ?thesis by simp
qed

section \<open>A connection as a list of requests\<close>

text \<open>A client that opens streams one after the other, and the answers it got.\<close>

type_synonym h3_script = "http_request list \<times> http_response list"

definition script_h3 :: "(h3_script, http_request, unit) h3_ops" where
  "script_h3 =
     \<lparr>h3_accept = (\<lambda>(reqs, log). case reqs of [] \<Rightarrow> (Ok None, ([], log)) | req # rest \<Rightarrow> (Ok (Some req), (rest, log))),
      h3_resolve_request = (\<lambda>req h. (Ok (req, ()), h)),
      h3_send_response = (\<lambda>_ resp (reqs, log). (Ok (), (reqs, log @ [resp]))),
      h3_finish = (\<lambda>_ h. (Ok (), h))\<rparr>"

lemma auth_turn_script:
  "auth_turn script_h3 to_str padding password udp ([], log) = (Err (IoError UnexpectedEof ''no streams''), ([], log))"
  "validate_auth_request to_str req password = Ok () \<Longrightarrow>
   auth_turn script_h3 to_str padding password udp (req # reqs, log)
     = (Ok True, (reqs, log @ [auth_response udp (padding (reqs, log))]))"
  "validate_auth_request to_str req password \<noteq> Ok () \<Longrightarrow>
   auth_turn script_h3 to_str padding password udp (req # reqs, log) = (Ok False, (reqs, log @ [reject_response]))"
  unfolding auth_turn_def bind_io_def map_err_def ret_def script_h3_def
  by (auto split: res.splits)

definition auth_valid :: "(byte list \<Rightarrow> string option) \<Rightarrow> string \<Rightarrow> http_request \<Rightarrow> bool" where
  "auth_valid to_str password req \<longleftrightarrow>
     rq_uri_is req ''https://hysteria/auth'' \<and> rq_method_is req ''POST'' \<and>
     (\<exists>v. rq_header req ''hysteria-auth'' = Some v \<and> to_str v = Some password)"

text \<open>What is to become of the requests \<open>reqs\<close>: the result, the requests left, and the answers.\<close>

definition auth_outcome ::
  "(byte list \<Rightarrow> string option) \<Rightarrow> string \<Rightarrow> bool \<Rightarrow> http_request list \<Rightarrow> unit res \<Rightarrow> http_request list \<Rightarrow> http_response list \<Rightarrow> bool" where
  "auth_outcome to_str password udp_enabled reqs r rest log \<longleftrightarrow>
     (if \<exists>req \<in> set reqs. auth_valid to_str password req
      then r = Ok () \<and> rest = tl (dropWhile (\<lambda>req. \<not> auth_valid to_str password req) reqs) \<and>
        (\<exists>pad. log = map (\<lambda>_. reject_response) (takeWhile (\<lambda>req. \<not> auth_valid to_str password req) reqs)
           @ [auth_response udp_enabled pad])
      else r = Err (IoError UnexpectedEof ''no streams'') \<and> rest = [] \<and> log = map (\<lambda>_. reject_response) reqs)"

lemma auth_valid_iff: "auth_valid to_str password req \<longleftrightarrow> validate_auth_request to_str req password = Ok ()"
  by (simp add: auth_valid_def validate_Ok_iff)

lemma auth_outcome_reject:
  "\<not> auth_valid to_str password req \<Longrightarrow> auth_outcome to_str password udp_enabled reqs r rest log \<Longrightarrow>
   auth_outcome to_str password udp_enabled (req # reqs) r rest (reject_response # log)"
  by (auto simp: auth_outcome_def split: if_splits)

lemma auth_script:
  "\<exists>r rest log'. auth_connection script_h3 to_str padding password udp_enabled (reqs, log) = Some (r, (rest, log @ log'))
     \<and> auth_outcome to_str password udp_enabled reqs r rest log'"
proof (induction reqs arbitrary: log)
  case Nil
  show ?case by (subst auth_connection.simps) (simp add: auth_turn_script auth_outcome_def)
next
  case (Cons req reqs)
  show ?case
  proof (cases "auth_valid to_str password req")
    case True
    then show ?thesis
      by (subst auth_connection.simps) (auto simp: auth_turn_script auth_valid_iff auth_outcome_def)
  next
    case False
    obtain r rest log' where
      IH: "auth_connection script_h3 to_str padding password udp_enabled (reqs, log @ [reject_response])
          = Some (r, (rest, (log @ [reject_response]) @ log'))"
      and post: "auth_outcome to_str password udp_enabled reqs r rest log'"
      using Cons.IH [of "log @ [reject_response]"] by blast
    have "auth_connection script_h3 to_str padding password udp_enabled (req # reqs, log)
        = Some (r, (rest, log @ reject_response # log'))"
      using False IH by (subst auth_connection.simps) (simp add: auth_turn_script auth_valid_iff)
    with auth_outcome_reject [OF False post] show ?thesis by blast
  qed
qed

section \<open>Properties\<close>



end
