(* ===== verification/Anytls_Handlers.thy ===== *)
theory Anytls_Handlers
  imports Byte_Parser Copy_Termination Anytls_Session Udp_Routing Message_Stream
begin

text \<open>
  The handlers of streams in \<^verbatim>\<open>src/anytls/session.rs\<close>: the destination a stream opens with is read, then the stream is
  forwarded over TCP or, for the two magic names, its datagrams over UDP. The stream is any \<open>duplex_stream\<close>; that
  \<^verbatim>\<open>AnyTlsStream\<close> is one is shown here. The theorems say which destination is dialled, what it gets and what the
  client is told.
\<close>

section \<open>Reading off a stream\<close>

text \<open>\<^verbatim>\<open>AsyncReadExt::read_exact\<close> and \<^verbatim>\<open>read_u8\<close>: exactly so many bytes, or an error when the stream ends before.\<close>

definition early_eof :: io_error where
  "early_eof = IoError UnexpectedEof ''early eof''"

definition bind_await :: "('x res \<times> 's) option \<Rightarrow> ('x \<Rightarrow> 's \<Rightarrow> ('y res \<times> 's) option) \<Rightarrow> ('y res \<times> 's) option" where
  "bind_await m f = Option.bind m (\<lambda>(r, s).
     case r of
       Ok x \<Rightarrow> f x s
     | Err e \<Rightarrow> Some (Err e, s)
     | Panic \<Rightarrow> Some (Panic, s))"

partial_function (option) read_exact :: "'s reader \<Rightarrow> nat \<Rightarrow> 's \<Rightarrow> (byte list res \<times> 's) option" where
  "read_exact rd n s =
     (if n = 0 then Some (Ok [], s)
      else Option.bind (await_read rd s n) (\<lambda>(r, s1).
        case r of
          Ok bs \<Rightarrow>
            if bs = [] then Some (Err early_eof, s1)
            else Option.bind (read_exact rd (n - length bs) s1) (\<lambda>(r2, s2).
              case r2 of
                Ok more_bytes \<Rightarrow> Some (Ok (bs @ more_bytes), s2)
              | Err e \<Rightarrow> Some (Err e, s2)
              | Panic \<Rightarrow> Some (Panic, s2))
        | Err e \<Rightarrow> Some (Err e, s1)
        | Panic \<Rightarrow> Some (Panic, s1)))"

definition stream_read_u8 :: "'s reader \<Rightarrow> 's \<Rightarrow> (byte res \<times> 's) option" where
  "stream_read_u8 rd s = Option.bind (await_read rd s 1) (\<lambda>(r, s1).
     case r of
       Ok [] \<Rightarrow> Some (Err (IoError UnexpectedEof ''unexpected end of file''), s1)
     | Ok (b # _) \<Rightarrow> Some (Ok b, s1)
     | Err e \<Rightarrow> Some (Err e, s1)
     | Panic \<Rightarrow> Some (Panic, s1))"

text \<open>\<^verbatim>\<open>read_location_direct\<close>: the destination in the format of SOCKS5.\<close>

definition read_location_direct :: "'s reader \<Rightarrow> 's \<Rightarrow> (net_location res \<times> 's) option" where
  "read_location_direct rd s =
     bind_await (read_exact rd 1 s) (\<lambda>addr_type s1.
       if hd addr_type = 0x01 then
         bind_await (read_exact rd 6 s1) (\<lambda>buf s2.
           Some (Ok (net_location_new (Ipv4 (ipv4_of_octets (take 4 buf))) (u16_of_be (drop 4 buf))), s2))
       else if hd addr_type = 0x04 then
         bind_await (read_exact rd 18 s1) (\<lambda>buf s2.
           Some (Ok (net_location_new (Ipv6 (ipv6_of_octets (take 16 buf))) (u16_of_be (drop 16 buf))), s2))
       else if hd addr_type = 0x03 then
         bind_await (read_exact rd 1 s1) (\<lambda>len s2.
           let domain_len = unat (hd len) in
           bind_await (read_exact rd (domain_len + 2) s2) (\<lambda>buf s3.
             case from_utf8 (take domain_len buf) of
               None \<Rightarrow> Some (Err (IoError InvalidData ''Invalid domain encoding''), s3)
             | Some domain \<Rightarrow>
                 (case address_from domain of
                    Ok a \<Rightarrow> Some (Ok (net_location_new a (u16_of_be (drop domain_len buf))), s3)
                  | Err e \<Rightarrow> Some (Err e, s3)
                  | Panic \<Rightarrow> Some (Panic, s3))))
       else Some (Err (IoError InvalidInput ''Unknown address type''), s1))"

section \<open>The handlers\<close>

text \<open>What a handler works with: the session's environment, the copy's, the operations of the stream, of a connection and of a
  UDP socket, and the dialling. \<open>sv_elapsed\<close> is the state that a dial leaves that took too long.\<close>

record ('w, 'a, 'd, 'u, 'c, 's) stream_env =
  sv_session :: "'w session_env"
  sv_copy :: copy_env
  sv_ops :: "'a async_stream"
  sv_dest_ops :: "'d async_stream"
  sv_dest :: "fd \<Rightarrow> 'd"
  sv_udp_ops :: "'u message_stream"
  sv_udp :: "fd \<Rightarrow> 'u"
  sv_sys :: "'s system"
  sv_resolve :: "('c resolver) resolution"
  sv_elapsed :: "('c resolver \<times> 's) option"

text \<open>What becomes of a stream: it failed, it was copied to a TCP connection or a UDP socket, or it is handed to the routing of
  datagrams, which starts in the state given.\<close>

datatype ('a, 'd, 'u, 'c, 's) handled =
    StreamFailed "unit res" 'a
  | TcpForwarded "unit res" 'a 'd
  | UdpCopied "unit res" "'a vless_stream" 'u
  | UdpRouting "('a packet_stream, 'c resolver, 's) routing"

type_synonym ('w, 'a, 'd, 'u, 'c, 's) handling =
  "(('a, 'd, 'u, 'c, 's) handled \<times> 'w session \<times> 'c resolver \<times> 's) option"

definition UOT_V1_MAGIC_ADDRESS :: string where "UOT_V1_MAGIC_ADDRESS = ''sp.udp-over-tcp.arpa''"
definition UOT_V2_MAGIC_ADDRESS :: string where "UOT_V2_MAGIC_ADDRESS = ''sp.v2.udp-over-tcp.arpa''"

definition handle_tcp_forward ::
  "('w, 'a, 'd, 'u, 'c, 's) stream_env \<Rightarrow> u32 \<Rightarrow> net_location \<Rightarrow> 'a \<Rightarrow> 'w session \<Rightarrow> 'c resolver \<times> 's \<Rightarrow>
   ('w, 'a, 'd, 'u, 'c, 's) handling" where
  "handle_tcp_forward sv stream_id destination stream se st =
     (case within (sv_elapsed sv)
             (connect_tcp_with_cc (sv_sys sv) (sv_resolve sv) destination (rs_tcp_congestion (fst st))) st of
        (Some (Ok fd), st1) \<Rightarrow>
          let se1 = snd (send_synack (sv_session sv) stream_id None se) in
          Option.bind
            (run_copy (sv_copy sv) (sv_ops sv) (sv_dest_ops sv)
               (copy_bidirectional (ce_mem (sv_copy sv)) (ce_clock (sv_copy sv) 0) (sv_ops sv) (sv_dest_ops sv)
                  stream (sv_dest sv fd) False False))
            (\<lambda>(result, stream', client_stream'). Some (TcpForwarded result stream' client_stream', se1, st1))
      | (Some (Err e), st1) \<Rightarrow>
          Some (StreamFailed (Err e) stream,
                snd (send_synack (sv_session sv) stream_id (Some (''connect failed: '' @ err_msg e)) se), st1)
      | (Some Panic, st1) \<Rightarrow> Some (StreamFailed Panic stream, se, st1)
      | (None, st1) \<Rightarrow>
          let error_msg = ''connect to '' @ display_location destination @ '' timed out after 30s'' in
          Some (StreamFailed (Err (other_error error_msg)) stream,
                snd (send_synack (sv_session sv) stream_id (Some error_msg) se), st1))"

definition udp_disabled :: io_error where
  "udp_disabled = IoError Unsupported ''UDP not enabled for AnyTLS''"

definition handle_uot_v2_connect ::
  "('w, 'a, 'd, 'u, 'c, 's) stream_env \<Rightarrow> u32 \<Rightarrow> net_location \<Rightarrow> 'a \<Rightarrow> 'w session \<Rightarrow> 'c resolver \<times> 's \<Rightarrow>
   ('w, 'a, 'd, 'u, 'c, 's) handling" where
  "handle_uot_v2_connect sv stream_id destination stream se st =
     (case connect_udp (sv_sys sv) (sv_resolve sv) destination st of
        (Ok fd, st1) \<Rightarrow>
          let se1 = snd (send_synack (sv_session sv) stream_id None se) in
          Option.bind
            (run_udp_copy (ce_mem (sv_copy sv)) (ce_clock (sv_copy sv)) (ce_budget (sv_copy sv))
               (vless_message_ops (sv_ops sv)) (sv_udp_ops sv)
               (vless_new (ce_mem (sv_copy sv)) stream) (sv_udp sv fd) False False)
            (\<lambda>(result, server', client'). Some (UdpCopied result server' client', se1, st1))
      | (Err e, st1) \<Rightarrow>
          Some (StreamFailed (Err e) stream,
                snd (send_synack (sv_session sv) stream_id (Some (''UDP connect failed: '' @ err_msg e)) se), st1)
      | (Panic, st1) \<Rightarrow> Some (StreamFailed Panic stream, se, st1))"

definition handle_uot_multi_destination ::
  "('w, 'a, 'd, 'u, 'c, 's) stream_env \<Rightarrow> u32 \<Rightarrow> 'a \<Rightarrow> 'w session \<Rightarrow> 'c resolver \<times> 's \<Rightarrow>
   ('w, 'a, 'd, 'u, 'c, 's) handling" where
  "handle_uot_multi_destination sv stream_id stream se st =
     (let server_stream = new_uot (ce_mem (sv_copy sv)) stream;
          se1 = snd (send_synack (sv_session sv) stream_id None se)
      in Some (UdpRouting (routing_new (ce_mem (sv_copy sv)) server_stream (fst st) (snd st) (ce_clock (sv_copy sv) 0)), se1, st))"

text \<open>A read that fails ends the handler.\<close>

definition or_fail ::
  "('x res \<times> 'a) option \<Rightarrow> 'w session \<Rightarrow> 'c resolver \<times> 's \<Rightarrow> ('x \<Rightarrow> 'a \<Rightarrow> ('w, 'a, 'd, 'u, 'c, 's) handling) \<Rightarrow>
   ('w, 'a, 'd, 'u, 'c, 's) handling" where
  "or_fail m se st f = Option.bind m (\<lambda>(r, stream).
     case r of
       Ok x \<Rightarrow> f x stream
     | Err e \<Rightarrow> Some (StreamFailed (Err e) stream, se, st)
     | Panic \<Rightarrow> Some (StreamFailed Panic stream, se, st))"

definition handle_uot_v2 ::
  "('w, 'a, 'd, 'u, 'c, 's) stream_env \<Rightarrow> u32 \<Rightarrow> 'a \<Rightarrow> 'w session \<Rightarrow> 'c resolver \<times> 's \<Rightarrow>
   ('w, 'a, 'd, 'u, 'c, 's) handling" where
  "handle_uot_v2 sv stream_id stream se st =
     (if \<not> se_udp_enabled se then Some (StreamFailed (Err udp_disabled) stream, se, st)
      else
        or_fail (stream_read_u8 (op_read (sv_ops sv)) stream) se st (\<lambda>is_connect stream1.
        or_fail (read_location_direct (op_read (sv_ops sv)) stream1) se st (\<lambda>destination stream2.
          if is_connect = 1 then handle_uot_v2_connect sv stream_id destination stream2 se st
          else handle_uot_multi_destination sv stream_id stream2 se st)))"

definition handle_uot_v1 ::
  "('w, 'a, 'd, 'u, 'c, 's) stream_env \<Rightarrow> u32 \<Rightarrow> 'a \<Rightarrow> 'w session \<Rightarrow> 'c resolver \<times> 's \<Rightarrow>
   ('w, 'a, 'd, 'u, 'c, 's) handling" where
  "handle_uot_v1 sv stream_id stream se st =
     (if \<not> se_udp_enabled se then Some (StreamFailed (Err udp_disabled) stream, se, st)
      else handle_uot_multi_destination sv stream_id stream se st)"

definition handle_new_stream ::
  "('w, 'a, 'd, 'u, 'c, 's) stream_env \<Rightarrow> u32 \<Rightarrow> 'a \<Rightarrow> 'w session \<Rightarrow> 'c resolver \<times> 's \<Rightarrow>
   ('w, 'a, 'd, 'u, 'c, 's) handling" where
  "handle_new_stream sv stream_id stream se st =
     or_fail (read_location_direct (op_read (sv_ops sv)) stream) se st (\<lambda>destination stream1.
       if nl_address destination = Hostname UOT_V2_MAGIC_ADDRESS then handle_uot_v2 sv stream_id stream1 se st
       else if nl_address destination = Hostname UOT_V1_MAGIC_ADDRESS then handle_uot_v1 sv stream_id stream1 se st
       else handle_tcp_forward sv stream_id destination stream1 se st)"

section \<open>A stream of a session is a duplex stream\<close>

definition stream_readable :: "('c, 't) anytls_stream \<Rightarrow> bool" where
  "stream_readable st \<longleftrightarrow> as_read_offset st \<le> length (as_read_buffer st)"

locale anytls_channels = chan_rx recv rx_msgs rx_delay + chan_tx reserve send_item try_send tx_sent tx_delay
  for recv :: "'c \<Rightarrow> byte list option poll \<times> 'c" and rx_msgs rx_delay
    and reserve :: "'t \<Rightarrow> bool poll \<times> 't" and send_item try_send tx_sent tx_delay
begin

lemma read_frame: "anytls_poll_read recv st n = (p, st') \<Longrightarrow> as_tx st' = as_tx st"
  by (auto simp: anytls_poll_read_def Let_def split: if_splits poll.splits option.splits prod.splits)

lemma read_closed:
  "as_stream_closed st \<Longrightarrow> anytls_poll_read recv st n = (Ready (Err (broken_pipe ''stream closed'')), st)"
  by (simp add: anytls_poll_read_def)

lemma shutdown_frame:
  "anytls_poll_shutdown reserve send_item st = (p, st') \<Longrightarrow>
   stream_content rx_msgs st' = stream_content rx_msgs st \<and> stream_readable st' = stream_readable st \<and> as_rx st' = as_rx st
   \<and> stream_written tx_sent st' = stream_written tx_sent st \<and> p \<noteq> Ready Panic
   \<and> (\<forall>e. p = Ready (Err e) \<longrightarrow> err_kind e = BrokenPipe) \<and> (p = Pending \<longrightarrow> tx_delay (as_tx st') < tx_delay (as_tx st))"
  using reserve_sent [of "as_tx st"] reserve_pending [of "as_tx st"] send_sent [of _ "(as_id st, [])"]
  by (auto simp: anytls_poll_shutdown_def Let_def stream_content_def stream_written_def stream_readable_def broken_pipe_def
      split: if_splits poll.splits bool.splits prod.splits)

lemma write_frame_rx:
  assumes "anytls_poll_write reserve send_item st bs = (p, st')"
  shows "stream_content rx_msgs st' = stream_content rx_msgs st \<and> stream_readable st' = stream_readable st \<and> as_rx st' = as_rx st"
proof -
  have "\<exists>t. st' = st\<lparr>as_tx := t\<rparr>" using assms by (cases rule: poll_write_cases) blast+
  then show ?thesis by (auto simp: stream_content_def stream_readable_def)
qed

text \<open>Reading keeps whatever holds of the sending end, writing whatever holds of the receiving end.\<close>

lemma readable_source:
  "byte_source (anytls_poll_read recv) (stream_content rx_msgs) (\<lambda>s. stream_readable s \<and> F (as_tx s))
     (\<lambda>st. rx_delay (as_rx st)) (\<lambda>e. err_kind e = BrokenPipe)"
proof (unfold_locales, goal_cases)
  case (1 s n bs s')
  then show ?case using poll_read_ok [of s n bs s'] read_frame [OF 1(2)] read_closed [of s n]
    by (cases "as_stream_closed s") (auto simp: stream_ok_def stream_readable_def)
next
  case (2 s n e s')
  then show ?case using poll_read_no_fail(1) [of s n e s'] read_closed [of s n]
    by (cases "as_stream_closed s") (auto simp: stream_ok_def stream_readable_def broken_pipe_def)
next
  case (3 s n s')
  then show ?case using poll_read_pending [of s n s'] read_frame [OF 3(2)] read_closed [of s n]
    by (cases "as_stream_closed s") (auto simp: stream_ok_def stream_readable_def)
next
  case (4 s n s')
  then show ?case using poll_read_no_fail(2) [of s n s'] read_closed [of s n]
    by (cases "as_stream_closed s") (auto simp: stream_ok_def stream_readable_def)
qed

lemma any_sink:
  "byte_sink (anytls_poll_write reserve send_item) (stream_written tx_sent)
     (\<lambda>s. stream_readable s \<and> stream_content rx_msgs s = cs \<and> G (as_rx s))
     (\<lambda>st. tx_delay (as_tx st)) (\<lambda>e. err_kind e = BrokenPipe)"
proof (unfold_locales, goal_cases)
  case (1 w bs k w')
  from 1(3) show ?case
  proof (cases rule: poll_write_cases)
    case sent
    moreover have "take k bs = take max_frame_data_size bs" using sent(2) by (simp add: min_def)
    ultimately show ?thesis using write_frame_rx [OF 1(3)] 1 by (simp add: stream_written_def)
  qed simp_all
next
  case (2 w bs e w')
  from 2(3) show ?case
    using write_frame_rx [OF 2(3)] 2(1) by (cases rule: poll_write_cases) (simp_all add: stream_written_def broken_pipe_def)
next
  case (3 w bs w')
  from 3(3) show ?case
    using write_frame_rx [OF 3(3)] 3(1) by (cases rule: poll_write_cases) (simp_all add: stream_written_def)
next
  case (4 w bs w')
  show ?case
  proof
    assume "anytls_poll_write reserve send_item w bs = (Ready Panic, w')"
    then show False by (cases rule: poll_write_cases) simp_all
  qed
qed

end

sublocale anytls_channels \<subseteq> duplex: steady_duplex "anytls_stream_ops recv reserve send_item" "stream_content rx_msgs"
    "stream_written tx_sent" stream_readable "\<lambda>st. rx_delay (as_rx st)" "\<lambda>st. tx_delay (as_tx st)"
    "\<lambda>e. err_kind e = BrokenPipe" False
proof (intro steady_duplex.intro duplex_stream.intro steady_duplex_axioms.intro, goal_cases)
  case (1 ws)
  show ?case using readable_source [of "\<lambda>t. concat (map snd (tx_sent t)) = ws"]
    by (simp add: anytls_stream_ops_def stream_written_def)
next
  case (2 cs)
  show ?case using any_sink [of cs "\<lambda>_. True"] by (simp add: anytls_stream_ops_def)
next
  case (5 s p s')
  then show ?case using shutdown_frame [of s p s']
    by (auto simp: anytls_stream_ops_def split: poll.splits res.splits)
next
  case (7 ws d)
  show ?case using readable_source [of "\<lambda>t. concat (map snd (tx_sent t)) = ws \<and> tx_delay t = d"]
    by (simp add: anytls_stream_ops_def stream_written_def)
next
  case (8 cs d)
  show ?case using any_sink [of cs "\<lambda>c. rx_delay c = d"] by (simp add: anytls_stream_ops_def)
next
  case (11 s p s')
  then show ?case using shutdown_frame [of s p s'] by (auto simp: anytls_stream_ops_def)
qed (auto simp: anytls_stream_ops_def)

context anytls_channels
begin

lemmas anytls_steady = duplex.steady_duplex_axioms

end

interpretation queue: anytls_channels queue_recv queue_msgs length queue_reserve queue_send queue_try_send qt_sent
    "\<lambda>t. sum_list (qt_waits t)"
  by unfold_locales

section \<open>The destination as a parser\<close>

definition socks_location :: "byte list \<Rightarrow> net_location parsed" where
  "socks_location bs =
     bind_parsed (parse_u8 bs) (\<lambda>addr_type bs.
       if addr_type = 0x01 then
         bind_parsed (parse_bytes 6 bs) (\<lambda>buf.
           Parsed (net_location_new (Ipv4 (ipv4_of_octets (take 4 buf))) (u16_of_be (drop 4 buf))))
       else if addr_type = 0x04 then
         bind_parsed (parse_bytes 18 bs) (\<lambda>buf.
           Parsed (net_location_new (Ipv6 (ipv6_of_octets (take 16 buf))) (u16_of_be (drop 16 buf))))
       else if addr_type = 0x03 then
         bind_parsed (parse_u8 bs) (\<lambda>len bs.
           bind_parsed (parse_bytes (unat len + 2) bs) (\<lambda>buf bs.
             case from_utf8 (take (unat len) buf) of
               None \<Rightarrow> Rejected (IoError InvalidData ''Invalid domain encoding'')
             | Some domain \<Rightarrow>
                 (case address_from domain of
                    Ok a \<Rightarrow> Parsed (net_location_new a (u16_of_be (drop (unat len) buf))) bs
                  | Err e \<Rightarrow> Rejected e
                  | Panic \<Rightarrow> Short)))
       else Rejected (IoError InvalidInput ''Unknown address type''))"

text \<open>The bytes a client sends for a location.\<close>

fun socks_bytes :: "address \<Rightarrow> u16 \<Rightarrow> byte list" where
  "socks_bytes (Ipv4 ip) port = 0x01 # ipv4_octets ip @ u16_be port"
| "socks_bytes (Ipv6 ip) port = 0x04 # ipv6_octets ip @ u16_be port"
| "socks_bytes (Hostname host) port = 0x03 # of_nat (length host) # bytes_of host @ u16_be port"

fun socks_sendable :: "address \<Rightarrow> bool" where
  "socks_sendable (Hostname host) \<longleftrightarrow>
     length host < 256 \<and> from_utf8 (bytes_of host) = Some host \<and> address_from host = Ok (Hostname host)"
| "socks_sendable _ \<longleftrightarrow> True"

lemma parse_u8_Cons [simp]: "parse_u8 (b # bs) = Parsed b bs"
  by (simp add: parse_u8_def)

lemma parse_two: "length xs + length ys = n \<Longrightarrow> parse_bytes n (xs @ ys @ zs) = Parsed (xs @ ys) zs"
  using parse_bytes_append [of "xs @ ys" n zs] by simp

lemma socks_location_written:
  assumes "socks_sendable a"
  shows "socks_location (socks_bytes a port @ rest) = Parsed (net_location_new a port) rest"
proof (cases a)
  case (Ipv4 ip)
  then show ?thesis by (simp add: socks_location_def parse_two)
next
  case (Ipv6 ip)
  then show ?thesis by (simp add: socks_location_def parse_two)
next
  case (Hostname host)
  then have "unat (of_nat (length host) :: byte) = length host" using assms by (simp add: unat_of_nat)
  moreover have "length (bytes_of host) = length host" by (simp add: bytes_of_def)
  ultimately show ?thesis using Hostname assms by (simp add: socks_location_def parse_two)
qed

context byte_source
begin

definition yields :: "('x res \<times> 's) option \<Rightarrow> 'x parsed \<Rightarrow> bool" where
  "yields m p \<longleftrightarrow> (\<exists>r s. m = Some (r, s) \<and> src_inv s \<and>
     (case r of
        Ok x \<Rightarrow> p = Parsed x (content s)
      | Err e \<Rightarrow> src_err e \<or> err_kind e = UnexpectedEof \<and> p = Short \<or> p = Rejected e
      | Panic \<Rightarrow> False))"

lemma yields_return: "src_inv s \<Longrightarrow> yields (Some (Ok x, s)) (Parsed x (content s))"
  by (simp add: yields_def)

lemma yields_reject: "src_inv s \<Longrightarrow> yields (Some (Err e, s)) (Rejected e)"
  by (simp add: yields_def)

lemma yields_if:
  "(c \<Longrightarrow> yields m p) \<Longrightarrow> (\<not> c \<Longrightarrow> yields m' p') \<Longrightarrow> yields (if c then m else m') (if c then p else p')"
  by simp

lemma yields_bind:
  assumes "yields m p" and "\<And>x s. src_inv s \<Longrightarrow> yields (f x s) (g x (content s))"
  shows "yields (bind_await m f) (bind_parsed p g)"
proof -
  obtain r s where m: "m = Some (r, s)" and inv: "src_inv s"
    and post: "case r of
        Ok x \<Rightarrow> p = Parsed x (content s)
      | Err e \<Rightarrow> src_err e \<or> err_kind e = UnexpectedEof \<and> p = Short \<or> p = Rejected e
      | Panic \<Rightarrow> False"
    using assms(1) unfolding yields_def by blast
  show ?thesis
  proof (cases r)
    case (Ok x)
    then show ?thesis using post assms(2) [OF inv, of x] unfolding m by (simp add: bind_await_def)
  next
    case (Err e)
    then show ?thesis using post inv unfolding m yields_def by (auto simp: bind_await_def)
  qed (use post in simp)
qed

lemma yields_exact: "src_inv s \<Longrightarrow> yields (read_exact poll_read n s) (parse_bytes n (content s))"
proof (induction n arbitrary: s rule: less_induct)
  case (less n)
  show ?case
  proof (cases "n = 0")
    case True
    then show ?thesis using less.prems by (simp add: read_exact.simps [of _ 0 s] yields_def parse_bytes_def)
  next
    case False
    obtain r s1 where run: "await_read poll_read s n = Some (r, s1)" and post: "read_post s n r s1"
      using await_read_total [OF less.prems] by blast
    note step = read_exact.simps [of poll_read n s]
    show ?thesis
    proof (cases r)
      case (Ok bs)
      note rp = post [unfolded read_post_def Ok res.case]
      show ?thesis
      proof (cases "bs = []")
        case True
        then show ?thesis using rp False run Ok by (auto simp: step yields_def parse_bytes_def early_eof_def)
      next
        case nonempty: False
        then have "n - length bs < n" using False by simp
        from less.IH [OF this, of s1] rp obtain r2 s2 where r2: "read_exact poll_read (n - length bs) s1 = Some (r2, s2)"
          and inv2: "src_inv s2"
          and p2: "case r2 of
              Ok x \<Rightarrow> parse_bytes (n - length bs) (content s1) = Parsed x (content s2)
            | Err e \<Rightarrow> src_err e \<or> err_kind e = UnexpectedEof \<and> parse_bytes (n - length bs) (content s1) = Short
                \<or> parse_bytes (n - length bs) (content s1) = Rejected e
            | Panic \<Rightarrow> False"
          unfolding yields_def by blast
        show ?thesis
          using run Ok nonempty False r2 inv2 p2 rp
          by (cases r2) (auto simp: step yields_def parse_bytes_def split: if_splits)
      qed
    next
      case (Err e)
      then show ?thesis using post run False by (simp add: step yields_def read_post_def)
    qed (use post in \<open>simp add: read_post_def\<close>)
  qed
qed

lemma yields_first:
  assumes "src_inv s" and "\<And>b s. src_inv s \<Longrightarrow> yields (f [b] s) (g b (content s))"
  shows "yields (bind_await (read_exact poll_read 1 s) f) (bind_parsed (parse_u8 (content s)) g)"
proof -
  have "bind_parsed (parse_u8 bs) g = bind_parsed (parse_bytes 1 bs) (\<lambda>buf. g (hd buf))" for bs
    by (cases bs) (simp_all add: parse_u8_def parse_bytes_def)
  moreover have "yields (bind_await (read_exact poll_read 1 s) f) (bind_parsed (parse_bytes 1 (content s)) (\<lambda>buf. g (hd buf)))"
  proof -
    obtain r s1 where m: "read_exact poll_read 1 s = Some (r, s1)" and inv: "src_inv s1"
      and post: "case r of
        Ok x \<Rightarrow> parse_bytes 1 (content s) = Parsed x (content s1)
      | Err e \<Rightarrow> src_err e \<or> err_kind e = UnexpectedEof \<and> parse_bytes 1 (content s) = Short \<or> parse_bytes 1 (content s) = Rejected e
      | Panic \<Rightarrow> False"
      using yields_exact [OF assms(1), of 1] unfolding yields_def by blast
    show ?thesis
    proof (cases r)
      case (Ok x)
      with post obtain b where "x = [b]" by (cases "content s") (auto simp: parse_bytes_def split: if_splits)
      with Ok post assms(2) [OF inv, of b] show ?thesis unfolding m by (simp add: bind_await_def)
    next
      case (Err e)
      then show ?thesis using post inv unfolding m yields_def by (auto simp: bind_await_def)
    qed (use post in simp)
  qed
  ultimately show ?thesis by simp
qed

lemma yields_u8: "src_inv s \<Longrightarrow> yields (stream_read_u8 poll_read s) (parse_u8 (content s))"
proof -
  assume "src_inv s"
  then obtain r s1 where run: "await_read poll_read s 1 = Some (r, s1)" and post: "read_post s 1 r s1"
    using await_read_total by blast
  then show ?thesis
    by (cases r) (auto simp: stream_read_u8_def yields_def parse_u8_def read_post_def split: list.splits)
qed

lemma yields_domain:
  assumes "src_inv s"
  shows "yields
    (case from_utf8 bs of
       None \<Rightarrow> Some (Err (IoError InvalidData ''Invalid domain encoding''), s)
     | Some domain \<Rightarrow>
         (case address_from domain of
            Ok a \<Rightarrow> Some (Ok (net_location_new a port), s)
          | Err e \<Rightarrow> Some (Err e, s)
          | Panic \<Rightarrow> Some (Panic, s)))
    (case from_utf8 bs of
       None \<Rightarrow> Rejected (IoError InvalidData ''Invalid domain encoding'')
     | Some domain \<Rightarrow>
         (case address_from domain of
            Ok a \<Rightarrow> Parsed (net_location_new a port) (content s)
          | Err e \<Rightarrow> Rejected e
          | Panic \<Rightarrow> Short))"
  using assms address_from_no_panic by (auto simp: yields_def split: option.splits res.splits)

lemma yields_location: "src_inv s \<Longrightarrow> yields (read_location_direct poll_read s) (socks_location (content s))"
  unfolding read_location_direct_def socks_location_def Let_def
  by (rule yields_first, assumption, simp only: list.sel,
      intro yields_if yields_first yields_bind yields_exact yields_return yields_reject,
      (assumption | simp only: list.sel, erule yields_exact yields_domain)+)

end

section \<open>Service\<close>

lemma destination_read:
  assumes d: "duplex_stream ops ca wa inva rda wra ea pa" and inv: "inva stream"
    and request: "ca stream = socks_bytes a port @ payload" and "socks_sendable a"
  shows "\<exists>r stream'. read_location_direct (op_read ops) stream = Some (r, stream') \<and> inva stream' \<and> wa stream' = wa stream \<and>
    (case r of
       Ok loc \<Rightarrow> loc = net_location_new a port \<and> ca stream' = payload
     | Err e \<Rightarrow> ea e
     | Panic \<Rightarrow> False)"
proof -
  note src = duplex_stream.duplex_read [OF d, of "wa stream"]
  have "byte_source.yields ca (\<lambda>s. inva s \<and> wa s = wa stream) ea (read_location_direct (op_read ops) stream)
      (socks_location (ca stream))"
    using byte_source.yields_location [OF src] inv by simp
  then obtain r s where "read_location_direct (op_read ops) stream = Some (r, s)" "inva s \<and> wa s = wa stream"
    and "case r of
       Ok x \<Rightarrow> Parsed (net_location_new a port) payload = Parsed x (ca s)
     | Err e \<Rightarrow> ea e \<or> err_kind e = UnexpectedEof \<and> Parsed (net_location_new a port) payload = Short
         \<or> Parsed (net_location_new a port) payload = Rejected e
     | Panic \<Rightarrow> False"
    unfolding byte_source.yields_def [OF src] request socks_location_written [OF assms(4)] by blast
  then show ?thesis by (cases r) auto
qed

text \<open>Without UDP enabled no datagram is ever forwarded for a stream.\<close>

fun forwards_udp :: "('a, 'd, 'u, 'c, 's) handled \<Rightarrow> bool" where
  "forwards_udp (UdpCopied _ _ _) = True"
| "forwards_udp (UdpRouting _) = True"
| "forwards_udp _ = False"

lemma tcp_forward_no_udp:
  assumes "handle_tcp_forward sv i destination stream se st = Some (h, se', st')"
  shows "\<not> forwards_udp h"
proof -
  let ?dial = "connect_tcp_with_cc (sv_sys sv) (sv_resolve sv) destination (rs_tcp_congestion (fst st))"
  obtain c st1 where c: "within (sv_elapsed sv) ?dial st = (c, st1)" by (cases "within (sv_elapsed sv) ?dial st")
  show ?thesis
    using assms c by (cases c; cases "the c") (auto simp: handle_tcp_forward_def Let_def bind_eq_Some_conv)
qed

lemma udp_needs_enabling:
  assumes "handle_new_stream sv i stream se st = Some (h, se', st')" and "\<not> se_udp_enabled se"
  shows "\<not> forwards_udp h"
proof -
  obtain r stream1 where r: "read_location_direct (op_read (sv_ops sv)) stream = Some (r, stream1)"
    using assms(1) by (auto simp: handle_new_stream_def or_fail_def bind_eq_Some_conv)
  show ?thesis
    using assms r
    by (cases r) (auto simp: handle_new_stream_def or_fail_def handle_uot_v1_def handle_uot_v2_def
      dest: tcp_forward_no_udp split: if_splits)
qed

section \<open>Properties\<close>

text \<open>C28. A stream of a session over the channels that tokio provides is a stream that can be read and written
  independently: whatever the bidirectional copy asks of its streams holds of it, with the messages up to the first
  empty one as what it reads and the messages handed to the session as what it has written.\<close>

theorem anytls_stream_is_duplex:
  assumes "anytls_channels recv rx_msgs rx_delay reserve send_item try_send tx_sent tx_delay"
  shows "steady_duplex (anytls_stream_ops recv reserve send_item) (stream_content rx_msgs) (stream_written tx_sent) stream_readable
    (\<lambda>st. rx_delay (as_rx st)) (\<lambda>st. tx_delay (as_tx st)) (\<lambda>e. err_kind e = BrokenPipe) False"
  by (rule anytls_channels.anytls_steady [OF assms])


text \<open>A stream whose messages carry a request for 1.2.3.4:80 in two pieces and a byte after it, and a destination that sends two
  bytes.\<close>

definition demo_stream :: "(byte list option list, queue_tx) anytls_stream" where
  "demo_stream = anytls_stream_new 7 [Some [1, 1, 2], None, Some [3, 4, 0, 80, 9], Some []]
     \<lparr>qt_waits = [1], qt_alive = 5, qt_sent = []\<rparr> False"

definition demo_handler ::
  "(byte list, (byte list option list, queue_tx) anytls_stream, peer, udp_script, unit, unit) stream_env" where
  "demo_handler =
     \<lparr>sv_session = vec_env, sv_copy = demo_env, sv_ops = anytls_stream_ops queue_recv queue_reserve queue_send,
      sv_dest_ops = peer_ops, sv_dest = demo_dest, sv_udp_ops = udp_message_stream script_recv script_send,
      sv_udp = (\<lambda>_. silent_udp), sv_sys = demo_net, sv_resolve = demo_rslv, sv_elapsed = None\<rparr>"

theorem anytls_stream_is_duplex_witness:
  "stream_content queue_msgs demo_stream = [1, 1, 2, 3, 4, 0, 80, 9]
   \<and> steady_duplex (anytls_stream_ops queue_recv queue_reserve queue_send) (stream_content queue_msgs)
       (stream_written qt_sent :: (byte list option list, queue_tx) anytls_stream \<Rightarrow> _) stream_readable
       (\<lambda>st. length (as_rx st)) (\<lambda>st. sum_list (qt_waits (as_tx st))) (\<lambda>e. err_kind e = BrokenPipe) False"
  using anytls_stream_is_duplex [OF queue.anytls_channels_axioms]
  by (simp add: stream_content_def demo_stream_def anytls_stream_new_def queue_msgs_def)


end
