(* ===== verification/Anytls_Tunnel.thy ===== *)
theory Anytls_Tunnel
  imports Anytls_Session
begin

text \<open>
  What a session makes of a client's frames from the first to the last, in terms of the streams it starts: on a connection
  that takes what is written to it, every frame but an alert is handled, a SYN starts a task with an empty channel, and what the
  task can read in the end is the data of its stream's frames.
\<close>

section \<open>From the connection to a stream\<close>

text \<open>A stream that was not opened stays so.\<close>

lemma handle_frame_unopened:
  assumes "se_streams se i = None" and "\<not> (fr_cmd f = Syn \<and> fr_stream_id f = i)" and run: "handle_frame env f se = (Ok u, se')"
  shows "se_streams se' i = None"
proof (cases "fr_cmd f")
  case Settings
  with run have "handle_settings env f se = (Ok u, se')" by (simp add: handle_frame_def)
  from handle_settings_routing [OF this] assms(1) show ?thesis by (simp add: routing_def)
next
  case HeartRequest
  with run routing_control_frame [of env "frame_control HeartResponse (fr_stream_id f)" se u se'] assms(1)
  show ?thesis by (simp add: handle_frame_def routing_def)
qed (use assms in \<open>auto simp: handle_frame_def handle_psh_def handle_syn_def handle_fin_def chan_send_def drop_sender_def
    open_stream_def register_task_def bind_io_def Let_def split: if_splits option.splits prod.splits res.splits\<close>)

lemma control_frame_settings [simp]:
  "se_received_client_settings (snd (write_control_frame env f se)) = se_received_client_settings se"
  by (simp add: write_control_frame_def write_frame_def close_def Let_def split: patience.splits)

lemma handle_settings_received: "se_received_client_settings (snd (handle_settings env f se))"
proof -
  have "write_control_frame env g se1 = (r, se2) \<Longrightarrow> se_received_client_settings se2 = se_received_client_settings se1"
    for g r and se1 se2 :: "'a session"
    using control_frame_settings [of env g se1] by simp
  then show ?thesis
    by (auto simp: handle_settings_def Let_def bind_io_def ret_def split: option.splits prod.splits res.splits if_splits)
qed

text \<open>On a healthy connection every frame but an alert is handled, provided the settings came before the first SYN.\<close>

definition settled :: "'w session \<Rightarrow> bool" where
  "settled se \<longleftrightarrow> session_ok se \<and> se_received_client_settings se"

context healthy_writer
begin

lemma handle_frame_handled:
  assumes ok: "session_ok se" and "fr_cmd f \<noteq> Alert" and "fr_cmd f = Settings \<or> se_received_client_settings se"
  shows "\<exists>se'. handle_frame env f se = (Ok (), se') \<and> settled se'"
proof -
  obtain r se' where run: "handle_frame env f se = (r, se')" by fastforce
  have ok': "session_ok se'" using session_ok_handle_frame [OF ok, of env f] run by simp
  have "r = Ok () \<and> se_received_client_settings se'"
  proof (cases "fr_cmd f")
    case Settings
    then have hs: "handle_settings env f se = (r, se')" using run by (simp add: handle_frame_def)
    then have "r = Ok ()" using handle_settings_replies [OF ok Settings] by simp
    moreover have "se_received_client_settings se'" using hs handle_settings_received [of env f se] by simp
    ultimately show ?thesis by simp
  next
    case HeartRequest
    obtain w' where "write_control_frame env (frame_control HeartResponse (fr_stream_id f)) se = (Ok (), se\<lparr>se_writer := w'\<rparr>)"
      by (rule control_frame_sends [OF ok])
    with HeartRequest run assms(3) show ?thesis by (auto simp: handle_frame_def)
  qed (use run assms in \<open>auto simp: handle_frame_def handle_psh_def handle_syn_def handle_fin_def chan_send_def drop_sender_def
    open_stream_def register_task_def Let_def split: if_splits option.splits\<close>)
  with run ok' show ?thesis by (simp add: settled_def)
qed

lemma handle_frames_handled:
  "settled se \<Longrightarrow> \<forall>f \<in> set fs. fr_cmd f \<noteq> Alert \<Longrightarrow> \<exists>se'. handle_frames env fs se = (Ok (), se') \<and> settled se'"
proof (induction fs arbitrary: se)
  case Nil
  then show ?case by simp
next
  case (Cons f fs)
  then obtain se1 where "handle_frame env f se = (Ok (), se1)" "settled se1"
    using handle_frame_handled [of se f] by (auto simp: settled_def)
  with Cons.IH [of se1] Cons.prems show ?case by (auto simp: bind_io_def)
qed

end

lemma handle_frames_unopened:
  "handle_frames env fs se = (Ok u, se') \<Longrightarrow> se_streams se i = None \<Longrightarrow>
   \<forall>f \<in> set fs. \<not> (fr_cmd f = Syn \<and> fr_stream_id f = i) \<Longrightarrow> se_streams se' i = None"
proof (induction fs arbitrary: se)
  case (Cons f fs)
  then obtain u1 se1 where f: "handle_frame env f se = (Ok u1, se1)" and fs: "handle_frames env fs se1 = (Ok u, se')"
    by (auto simp: bind_io_def split: prod.splits res.splits)
  have "se_streams se1 i = None" using handle_frame_unopened [OF Cons.prems(2) _ f] Cons.prems(3) by simp
  with Cons.IH [OF fs] Cons.prems(3) show ?case by simp
qed simp

text \<open>A SYN opens the stream with an empty channel.\<close>

lemma handle_syn_opens:
  assumes "session_ok se" and "se_received_client_settings se" and "se_streams se i = None"
    and "handle_frame env (frame_control Syn i) se = (Ok u, se')"
  shows "se_streams se' i = Some (se_next se) \<and>
    se_channels se' (se_next se) = \<lparr>ch_msgs = [], ch_receiver = True, ch_sender = True\<rparr> \<and>
    se_next se < length (se_spawned se') \<and>
    se_spawned se' ! se_next se = anytls_stream_new i (se_next se) () (se_is_closed se)"
proof -
  have "length (se_spawned se) = se_next se" using assms(1) by (simp add: session_ok_def tables_defs)
  then show ?thesis
    using assms(2-4)
    by (auto simp: handle_frame_def frame_control_def frame_with_data_def handle_syn_def register_task_def open_stream_def Let_def
      nth_append)
qed

text \<open>What a stream has to read after its SYN, the frames after it and its FIN were handled.\<close>

lemma handle_frames_stream:
  assumes "session_ok se" and "se_received_client_settings se" and "se_streams se i = None" and "\<not> se_is_closed se"
    and run: "handle_frames env (frame_control Syn i # fs @ [frame_control Fin i]) se = (Ok u, se')"
    and fs: "\<forall>f \<in> set fs. \<not> ends i f"
  shows "\<exists>stream \<in> set (se_spawned se'). as_id stream = i \<and>
    stream_content (\<lambda>c. ch_msgs (se_channels se' c)) stream = concat (delivered i fs)"
proof -
  let ?c = "se_next se"
  obtain u1 se1 u2 se2 where syn: "handle_frame env (frame_control Syn i) se = (Ok u1, se1)"
    and mid: "handle_frames env fs se1 = (Ok u2, se2)"
    and fin: "handle_frame env (frame_control Fin i) se2 = (Ok u, se')"
    using run by (auto simp: handle_frames_append bind_io_def split: prod.splits res.splits)
  note opened = handle_syn_opens [OF assms(1-3) syn]
  have ok1: "session_ok se1" using session_ok_handle_frame [OF assms(1), of env "frame_control Syn i"] syn by simp
  have mid': "session_ok se2 \<and> se_streams se2 i = Some ?c \<and> se_spawned se2 ! ?c = se_spawned se1 ! ?c \<and>
      se_channels se2 ?c = (se_channels se1 ?c)\<lparr>ch_msgs := ch_msgs (se_channels se1 ?c) @ delivered i fs\<rparr>"
    using handle_frames_deliver [OF ok1 _ _ mid fs, of ?c] opened by simp
  have "length (se_spawned se2) = se_next se2" using mid' by (simp add: session_ok_def tables_defs)
  then have "?c < length (se_spawned se2)" using stream_below_next [of se2 i ?c] mid' by simp
  then have mem: "se_spawned se2 ! ?c \<in> set (se_spawned se2)" by (rule nth_mem)
  moreover have "se_spawned se' = se_spawned se2" and "ch_msgs (se_channels se' ?c) = delivered i fs @ [[]]"
    using fin mid' opened
    by (auto simp: handle_frame_def frame_control_def frame_with_data_def handle_fin_def drop_sender_def chan_send_def)
  moreover have "takeWhile (\<lambda>m. m \<noteq> []) (delivered i fs @ [[]]) = delivered i fs"
    by (subst takeWhile_append2) (auto simp: delivered_def)
  ultimately show ?thesis
    using mid' opened assms(4)
    by (intro bexI [of _ "se_spawned se2 ! ?c"]) (simp_all add: stream_content_def anytls_stream_new_def)
qed

end
