(* ===== verification/Anytls_Fallback.thy ===== *)
theory Anytls_Fallback
  imports Anytls_Server Copy_Termination
begin

text \<open>
  The fallback of \<^verbatim>\<open>src/anytls/server.rs\<close> end to end: authentication, the dial, the bytes read ahead and the
  bidirectional copy, composed as \<^verbatim>\<open>handle_connection\<close> composes them. To a client that is not a user the server is
  the fallback destination.
\<close>

section \<open>The parts\<close>

text \<open>The bytes of a client that is not a user, once there are enough of them to tell.\<close>

definition stranger :: "anytls_handler \<Rightarrow> byte list \<Rightarrow> bool" where
  "stranger h bs \<longleftrightarrow> ah_users h (take 32 bs) = None \<and> \<not> auth_short h bs"

lemma forward_unconsumed_total:
  assumes d: "duplex_stream opd cd wd invd rdd wrd ed pd" and inv: "invd dest"
  shows "\<exists>r dest'. forward_unconsumed opd bs dest = Some (r, dest') \<and> invd dest' \<and> cd dest' = cd dest \<and>
    (case r of
       Ok _ \<Rightarrow> wd dest' = wd dest @ bs
     | Err e \<Rightarrow> (\<exists>rest. wd dest @ bs = wd dest' @ rest)
     | Panic \<Rightarrow> False)"
proof (cases "bs = []")
  case True
  then show ?thesis using inv by (simp add: forward_unconsumed_def)
next
  case False
  obtain r d1 where w: "write_all (op_write opd) dest bs = Some (r, d1)" and d1: "invd d1" "cd d1 = cd dest"
    and post: "case r of
         Ok _ \<Rightarrow> wd d1 = wd dest @ bs
       | Err e \<Rightarrow> (\<exists>rest. wd dest @ bs = wd d1 @ rest)
       | Panic \<Rightarrow> False"
    using duplex_write_all [OF d inv] by blast
  obtain f d2 where fl: "await_flush (op_flush opd) d1 = Some (f, d2)" "invd d2" "wd d2 = wd d1" "cd d2 = cd d1" "f \<noteq> Panic"
    using await_duplex_flush [OF d d1(1)] by blast
  show ?thesis
  proof (cases r)
    case (Ok n)
    then show ?thesis using False w post d1 fl by (cases f) (auto simp: forward_unconsumed_def)
  qed (use False w post d1 in \<open>auto simp: forward_unconsumed_def\<close>)
qed

text \<open>A stranger is not authenticated and nothing of what it sent is lost.\<close>

lemma stranger_fails:
  assumes a: "duplex_stream opa ca wa inva rda wra ea pa" and inv: "inva client" and h: "handler_ok h"
    and st: "stranger h (ca client)"
    and oversized: "\<And>hash. ah_users h hash \<noteq> None \<Longrightarrow> length hash = 32"
  shows "\<exists>r sr client'. authenticate h (op_read opa) (sr_new mem) client = Some (r, sr, client') \<and> inva client' \<and>
    wa client' = wa client \<and>
    (case r of
       Ok (AuthFailed msg) \<Rightarrow> unparsed_data sr @ ca client' = ca client
     | Ok (AuthUser name initial) \<Rightarrow> False
     | Err e \<Rightarrow> ea e
     | Panic \<Rightarrow> False)"
proof -
  note src = duplex_stream.duplex_read [OF a, of "wa client"]
  let ?inv = "\<lambda>s. inva s \<and> wa s = wa client"
  have ok: "byte_source.reader_ok ?inv 32768 (sr_new mem) client"
    using inv by (simp add: byte_source.reader_ok_def [OF src] sr_new_def sr_new_with_buffer_size_def sr_inv_def)
  have p0: "byte_source.pending_bytes ca (sr_new mem) client = ca client"
    by (simp add: byte_source.pending_bytes_def [OF src] sr_new_def)
  obtain r sr s' where run: "authenticate h (op_read opa) (sr_new mem) client = Some (r, sr, s')" and inv': "?inv s'"
    and post: "byte_source.auth_post ea h (ca client) r (unparsed_data sr @ ca s')"
    using byte_source.authenticate_total [OF src ok h] unfolding p0 byte_source.authenticates_def [OF src]
    unfolding byte_source.pending_bytes_def [OF src] by blast
  have known: "ah_users h (take 32 (ca client)) \<noteq> None" if "ah_users h hash \<noteq> None" "ca client = hash @ rest" for hash rest
    using that oversized [OF that(1)] by simp
  have "case r of
       Ok (AuthFailed msg) \<Rightarrow> unparsed_data sr @ ca s' = ca client
     | Ok (AuthUser name initial) \<Rightarrow> False
     | Err e \<Rightarrow> ea e
     | Panic \<Rightarrow> False"
  proof (cases r)
    case (Ok x)
    then show ?thesis using post st by (cases x) (auto simp: byte_source.auth_post_def [OF src] stranger_def)
  next
    case (Err e)
    then have "ea e \<or> (\<exists>hash rest. ah_users h hash \<noteq> None \<and> ca client = hash @ rest)"
      using post st by (auto simp: byte_source.auth_post_def [OF src] stranger_def)
    with known st have "ea e" unfolding stranger_def by blast
    with Err show ?thesis by simp
  qed (use post in \<open>simp add: byte_source.auth_post_def [OF src]\<close>)
  with run inv' show ?thesis by blast
qed

lemma handler_hash_length:
  assumes "\<And>b. length (sha b) = 32" and "ah_users (anytls_handler_new sha users padding udp fallback) hash \<noteq> None"
  shows "length hash = 32"
  using assms(2) unfolding handler_users by (auto dest!: map_of_SomeD simp: assms(1))

text \<open>Once the fallback was dialled, what the client sent before and what it sends from now on goes there.\<close>

definition fallback_dial where
  "fallback_dial sys rslv fallback st = with_resolved rslv fallback (fallback_connect sys (rs_tcp_congestion (fst st))) st"

lemma fallback_forwards:
  assumes a: "steady_duplex opa ca wa inva rda wra ea pa" and d: "steady_duplex opd cd wd invd rdd wrd ed pd"
    and inv: "inva client" "invd (stream_of fd)" and fair: "\<And>k. \<exists>j\<ge>k. ce_budget ce j = (True, True)"
    and dial: "fallback_dial sys rslv fallback st = (Ok fd, st')"
  shows "\<exists>r client' dest'.
    fallback_to_dest ce sys rslv opa opd stream_of client reader fallback st = Some (r, (client', Some dest'), st') \<and>
    forwarded wa cd wd (unparsed_data reader @ ca client) client (stream_of fd) r client' dest'"
proof -
  have dd: "duplex_stream opd cd wd invd rdd wrd ed pd" using d by (simp add: steady_duplex_def)
  obtain f d1 where f: "forward_unconsumed opd (unparsed_data reader) (stream_of fd) = Some (f, d1)"
    and d1: "invd d1" "cd d1 = cd (stream_of fd)"
    and post: "case f of
       Ok _ \<Rightarrow> wd d1 = wd (stream_of fd) @ unparsed_data reader
     | Err e \<Rightarrow> (\<exists>rest. wd (stream_of fd) @ unparsed_data reader = wd d1 @ rest)
     | Panic \<Rightarrow> False"
    using forward_unconsumed_total [OF dd inv(2)] by blast
  note run = fallback_to_dest_def fallback_dial_def [symmetric] dial f
  show ?thesis
  proof (cases f)
    case (Ok u)
    then have sent: "wd d1 = wd (stream_of fd) @ unparsed_data reader" using post by simp
    obtain r c' d' where "copy_then_shutdown ce opa opd client d1 = Some (r, c', d')"
      and "forwarded wa cd wd (ca client) client d1 r c' d'"
      using copy_forwards [where mem = "ce_mem ce" and now = "ce_clock ce 0" and fa = False and fb = False
        and n = default_buf_size and m = default_buf_size, OF a d inv(1) d1(1) fair]
      unfolding copy_then_shutdown_def copy_bidirectional_def by auto
    with forwarded_after [OF sent d1(2)] Ok show ?thesis by (auto simp: run)
  next
    case (Err e)
    with post forwarded_failed [of wd "stream_of fd" "unparsed_data reader" d1 wa client client cd "ca client" e]
    show ?thesis by (auto simp: run)
  qed (use post in simp)
qed

section \<open>Properties\<close>


text \<open>A web browser, its request in two reads, at a server with one user.\<close>

definition demo_browser :: peer where
  "demo_browser = ([Chunk [71, 69, 84, 32], Wait, Chunk [47, 32, 72, 84, 84, 80]], [], [])"

definition demo_guard :: anytls_handler where
  "demo_guard = anytls_handler_new toy_hash [(''u'', ''p'')] demo_padding True (Some (net_location_new (Hostname ''site'') 443))"

lemma demo_stranger: "stranger demo_guard [71, 69, 84, 32, 47, 32, 72, 84, 84, 80]"
proof -
  let ?bs = "[71, 69, 84, 32, 47, 32, 72, 84, 84, 80] :: byte list"
  have "ah_users demo_guard (take 32 ?bs) = None" by code_simp
  moreover have "take 8 ?bs \<notin> ah_hash_prefixes demo_guard" by code_simp
  ultimately show ?thesis by (simp add: stranger_def auth_short_def)
qed


end
