(* ===== verification/Udp_Tunnel.thy ===== *)
theory Udp_Tunnel
  imports Udp_Routing Message_Stream
begin

text \<open>
  UDP over TCP with many destinations, as \<^verbatim>\<open>handle_uot_multi_destination\<close> of \<^verbatim>\<open>src/anytls/session.rs\<close> puts it together: the routing
  of \<^verbatim>\<open>src/udp_relay.rs\<close> over the packet stream of \<^verbatim>\<open>src/message_stream.rs\<close> over a byte stream. What the routing sends and
  answers is what the bytes of the client's stream say.
\<close>

section \<open>The two directions of a packet stream\<close>

text \<open>What is on its way to the client, and what of the client is still to be read.\<close>

definition uot_sent :: "('s \<Rightarrow> byte list) \<Rightarrow> 's packet_stream \<Rightarrow> byte list" where
  "uot_sent wt st = wt (ps_stream st) @ slice_of (ps_write_sent st) (ps_write_len st) (ps_write_buf st)"

definition uot_unread :: "('s \<Rightarrow> byte list) \<Rightarrow> 's packet_stream \<Rightarrow> byte list" where
  "uot_unread ct st = sb_bytes (ps_read_buf st) @ ct (ps_stream st)"

definition uot_ready :: "('s \<Rightarrow> bool) \<Rightarrow> 's packet_stream \<Rightarrow> bool" where
  "uot_ready ok st \<longleftrightarrow> ps_read_inv uot_addr_codec st \<and> ps_write_inv uot_addr_codec st \<and> ok (ps_stream st) \<and> \<not> ps_eof st"

lemma uot_ready_new: "ok s \<Longrightarrow> uot_ready ok (new_uot mem s)"
  by (simp add: uot_ready_def new_uot_def ps_new_invs)

section \<open>Answers\<close>

text \<open>Writing and flushing leave the reading half alone, keep what is written in order and come to an end.\<close>

definition uot_kept :: "('s \<Rightarrow> byte list) \<Rightarrow> ('s \<Rightarrow> bool) \<Rightarrow> 's packet_stream \<Rightarrow> 's packet_stream \<Rightarrow> bool" where
  "uot_kept ct ok st st' \<longleftrightarrow> uot_ready ok st' \<and> uot_unread ct st' = uot_unread ct st"

definition uot_moves :: "('s \<Rightarrow> nat) \<Rightarrow> 's packet_stream \<Rightarrow> nat \<times> nat" where
  "uot_moves wrd st = (ps_write_len st - ps_write_sent st, wrd (ps_stream st))"

text \<open>What a write and a flush promise when they are done, and what a pending poll of either does.\<close>

definition uot_written ::
  "('s \<Rightarrow> byte list) \<Rightarrow> ('s \<Rightarrow> byte list) \<Rightarrow> ('s \<Rightarrow> bool) \<Rightarrow> byte list \<Rightarrow> 's packet_stream \<Rightarrow> unit res \<Rightarrow> 's packet_stream \<Rightarrow> bool" where
  "uot_written ct wt ok pk st r st' \<longleftrightarrow> uot_kept ct ok st st' \<and> r \<noteq> Panic \<and>
     uot_sent wt st' = uot_sent wt st @ (if r = Ok () then pk else [])"

definition uot_flushed ::
  "('s \<Rightarrow> byte list) \<Rightarrow> ('s \<Rightarrow> byte list) \<Rightarrow> ('s \<Rightarrow> bool) \<Rightarrow> 's packet_stream \<Rightarrow> unit res \<Rightarrow> 's packet_stream \<Rightarrow> bool" where
  "uot_flushed ct wt ok st r st' \<longleftrightarrow> uot_written ct wt ok [] st r st' \<and> (r = Ok () \<longrightarrow> wt (ps_stream st') = uot_sent wt st)"

definition uot_waits ::
  "('s \<Rightarrow> byte list) \<Rightarrow> ('s \<Rightarrow> byte list) \<Rightarrow> ('s \<Rightarrow> bool) \<Rightarrow> ('s \<Rightarrow> nat) \<Rightarrow> 's packet_stream \<Rightarrow> 's packet_stream \<Rightarrow> bool" where
  "uot_waits ct wt ok wrd st st' \<longleftrightarrow> uot_kept ct ok st st' \<and> uot_sent wt st' = uot_sent wt st \<and>
     (uot_moves wrd st', uot_moves wrd st) \<in> less_than <*lex*> less_than"

lemma uot_later:
  assumes "uot_waits ct wt ok wrd st st1"
  shows "uot_written ct wt ok pk st1 r st' \<Longrightarrow> uot_written ct wt ok pk st r st'"
    and "uot_flushed ct wt ok st1 r st' \<Longrightarrow> uot_flushed ct wt ok st r st'"
  using assms by (simp_all add: uot_waits_def uot_written_def uot_flushed_def uot_kept_def)

lemma uot_write:
  assumes d: "duplex_stream ops ct wt ok rdd wrd er pg" and ready: "uot_ready ok st"
  shows "\<exists>p st'. poll_write_sourced_message (op_write ops) st buf source = Some (p, st') \<and>
     (case p of
        Ready r \<Rightarrow> uot_written ct wt ok (packet_bytes uot_bytes (location_of_socket source) buf) st r st'
      | Pending \<Rightarrow> uot_waits ct wt ok wrd st st')"
proof -
  have ps: "packet_sink (op_write ops) wt (\<lambda>s. ok s \<and> ct s = ct (ps_stream st)) wrd er uot_addr_codec uot_bytes uot_ok"
    using duplex_stream.duplex_write [OF d] uot.address_codec_axioms by (rule packet_sink.intro)
  note defs = packet_sink.write_keeps_def [OF ps] packet_sink.wr_inv_def [OF ps] packet_sink.wire_def [OF ps]
    packet_sink.drain_moves_def [OF ps] packet_sink.drain_left_def [OF ps] uot_kept_def uot_ready_def uot_unread_def
    uot_sent_def uot_moves_def ps_read_inv_def uot_written_def uot_flushed_def uot_waits_def
  have "packet_sink.wr_inv (\<lambda>s. ok s \<and> ct s = ct (ps_stream st)) uot_addr_codec st" using ready by (simp add: defs)
  from packet_sink.write_packet [OF ps this, of buf source]
  obtain p st' where "poll_write_sourced_message (op_write ops) st buf source = Some (p, st')"
    and "packet_sink.write_keeps (\<lambda>s. ok s \<and> ct s = ct (ps_stream st)) uot_addr_codec st st'"
    and "case p of
        Ready (Ok _) \<Rightarrow> packet_sink.wire wt st' = packet_sink.wire wt st @ packet_bytes uot_bytes (location_of_socket source) buf
      | Ready (Err e) \<Rightarrow> packet_sink.wire wt st' = packet_sink.wire wt st \<and> (er e
          \<or> e = frame_too_large \<and> packet_buffer_size < length (packet_bytes uot_bytes (location_of_socket source) buf))
      | Ready Panic \<Rightarrow> False
      | Pending \<Rightarrow> packet_sink.wire wt st' = packet_sink.wire wt st \<and> packet_sink.drain_moves wrd st st'"
    by blast
  then show ?thesis using ready
    by (cases p rule: poll_res_exhaust) (auto simp: defs ps_write_inv_def)
qed

lemma uot_flush:
  assumes d: "duplex_stream ops ct wt ok rdd wrd er pg" and ready: "uot_ready ok st"
  shows "\<exists>p st'. ps_poll_flush_message (op_write ops) (op_flush ops) st = Some (p, st') \<and>
     (case p of Ready r \<Rightarrow> uot_flushed ct wt ok st r st' | Pending \<Rightarrow> uot_waits ct wt ok wrd st st') \<and>
     (p = Ready (Ok ()) \<longrightarrow> uot_moves wrd st' = uot_moves wrd st \<or> (uot_moves wrd st', uot_moves wrd st) \<in> less_than <*lex*> less_than)"
proof -
  have ps: "packet_sink (op_write ops) wt (\<lambda>s. ok s \<and> ct s = ct (ps_stream st)) wrd er uot_addr_codec uot_bytes uot_ok"
    using duplex_stream.duplex_write [OF d] uot.address_codec_axioms by (rule packet_sink.intro)
  note defs = packet_sink.write_keeps_def [OF ps] packet_sink.wr_inv_def [OF ps] packet_sink.wire_def [OF ps]
    packet_sink.drain_moves_def [OF ps] packet_sink.drain_left_def [OF ps] uot_kept_def uot_ready_def uot_unread_def
    uot_sent_def uot_moves_def ps_read_inv_def uot_written_def uot_flushed_def uot_waits_def
  have "packet_sink.wr_inv (\<lambda>s. ok s \<and> ct s = ct (ps_stream st)) uot_addr_codec st" using ready by (simp add: defs)
  from packet_sink.ps_drain_total [OF ps this]
  obtain p st1 where dr: "ps_drain (op_write ops) st = Some (p, st1)"
    and "packet_sink.ps_drain_post wt (\<lambda>s. ok s \<and> ct s = ct (ps_stream st)) wrd er uot_addr_codec st p st1"
    by blast
  note post = this(2) [unfolded packet_sink.ps_drain_post_def [OF ps]]
  note step = ps_poll_flush_message_def [of _ _ st] dr
  show ?thesis
  proof (cases p rule: poll_res_exhaust)
    case (ok u)
    let ?st = "st1\<lparr>ps_write_len := 0, ps_write_sent := 0\<rparr>"
    obtain q s' where fl: "op_flush ops (ps_stream st1) = (q, s')" by fastforce
    have st1: "ok (ps_stream st1)" "ct (ps_stream st1) = ct (ps_stream st)" "wt (ps_stream st1) = uot_sent wt st"
      "ps_read_buf st1 = ps_read_buf st" "ps_eof st1 = ps_eof st" "ps_write_inv uot_addr_codec st1"
      using post ok by (simp_all add: defs)
    note f = duplex_stream.duplex_flush [OF d st1(1) fl]
    have run: "ps_poll_flush_message (op_write ops) (op_flush ops) st = Some (q, ?st\<lparr>ps_stream := s'\<rparr>)"
      using ok fl by (simp add: step)
    have "ok s'" "ct s' = ct (ps_stream st1)" "wt s' = wt (ps_stream st1)"
      using f by (cases q rule: poll_res_exhaust; simp)+
    then have kept: "uot_kept ct ok st (?st\<lparr>ps_stream := s'\<rparr>)" "uot_sent wt (?st\<lparr>ps_stream := s'\<rparr>) = uot_sent wt st"
      using st1 ready by (simp_all add: uot_kept_def uot_ready_def uot_unread_def uot_sent_def ps_read_inv_def ps_write_inv_def)
    have idle: "st1 = st" if "\<not> ps_write_sent st < ps_write_len st"
      using dr that by (simp add: ps_drain.simps [of _ st])
    have "q = Pending \<Longrightarrow> (uot_moves wrd (?st\<lparr>ps_stream := s'\<rparr>), uot_moves wrd st) \<in> less_than <*lex*> less_than"
      "q = Ready (Ok ()) \<Longrightarrow> uot_moves wrd (?st\<lparr>ps_stream := s'\<rparr>) = uot_moves wrd st
        \<or> (uot_moves wrd (?st\<lparr>ps_stream := s'\<rparr>), uot_moves wrd st) \<in> less_than <*lex*> less_than"
      using idle f by (cases "ps_write_sent st < ps_write_len st"; auto simp: uot_moves_def)+
    with run kept f st1(3) show ?thesis
      by (cases q rule: poll_res_exhaust) (simp_all add: uot_flushed_def uot_written_def uot_waits_def)
  next
    case (err e)
    then have "ps_poll_flush_message (op_write ops) (op_flush ops) st = Some (Ready (Err e), st1)" by (simp add: step)
    with post ready err show ?thesis by (simp add: defs ps_write_inv_def)
  next
    case pending
    then have "ps_poll_flush_message (op_write ops) (op_flush ops) st = Some (Pending, st1)" by (simp add: step)
    with post ready pending show ?thesis by (simp add: defs ps_write_inv_def)
  qed (use post in simp)
qed

lemma wf_moves: "wf (less_than <*lex*> less_than)"
  by (intro wf_lex_prod wf_less_than)

lemma uot_shutdown:
  assumes d: "duplex_stream ops ct wt ok rdd wrd er pg" and ready: "uot_ready ok st"
  shows "\<exists>p st'. ps_poll_shutdown_message (op_write ops) (op_flush ops) (op_shutdown ops) st = Some (p, st') \<and>
     (case p of Ready r \<Rightarrow> uot_written ct wt ok [] st r st' | Pending \<Rightarrow> uot_waits ct wt ok wrd st st')"
proof -
  obtain p st1 where fl: "ps_poll_flush_message (op_write ops) (op_flush ops) st = Some (p, st1)"
    and post: "case p of Ready r \<Rightarrow> uot_flushed ct wt ok st r st1 | Pending \<Rightarrow> uot_waits ct wt ok wrd st st1"
    and moves: "p = Ready (Ok ()) \<longrightarrow> uot_moves wrd st1 = uot_moves wrd st
      \<or> (uot_moves wrd st1, uot_moves wrd st) \<in> less_than <*lex*> less_than"
    using uot_flush [OF d ready] by blast
  show ?thesis
  proof (cases "p = Ready (Ok ())")
    case False
    then have "ps_poll_shutdown_message (op_write ops) (op_flush ops) (op_shutdown ops) st = Some (p, st1)"
      using fl by (simp add: ps_poll_shutdown_message_def split: poll.split res.split)
    with post show ?thesis by (cases p) (auto simp: uot_flushed_def)
  next
    case True
    obtain q s' where sd: "op_shutdown ops (ps_stream st1) = (q, s')" by fastforce
    have st1: "uot_kept ct ok st st1" "uot_sent wt st1 = uot_sent wt st" "ok (ps_stream st1)"
      using post True by (simp_all add: uot_flushed_def uot_written_def uot_kept_def uot_ready_def)
    note q = duplex_stream.duplex_shutdown [OF d st1(3) sd]
    have same: "ok s'" "ct s' = ct (ps_stream st1)" "wt s' = wt (ps_stream st1)"
      using q by (cases q rule: poll_res_exhaust; simp)+
    have "ps_poll_shutdown_message (op_write ops) (op_flush ops) (op_shutdown ops) st = Some (q, st1\<lparr>ps_stream := s'\<rparr>)"
      using fl True sd by (simp add: ps_poll_shutdown_message_def)
    moreover have "uot_kept ct ok st (st1\<lparr>ps_stream := s'\<rparr>)" "uot_sent wt (st1\<lparr>ps_stream := s'\<rparr>) = uot_sent wt st"
      using st1 same by (simp_all add: uot_kept_def uot_ready_def uot_unread_def uot_sent_def ps_read_inv_def ps_write_inv_def)
    moreover have "(uot_moves wrd (st1\<lparr>ps_stream := s'\<rparr>), uot_moves wrd st) \<in> less_than <*lex*> less_than" if "q = Pending"
      using q that moves True by (auto simp: uot_moves_def)
    ultimately show ?thesis using q by (cases q rule: poll_res_exhaust) (simp_all add: uot_written_def uot_waits_def)
  qed
qed

lemma uot_await:
  assumes "uot_ready ok st"
    and step: "\<And>s. uot_ready ok s \<Longrightarrow> \<exists>p s'. poll s = Some (p, s') \<and>
      (case p of Ready r \<Rightarrow> good s r s' | Pending \<Rightarrow> uot_waits ct wt ok wrd s s')"
    and later: "\<And>s s1 r s'. uot_waits ct wt ok wrd s s1 \<Longrightarrow> good s1 r s' \<Longrightarrow> good s r s'"
  shows "\<exists>r st'. await_poll poll st = Some (r, st') \<and> good st r st'"
proof (rule await_poll_settles [where ok = "uot_ready ok" and left_over = "uot_moves wrd", OF wf_moves _ _ assms(1)], goal_cases)
  case (1 s)
  from step [OF this] obtain p s' where "poll s = Some (p, s')"
    "case p of Ready r \<Rightarrow> good s r s' | Pending \<Rightarrow> uot_waits ct wt ok wrd s s'" by blast
  then show ?case by (cases p) (simp_all add: uot_waits_def uot_kept_def)
next
  case (2 s s1 r s')
  with step [OF 2(1)] later show ?case by fastforce
qed

lemma uot_await_write:
  assumes d: "duplex_stream ops ct wt ok rdd wrd er pg" and ready: "uot_ready ok st"
  shows "\<exists>r st'. await_poll (\<lambda>v. poll_write_sourced_message (op_write ops) v buf source) st = Some (r, st') \<and>
    uot_written ct wt ok (packet_bytes uot_bytes (location_of_socket source) buf) st r st'"
  by (rule uot_await [OF ready, where ct = ct and wt = wt and wrd = wrd and
      good = "uot_written ct wt ok (packet_bytes uot_bytes (location_of_socket source) buf)"]) (use uot_write [OF d] in blast, rule uot_later(1))

lemma uot_await_flush:
  assumes d: "duplex_stream ops ct wt ok rdd wrd er pg" and ready: "uot_ready ok st"
  shows "\<exists>r st'. await_poll (ps_poll_flush_message (op_write ops) (op_flush ops)) st = Some (r, st') \<and>
    uot_flushed ct wt ok st r st'"
  by (rule uot_await [OF ready, where ct = ct and wt = wt and wrd = wrd and
      good = "uot_flushed ct wt ok"]) (use uot_flush [OF d] in blast, rule uot_later(2))

lemma uot_await_shutdown:
  assumes d: "duplex_stream ops ct wt ok rdd wrd er pg" and ready: "uot_ready ok st"
  shows "\<exists>r st'. await_poll (ps_poll_shutdown_message (op_write ops) (op_flush ops) (op_shutdown ops)) st = Some (r, st') \<and>
    uot_written ct wt ok [] st r st'"
  by (rule uot_await [OF ready, where ct = ct and wt = wt and wrd = wrd and
      good = "uot_written ct wt ok []"]) (use uot_shutdown [OF d] in blast, rule uot_later(1))

section \<open>Packets\<close>

text \<open>Reading leaves the writing half alone.\<close>

definition write_half :: "'s packet_stream \<Rightarrow> byte list \<times> nat \<times> nat \<times> Message_Codec.address_codec" where
  "write_half st = (ps_write_buf st, ps_write_len st, ps_write_sent st, ps_codec st)"

lemma read_loop_write_half: "write_half (snd (read_targeted_loop rd st n)) = write_half st"
proof (induction rd st n rule: read_targeted_loop.induct)
  case (1 rd st n)
  let ?b = "maybe_compact 4096 (ps_read_buf st)"
  let ?st1 = "st\<lparr>ps_read_buf := ?b\<rparr>"
  note step = read_targeted_loop.simps [of rd st n] write_half_def
  show ?case
  proof (cases "try_parse_packet (ps_codec st) (ps_read_buf st)")
    case (Ok found)
    show ?thesis
    proof (cases found)
      case None
      obtain p s' where rd: "rd (ps_stream ?st1) (remaining_capacity ?b) = (p, s')" by fastforce
      show ?thesis
      proof (cases p rule: poll_res_exhaust)
        case (ok bs)
        note IH = 1 [OF Ok None refl refl]
        show ?thesis using Ok None rd ok IH by (simp add: step Let_def)
      qed (use Ok None rd in \<open>simp_all add: step Let_def\<close>)
    qed (use Ok in \<open>auto simp: step split: prod.split\<close>)
  qed (simp_all add: step)
qed

lemma uot_read:
  assumes d: "duplex_stream ops ct wt ok rdd wrd er pg" and ready: "uot_ready ok st" and l: "uot_ok l"
    and size: "length (packet_bytes uot_bytes l payload) \<le> 65535 - 4096" and n: "length payload \<le> n"
    and unread: "uot_unread ct st = packet_bytes uot_bytes l payload @ rest"
    and run: "poll_read_targeted_message (op_read ops) st n = (p, st')"
  shows "case p of
      Ready (Ok x) \<Rightarrow> x = (l, payload) \<and> uot_ready ok st' \<and> uot_unread ct st' = rest \<and> uot_sent wt st' = uot_sent wt st
    | Ready (Err e) \<Rightarrow> er e
    | Ready Panic \<Rightarrow> False
    | Pending \<Rightarrow> uot_kept ct ok st st' \<and> uot_sent wt st' = uot_sent wt st"
proof -
  let ?inv = "\<lambda>s. ok s \<and> wt s = wt (ps_stream st)"
  have ps: "packet_source (op_read ops) ct ?inv rdd er uot_addr_codec uot_bytes uot_ok"
    using duplex_stream.duplex_read [OF d] uot.address_codec_axioms by (rule packet_source.intro)
  have loop: "read_targeted_loop (op_read ops) st n = (p, st')"
    using run ready by (simp add: poll_read_targeted_message_def uot_ready_def)
  have half: "write_half st' = write_half st" using read_loop_write_half [of "op_read ops" st n] loop by simp
  note defs = packet_source.rd_inv_def [OF ps] packet_source.unread_def [OF ps] uot_ready_def uot_unread_def uot_kept_def
    uot_sent_def
  have "packet_source.rd_inv ?inv uot_addr_codec st" "packet_source.unread ct st = packet_bytes uot_bytes l payload @ rest"
    using ready unread by (simp_all add: defs)
  from packet_source.read_packet [OF ps this(1) l n _ this(2)] size loop
  have "packet_source.read_packet_post ct ?inv rdd er uot_addr_codec st l payload rest p st'" by simp
  note post = this [unfolded packet_source.read_packet_post_def [OF ps]]
  show ?thesis
    using post half ready unread
    by (cases p rule: poll_res_exhaust) (auto simp: defs write_half_def ps_write_inv_def)
qed

lemma routing_forward_effect:
  "rslv (ro_resolver st) d = (Ok addr, rs') \<Longrightarrow> ro_sessions st d = Some us \<Longrightarrow>
   ro_sys (routing_forward sys send_to rslv now d payload st) = send_to (us_socket us) payload addr (ro_sys st)"
  "rslv (ro_resolver st) d = (Ok addr, rs') \<Longrightarrow> ro_sessions st d = None \<Longrightarrow>
   new_udp_socket sys (socket_addr_is_ipv6 addr) (ro_sys st) = (Ok fd, s') \<Longrightarrow>
   ro_sys (routing_forward sys send_to rslv now d payload st) = send_to fd payload addr s'"
  "rslv (ro_resolver st) d = (Err e, rs') \<Longrightarrow> ro_sys (routing_forward sys send_to rslv now d payload st) = ro_sys st"
  by (simp_all add: routing_forward_def ensure_session_def create_session_def bind_io_def ret_def)

lemma routing_forward_server [simp]: "ro_server (routing_forward sys send_to rslv now d payload st) = ro_server st"
proof -
  obtain r rs' where rs: "rslv (ro_resolver st) d = (r, rs')" by fastforce
  show ?thesis
  proof (cases r)
    case (Ok addr)
    obtain found st2 where e: "ensure_session sys now d addr (st\<lparr>ro_resolver := rs'\<rparr>) = (found, st2)" by fastforce
    then have "ro_server st2 = ro_server st"
      by (auto simp: ensure_session_def split: option.splits prod.splits res.splits)
    with rs Ok e show ?thesis by (cases found; cases "ro_sessions st2 d") (simp_all add: routing_forward_def)
  qed (use rs in \<open>simp_all add: routing_forward_def\<close>)
qed

section \<open>Properties\<close>

text \<open>C18. A packet of a UDP-over-TCP client goes where it says: when the bytes of the client's stream go on with a packet (of at most
  65535 - 4096 bytes, and not for the unspecified address, which closes the association), a poll takes exactly that packet off the
  stream, or is pending with nothing lost, or the stream failed. Its payload, unchanged, is sent to the address that its destination
  resolves to, from the socket of that destination, which is opened for the first packet; a destination that does not
  resolve is sent nothing. The association goes on, and answers that were on their way still are.\<close>

theorem uot_packet_forwarded:
  assumes d: "duplex_stream ops ct wt ok rdd wrd er pg" and ready: "uot_ready ok (ro_server st)"
    and buf: "length (ro_buf st) = 65535" and l: "uot_ok l" "\<not> is_unspecified l"
    and size: "length (packet_bytes uot_bytes l payload) \<le> 65535 - 4096"
    and unread: "uot_unread ct (ro_server st) = packet_bytes uot_bytes l payload @ rest"
    and run: "read_targeted_message (packet_stream_ops ops) (ro_server st) (ro_buf st) = (p, buf', v)"
  shows "case p of
      Ready (Ok x) \<Rightarrow> uot_ready ok v \<and> uot_unread ct v = rest \<and> uot_sent wt v = uot_sent wt (ro_server st) \<and>
        (\<exists>st'. routing_receive sys send_to rslv now (Ok x) (st\<lparr>ro_phase := AtTop, ro_server := v, ro_buf := buf'\<rparr>) = Continue st' \<and>
           ro_server st' = v \<and>
           (\<forall>addr rs' us. rslv (ro_resolver st) l = (Ok addr, rs') \<longrightarrow> ro_sessions st l = Some us \<longrightarrow>
              ro_sys st' = send_to (us_socket us) payload addr (ro_sys st)) \<and>
           (\<forall>addr rs' fd s'. rslv (ro_resolver st) l = (Ok addr, rs') \<longrightarrow> ro_sessions st l = None \<longrightarrow>
              new_udp_socket sys (socket_addr_is_ipv6 addr) (ro_sys st) = (Ok fd, s') \<longrightarrow>
              ro_sys st' = send_to fd payload addr s') \<and>
           (\<forall>e rs'. rslv (ro_resolver st) l = (Err e, rs') \<longrightarrow> ro_sys st' = ro_sys st))
    | Ready (Err e) \<Rightarrow> er e
    | Ready Panic \<Rightarrow> False
    | Pending \<Rightarrow> uot_kept ct ok (ro_server st) v \<and> uot_sent wt v = uot_sent wt (ro_server st) \<and> buf' = ro_buf st"
proof -
  obtain q v' where q: "poll_read_targeted_message (op_read ops) (ro_server st) 65535 = (q, v')" by fastforce
  have n: "length payload \<le> 65535" using size by simp
  note post = uot_read [OF d ready l(1) size n unread q]
  have ops: "op_read_targeted (packet_stream_ops ops) (ro_server st) (length (ro_buf st)) = (q, v')"
    using q buf by (simp add: packet_stream_ops_def)
  show ?thesis
  proof (cases q rule: poll_res_exhaust)
    case (ok x)
    then have x: "x = (l, payload)" using post by simp
    have p: "p = Ready (Ok (l, length payload))" "buf' = overwrite 0 payload (ro_buf st)" "v = v'"
      using run ops ok x by (auto simp: read_targeted_message_def)
    let ?st = "st\<lparr>ro_phase := AtTop, ro_server := v', ro_buf := overwrite 0 payload (ro_buf st)\<rparr>"
    have "routing_receive sys send_to rslv now (Ok (l, length payload)) ?st
        = Continue (routing_forward sys send_to rslv now l payload ?st)"
      using l(2) by (simp add: routing_receive_def overwrite_def)
    then show ?thesis
      using post ok p by (auto simp: routing_forward_effect)
  qed (use post run ops in \<open>auto simp: read_targeted_message_def\<close>)
qed


text \<open>A client whose stream holds a packet for 1.2.3.4:53, in two pieces, and a byte after it.\<close>

definition demo_packet :: "byte list" where
  "demo_packet = packet_bytes uot_bytes demo_location [7, 8]"

definition demo_uot :: "peer packet_stream" where
  "demo_uot = new_uot (\<lambda>_. 0) ([Chunk (take 4 demo_packet), Wait, Chunk (drop 4 demo_packet @ [1])], [Accept 2, AcceptWait], [])"

definition demo_routing :: "(peer packet_stream, unit, fd_table) routing" where
  "demo_routing = (routing_new (\<lambda>_. 0) demo_uot () (fresh_table (\<lambda>_. False)) 0)\<lparr>ro_phase := Selecting\<rparr>"

lemma demo_routing_facts:
  "ro_server demo_routing = demo_uot" "length (ro_buf demo_routing) = 65535" "ro_sessions demo_routing = Map.empty"
  "uot_ready (\<lambda>s. script_inv (fst s)) demo_uot" "uot_unread (\<lambda>s. script_content (fst s)) demo_uot = demo_packet @ [1]"
  "uot_sent (\<lambda>s. snd (snd s)) demo_uot = []"
proof -
  have "demo_packet \<noteq> []" by (simp add: demo_packet_def packet_bytes_def)
  moreover have "length demo_packet = 11" by (simp add: demo_packet_def demo_location_def)
  ultimately show "uot_ready (\<lambda>s. script_inv (fst s)) demo_uot"
    by (auto simp: demo_uot_def script_inv_def intro!: uot_ready_new)
  note new = ps_new_invs [where codec = uot_addr_codec and mem = "\<lambda>_. 0", folded new_uot_def]
  show "uot_unread (\<lambda>s. script_content (fst s)) demo_uot = demo_packet @ [1]"
    by (simp add: uot_unread_def demo_uot_def new)
  show "uot_sent (\<lambda>s. snd (snd s)) demo_uot = []"
    by (simp add: uot_sent_def demo_uot_def new_uot_def ps_new_with_codec_def)
qed (simp_all add: demo_routing_def routing_new_def)

theorem uot_packet_forwarded_witness:
  "case read_targeted_message (packet_stream_ops peer_ops) demo_uot (ro_buf demo_routing) of (p, buf', v) \<Rightarrow>
    (case p of
      Ready (Ok x) \<Rightarrow> uot_unread (\<lambda>s. script_content (fst s)) v = [1] \<and> uot_sent (\<lambda>s. snd (snd s)) v = [] \<and>
        (\<exists>st'. routing_receive table_call (\<lambda>_ _ _ s. s) demo_resolution 5 (Ok x)
            (demo_routing\<lparr>ro_phase := AtTop, ro_server := v, ro_buf := buf'\<rparr>) = Continue st' \<and> ro_server st' = v)
    | Ready (Err e) \<Rightarrow> True
    | Ready Panic \<Rightarrow> False
    | Pending \<Rightarrow> uot_unread (\<lambda>s. script_content (fst s)) v = demo_packet @ [1])"
proof -
  obtain p buf' v where run: "read_targeted_message (packet_stream_ops peer_ops) (ro_server demo_routing) (ro_buf demo_routing) = (p, buf', v)"
    by (metis prod_cases3)
  have ready: "uot_ready (\<lambda>s. script_inv (fst s)) (ro_server demo_routing)" unfolding demo_routing_facts by (rule demo_routing_facts)
  have l: "uot_ok demo_location" "\<not> is_unspecified demo_location"
    by (simp_all add: uot_ok_def demo_location_def is_unspecified_def net_location_unspecified_def net_location_new_def)
  have size: "length (packet_bytes uot_bytes demo_location [7, 8]) \<le> 65535 - 4096" by (simp add: demo_location_def)
  have unread: "uot_unread (\<lambda>s. script_content (fst s)) (ro_server demo_routing) = packet_bytes uot_bytes demo_location [7, 8] @ [1]"
    unfolding demo_routing_facts demo_packet_def [symmetric] ..
  note main = uot_packet_forwarded [where sys = table_call and send_to = "\<lambda>_ _ _ s. s" and rslv = demo_resolution and now = 5,
      OF peer.duplex_stream_axioms ready demo_routing_facts(2) l size unread run]
  show ?thesis
    using main run unfolding demo_routing_facts
    by (cases p rule: poll_res_exhaust) (auto simp: uot_kept_def demo_routing_facts)
qed


end
