(* ===== verification/Server.thy ===== *)
theory Server
  imports Anytls_Server
begin

text \<open>
  Starting and running the servers: \<^verbatim>\<open>run_server\<close> of \<^verbatim>\<open>src/anytls/server.rs\<close> and of \<^verbatim>\<open>src/hysteria2.rs\<close>, \<^verbatim>\<open>src/tls_config.rs\<close>,
  \<^verbatim>\<open>src/config.rs\<close> and \<^verbatim>\<open>src/main.rs\<close>. Reading, generating and checking certificates (rustls, rcgen) and reading YAML (serde)
  are parameters. The accept loops are step relations: the loop, the tasks of the connections and the semaphore that
  limits them interleave.
\<close>

section \<open>Listen addresses\<close>

text \<open>\<^verbatim>\<open>str::parse::<SocketAddr>\<close>.\<close>

definition read_port :: "string \<Rightarrow> (nat \<times> string) option" where
  "read_port s = Option.bind (read_char CHR '':'' s) (\<lambda>s1. read_number 10 (length s1) True 65535 s1)"

definition read_scope_id :: "string \<Rightarrow> nat \<times> string" where
  "read_scope_id s =
     (case Option.bind (read_char CHR ''%'' s) (\<lambda>s1. read_number 10 (length s1) True (2 ^ 32 - 1) s1) of
        Some r \<Rightarrow> r
      | None \<Rightarrow> (0, s))"

definition parse_socket_addr :: "string \<Rightarrow> socket_addr option" where
  "parse_socket_addr s =
     (case Option.bind (read_ipv4_addr s) (\<lambda>(os, s1). map_option (\<lambda>(p, r). (os, p, r)) (read_port s1)) of
        Some (os, p, r) \<Rightarrow> if r = [] then Some (SockV4 (ipv4_of_octets (map of_nat os)) (of_nat p)) else None
      | None \<Rightarrow>
          Option.bind (read_char CHR ''['' s) (\<lambda>s1.
          Option.bind (read_ipv6_addr s1) (\<lambda>(gs, s2).
            case read_scope_id s2 of (scope, s3) \<Rightarrow>
              Option.bind (read_char CHR '']'' s3) (\<lambda>s4.
              Option.bind (read_port s4) (\<lambda>(p, r).
                if r = [] then Some (SockV6 (ipv6_of_segments gs) (of_nat p) (of_nat scope)) else None)))))"

section \<open>Certificates\<close>

text \<open>\<^verbatim>\<open>TlsMaterial\<close>: the configuration of rustls and the ALPN protocols. \<open>from_files\<close> takes both files, or neither, in
  which case a certificate is made for \<open>sni_name\<close>. Of rcgen: \<open>te_generate\<close> makes a key pair, \<open>te_params\<close> the parameters of a
  certificate for names, \<open>te_no_ca\<close> and \<open>te_common_name\<close> set the fields that the code sets (the latter replaces the
  distinguished name), \<open>te_self_signed\<close> signs and \<open>te_key_der\<close> serializes the key. Of rustls: \<open>te_versions\<close> chooses the protocol
  versions, \<open>te_build\<close> builds the configuration and \<open>te_set_alpn\<close> sets its \<^verbatim>\<open>alpn_protocols\<close>.\<close>

record 'c tls_material =
  tm_server_config :: 'c
  tm_alpn :: "byte list list"

record ('x, 'k, 'c, 'g, 'p) tls_env =
  te_open :: "string \<Rightarrow> byte list res"
  te_certs :: "byte list \<Rightarrow> 'x list res"
  te_private_key :: "byte list \<Rightarrow> 'k option res"
  te_generate :: "'g res"
  te_params :: "string list \<Rightarrow> 'p res"
  te_no_ca :: "'p \<Rightarrow> 'p"
  te_common_name :: "string \<Rightarrow> 'p \<Rightarrow> 'p"
  te_self_signed :: "'p \<Rightarrow> 'g \<Rightarrow> 'x res"
  te_key_der :: "'g \<Rightarrow> 'k res"
  te_versions :: "unit res"
  te_build :: "'x list \<Rightarrow> 'k \<Rightarrow> 'c res"
  te_set_alpn :: "byte list list \<Rightarrow> 'c \<Rightarrow> 'c"

text \<open>\<^verbatim>\<open>load_cert_and_key\<close>: the files are opened and the PEM sections in them taken by \<^verbatim>\<open>rustls_pemfile\<close>.\<close>

definition load_cert_and_key ::
  "('x, 'k, 'c, 'g, 'p) tls_env \<Rightarrow> string \<Rightarrow> string \<Rightarrow> ('x list \<times> 'k) res" where
  "load_cert_and_key te cert_path key_path =
     bind_res (case te_open te cert_path of Err e \<Rightarrow> Err (IoError (err_kind e) ''failed to open cert file'') | r \<Rightarrow> r) (\<lambda>cert_file.
     bind_res (case te_certs te cert_file of Err e \<Rightarrow> Err (other_error ''failed to parse cert file'') | r \<Rightarrow> r) (\<lambda>cs.
     if cs = [] then Err (other_error ''no certificates found'')
     else
       bind_res (case te_open te key_path of Err e \<Rightarrow> Err (IoError (err_kind e) ''failed to open key file'') | r \<Rightarrow> r) (\<lambda>key_file.
       bind_res (case te_private_key te key_file of Err e \<Rightarrow> Err (other_error ''failed to parse key file'') | r \<Rightarrow> r) (\<lambda>k.
       bind_res (res_of_option (other_error ''no private key found'') k) (\<lambda>key.
       Ok (cs, key))))))"

text \<open>The certificate made when none is configured.\<close>

definition generate_self_signed :: "('x, 'k, 'c, 'g, 'p) tls_env \<Rightarrow> string \<Rightarrow> ('x list \<times> 'k) res" where
  "generate_self_signed te sni_name =
     bind_res (case te_generate te of Err e \<Rightarrow> Err (other_error ''failed to generate key'') | r \<Rightarrow> r) (\<lambda>key_pair.
     bind_res (case te_params te [sni_name] of Err e \<Rightarrow> Err (other_error ''cert params'') | r \<Rightarrow> r) (\<lambda>params.
     let params' = te_common_name te sni_name (te_no_ca te params) in
     bind_res (case te_self_signed te params' key_pair of Err e \<Rightarrow> Err (other_error ''failed to self-sign cert'') | r \<Rightarrow> r) (\<lambda>cert_der.
     bind_res (case te_key_der te key_pair of Err e \<Rightarrow> Err (other_error ''failed to serialize generated key'') | r \<Rightarrow> r) (\<lambda>key_der.
     Ok ([cert_der], key_der)))))"

definition tls_from_files ::
  "('x, 'k, 'c, 'g, 'p) tls_env \<Rightarrow> string option \<Rightarrow> string option \<Rightarrow> string \<Rightarrow> 'c tls_material res" where
  "tls_from_files te cert_path key_path sni_name =
     bind_res
       (case (cert_path, key_path) of
          (Some cert, Some key) \<Rightarrow> load_cert_and_key te cert key
        | (None, None) \<Rightarrow> generate_self_signed te sni_name
        | _ \<Rightarrow> Err (other_error ''cert and key must either both be configured or both omitted'')) (\<lambda>(certs, key).
     bind_res (case te_versions te of Err e \<Rightarrow> Err (other_error ''TLS version config'') | r \<Rightarrow> r) (\<lambda>_.
     bind_res (case te_build te certs key of Err e \<Rightarrow> Err (other_error ''invalid certificate/key'') | r \<Rightarrow> r) (\<lambda>server_config.
     Ok \<lparr>tm_server_config = server_config, tm_alpn = []\<rparr>)))"

definition with_alpn :: "('x, 'k, 'c, 'g, 'p) tls_env \<Rightarrow> string list \<Rightarrow> 'c tls_material \<Rightarrow> 'c tls_material" where
  "with_alpn te protocols tm =
     (let alpn = map bytes_of protocols in
      \<lparr>tm_server_config = te_set_alpn te alpn (tm_server_config tm), tm_alpn = alpn\<rparr>)"

text \<open>\<^verbatim>\<open>into_quic\<close>; nothing else holds the configuration, so that taking it out of its \<^verbatim>\<open>Arc\<close> succeeds.\<close>

definition into_quic :: "('c \<Rightarrow> 'q res) \<Rightarrow> 'c tls_material \<Rightarrow> 'q res" where
  "into_quic try_into tm =
     (case try_into (tm_server_config tm) of Err e \<Rightarrow> Err (other_error ''invalid QUIC server config'') | r \<Rightarrow> r)"

section \<open>Configuration\<close>

record hysteria_config =
  hc_listen :: string
  hc_password :: string
  hc_udp_enabled :: bool
  hc_cert :: "string option"
  hc_key :: "string option"
  hc_alpn :: "string list"
  hc_max_connections :: u32

record anytls_user =
  au_name :: string
  au_password :: string

record anytls_config =
  ac_listen :: string
  ac_cert :: "string option"
  ac_key :: "string option"
  ac_udp_enabled :: bool
  ac_users :: "anytls_user list"
  ac_padding_scheme :: "string option"
  ac_fallback :: "net_location option"
  ac_max_connections :: u32

datatype server_config = Hysteria2 hysteria_config | Anytls anytls_config

record config =
  cf_log_level :: string
  cf_servers :: "server_config list"
  cf_tcp_congestion :: string

definition default_log_level :: string where "default_log_level = ''info''"
definition default_true :: bool where "default_true = True"
definition default_max_connections :: u32 where "default_max_connections = 4096"
definition default_tcp_congestion :: string where "default_tcp_congestion = ''bbr''"

text \<open>\<^verbatim>\<open>Config::load\<close>: \<open>read_file\<close> and \<open>from_yaml\<close> are the file system's and serde's.\<close>

definition config_load :: "(string \<Rightarrow> string res) \<Rightarrow> (string \<Rightarrow> config res) \<Rightarrow> string \<Rightarrow> config res" where
  "config_load read_file from_yaml path =
     bind_res (case read_file path of Err e \<Rightarrow> Err (IoError (err_kind e) ''failed to read config'') | r \<Rightarrow> r) (\<lambda>contents.
       case from_yaml contents of Err e \<Rightarrow> Err (other_error ''failed to parse config'') | r \<Rightarrow> r)"

section \<open>The accept loops\<close>

text \<open>Permits of the semaphore, connections that are served, and whether the loop holds a permit (AnyTLS) or an accepted
  connection (Hysteria2). A maximum of 0 means that there is no semaphore.\<close>

record accept_state =
  as_max :: nat
  as_permits :: nat
  as_active :: nat
  as_holding :: bool

definition accept_new :: "u32 \<Rightarrow> accept_state" where
  "accept_new max_connections =
     \<lparr>as_max = unat max_connections, as_permits = unat max_connections, as_active = 0, as_holding = False\<rparr>"

definition acquire :: "accept_state \<Rightarrow> accept_state option" where
  "acquire st =
     (if as_max st = 0 then Some st
      else if as_permits st = 0 then None
      else Some (st\<lparr>as_permits := as_permits st - 1\<rparr>))"

definition release :: "accept_state \<Rightarrow> accept_state" where
  "release st = (if as_max st = 0 then st else st\<lparr>as_permits := as_permits st + 1\<rparr>)"

text \<open>AnyTLS: a permit first, then a connection; an accept that fails gives the permit back. A task that is done drops its
  permit.\<close>

inductive anytls_accept_step :: "accept_state \<Rightarrow> accept_state \<Rightarrow> bool" where
  permit: "\<not> as_holding st \<Longrightarrow> acquire st = Some st' \<Longrightarrow> anytls_accept_step st (st'\<lparr>as_holding := True\<rparr>)"
| failed: "as_holding st \<Longrightarrow> anytls_accept_step st (release (st\<lparr>as_holding := False\<rparr>))"
| served: "as_holding st \<Longrightarrow> anytls_accept_step st (st\<lparr>as_holding := False, as_active := as_active st + 1\<rparr>)"
| finished: "0 < as_active st \<Longrightarrow> anytls_accept_step st (release (st\<lparr>as_active := as_active st - 1\<rparr>))"

text \<open>Hysteria2: a connection first, then a permit.\<close>

inductive hysteria_accept_step :: "accept_state \<Rightarrow> accept_state \<Rightarrow> bool" where
  incoming: "\<not> as_holding st \<Longrightarrow> hysteria_accept_step st (st\<lparr>as_holding := True\<rparr>)"
| served: "as_holding st \<Longrightarrow> acquire st = Some st' \<Longrightarrow>
    hysteria_accept_step st (st'\<lparr>as_holding := False, as_active := as_active st' + 1\<rparr>)"
| finished: "0 < as_active st \<Longrightarrow> hysteria_accept_step st (release (st\<lparr>as_active := as_active st - 1\<rparr>))"

text \<open>The task of an AnyTLS connection: the TLS handshake has ten seconds (\<^term>\<open>None\<close> when they are over).\<close>

definition anytls_task :: "'t res option \<Rightarrow> ('t \<Rightarrow> 's \<Rightarrow> 'r \<times> 's) \<Rightarrow> 's \<Rightarrow> 'r option \<times> 's" where
  "anytls_task handshake handle s =
     (case handshake of
        Some (Ok conn) \<Rightarrow> (case handle conn s of (r, s') \<Rightarrow> (Some r, s'))
      | _ \<Rightarrow> (None, s))"

text \<open>The options of an accepted connection; failures are logged.\<close>

definition accepted_options :: "'s system \<Rightarrow> fd \<Rightarrow> (unit, 's) io" where
  "accepted_options sys stream =
     bind_io (ignoring (set_tcp_keepalive sys stream (secs 300) (secs 60))) (\<lambda>_.
     ignoring (sys (SysNodelay stream True)))"

section \<open>Starting a server\<close>

definition anytls_padding :: "(byte list \<Rightarrow> byte list) \<Rightarrow> string option \<Rightarrow> padding_factory res" where
  "anytls_padding md5 scheme =
     (case scheme of
        Some s \<Rightarrow>
          (case padding_factory_new md5 (bytes_of s) of
             Inr factory \<Rightarrow> Ok factory
           | Inl e \<Rightarrow> Err (other_error ''invalid padding scheme''))
      | None \<Rightarrow> default_factory md5)"

text \<open>A computation that does not touch the system.\<close>

definition pure_io :: "'a res \<Rightarrow> ('a, 's) io" where
  "pure_io r s = (r, s)"

definition listen_address :: "string \<Rightarrow> socket_addr res" where
  "listen_address s = res_of_option (other_error ''invalid listen address'') (parse_socket_addr s)"

text \<open>\<^verbatim>\<open>AnyTlsServerConfig\<close>: as configured, with the users as pairs.\<close>

definition config_users :: "anytls_config \<Rightarrow> (string \<times> string) list" where
  "config_users cfg = map (\<lambda>u. (au_name u, au_password u)) (ac_users cfg)"

record 'c anytls_task_state =
  at_listener :: fd
  at_tls :: "'c tls_material"
  at_handler :: anytls_handler
  at_accept :: accept_state

definition anytls_run_server ::
  "(byte list \<Rightarrow> byte list) \<Rightarrow> (byte list \<Rightarrow> byte list) \<Rightarrow> ('x, 'k, 'c, 'g, 'p) tls_env \<Rightarrow> 's system \<Rightarrow> anytls_config \<Rightarrow>
   ('c anytls_task_state, 's) io" where
  "anytls_run_server sha md5 te sys cfg =
     bind_io (pure_io (listen_address (ac_listen cfg))) (\<lambda>bind_address.
     bind_io (pure_io (tls_from_files te (ac_cert cfg) (ac_key cfg) ''anytls'')) (\<lambda>tls_material.
     bind_io (pure_io (anytls_padding md5 (ac_padding_scheme cfg))) (\<lambda>padding.
     let handler = anytls_handler_new sha (config_users cfg) padding (ac_udp_enabled cfg) (ac_fallback cfg)
     in bind_io (new_tcp_listener sys bind_address 4096) (\<lambda>listener.
        ret \<lparr>at_listener = listener, at_tls = tls_material, at_handler = handler,
             at_accept = accept_new (ac_max_connections cfg)\<rparr>))))"

text \<open>Hysteria2: what is checked before the task of the server is started, and what the task does first, where a failure
  is a panic of the task.\<close>

definition hysteria_alpn :: "string list \<Rightarrow> string list" where
  "hysteria_alpn alpn = (if alpn = [] then [''h3''] else alpn)"

record 'q hysteria_task_state =
  ht_address :: socket_addr
  ht_quic :: 'q
  ht_password :: string
  ht_udp_enabled :: bool
  ht_accept :: accept_state

definition hysteria_run_server ::
  "('x, 'k, 'c, 'g, 'p) tls_env \<Rightarrow> ('c \<Rightarrow> 'q res) \<Rightarrow> hysteria_config \<Rightarrow> 'q hysteria_task_state res" where
  "hysteria_run_server te try_into cfg =
     bind_res (listen_address (hc_listen cfg)) (\<lambda>bind_address.
     bind_res (tls_from_files te (hc_cert cfg) (hc_key cfg) ''hysteria2'') (\<lambda>tls_material.
     bind_res (into_quic try_into (with_alpn te (hysteria_alpn (hc_alpn cfg)) tls_material)) (\<lambda>quic_server_config.
     Ok \<lparr>ht_address = bind_address, ht_quic = quic_server_config, ht_password = hc_password cfg,
         ht_udp_enabled = hc_udp_enabled cfg, ht_accept = accept_new (hc_max_connections cfg)\<rparr>)))"

text \<open>The two \<^verbatim>\<open>unwrap\<close>s of the task; \<open>endpoint_new\<close> is \<^verbatim>\<open>quinn::Endpoint::new\<close>.\<close>

definition hysteria_server_task ::
  "'s system \<Rightarrow> ('q \<Rightarrow> fd \<Rightarrow> ('e, 's) io) \<Rightarrow> 'q hysteria_task_state \<Rightarrow> ('e, 's) io" where
  "hysteria_server_task sys endpoint_new ht s =
     (case bind_io (new_socket2_udp_socket_with_buffer_size sys (socket_addr_is_ipv6 (ht_address ht)) (Some (ht_address ht))
                      True (Some 8625000)) (endpoint_new (ht_quic ht)) s of
        (Err _, s') \<Rightarrow> (Panic, s')
      | r \<Rightarrow> r)"

datatype ('q, 'c) server_task = HysteriaTask "'q hysteria_task_state" | AnytlsTask "'c anytls_task_state"

definition start_server ::
  "(byte list \<Rightarrow> byte list) \<Rightarrow> (byte list \<Rightarrow> byte list) \<Rightarrow> ('x, 'k, 'c, 'g, 'p) tls_env \<Rightarrow> ('c \<Rightarrow> 'q res) \<Rightarrow> 's system \<Rightarrow>
   server_config \<Rightarrow> (('q, 'c) server_task, 's) io" where
  "start_server sha md5 te try_into sys server =
     (case server of
        Hysteria2 cfg \<Rightarrow> bind_io (pure_io (hysteria_run_server te try_into cfg)) (\<lambda>t. ret (HysteriaTask t))
      | Anytls cfg \<Rightarrow> bind_io (anytls_run_server sha md5 te sys cfg) (\<lambda>t. ret (AnytlsTask t)))"

section \<open>The program\<close>

datatype log_level = LogOff | LogError | LogWarn | LogInfo | LogDebug | LogTrace

definition to_ascii_lowercase :: "string \<Rightarrow> string" where
  "to_ascii_lowercase = map (\<lambda>c. let n = of_char c :: nat in if 65 \<le> n \<and> n \<le> 90 then char_of (n + 32) else c)"

definition parse_log_level :: "string \<Rightarrow> log_level" where
  "parse_log_level level =
     (let l = to_ascii_lowercase level in
      if l = ''trace'' then LogTrace
      else if l = ''debug'' then LogDebug
      else if l = ''info'' then LogInfo
      else if l = ''warn'' \<or> l = ''warning'' then LogWarn
      else if l = ''error'' then LogError
      else if l = ''off'' then LogOff
      else LogInfo)"

text \<open>The arguments after the program's name; \<^term>\<open>None\<close>: the usage is printed and the program exits.\<close>

fun parse_args :: "string list \<Rightarrow> string \<Rightarrow> bool \<Rightarrow> (string \<times> bool) option" where
  "parse_args [] config_path dry_run = Some (config_path, dry_run)"
| "parse_args (arg # args) config_path dry_run =
     (if arg = ''-c'' \<or> arg = ''--config'' then
        (case args of
           [] \<Rightarrow> None
         | path # rest \<Rightarrow> parse_args rest path dry_run)
      else if arg = ''-d'' \<or> arg = ''--dry-run'' then parse_args args config_path True
      else None)"

text \<open>The servers are started in order; the first that cannot be started ends the program.\<close>

fun start_servers :: "(server_config \<Rightarrow> ('h, 's) io) \<Rightarrow> server_config list \<Rightarrow> ('h list, 's) io" where
  "start_servers run_server [] = ret []"
| "start_servers run_server (server # servers) =
     bind_io (run_server server) (\<lambda>handle.
     bind_io (start_servers run_server servers) (\<lambda>handles.
     ret (handle # handles)))"

text \<open>The diagnostics at startup: whether the algorithm is available, unless none is configured.\<close>

definition log_congestion_control_diagnostics :: "'s system \<Rightarrow> string \<Rightarrow> 's \<Rightarrow> bool option \<times> 's" where
  "log_congestion_control_diagnostics sys algo s =
     (if algo = [] then (None, s)
      else (case probe_tcp_congestion_available sys algo s of (probed, s') \<Rightarrow> (Some probed, s')))"

datatype 'h outcome = Exited nat | ConfigOk | Started "'h list"

text \<open>\<^verbatim>\<open>main\<close> up to the wait for Ctrl+C; a panic of \<^verbatim>\<open>load\<close> or of a server's start is the program's.\<close>

definition main ::
  "'s system \<Rightarrow> (string \<Rightarrow> config res) \<Rightarrow> (server_config \<Rightarrow> ('h, 's) io) \<Rightarrow> string list \<Rightarrow> ('h outcome, 's) io" where
  "main sys load run_server args s =
     (case parse_args args ''config.yaml'' False of
        None \<Rightarrow> (Ok (Exited 1), s)
      | Some (config_path, dry_run) \<Rightarrow>
          (case load config_path of
             Err e \<Rightarrow> (Ok (Exited 1), s)
           | Panic \<Rightarrow> (Panic, s)
           | Ok config \<Rightarrow>
               (case log_congestion_control_diagnostics sys (cf_tcp_congestion config) s of
                  (_, s1) \<Rightarrow>
                    if cf_servers config = [] then (Ok (Exited 1), s1)
                    else if dry_run then (Ok ConfigOk, s1)
                    else
                      (case start_servers run_server (cf_servers config) s1 of
                         (Ok handles, s2) \<Rightarrow> (Ok (Started handles), s2)
                       | (Err e, s2) \<Rightarrow> (Ok (Exited 1), s2)
                       | (Panic, s2) \<Rightarrow> (Panic, s2)))))"

text \<open>The end of \<^verbatim>\<open>main\<close>: on Ctrl+C the tasks of the servers are aborted, in the order in which they were started. A failure
  to listen for the signal is a panic. \<open>ctrl_c\<close>, \<open>abort\<close> and \<open>sleep\<close> are tokio's.\<close>

definition shut_down :: "(unit, 's) io \<Rightarrow> ('h \<Rightarrow> 's \<Rightarrow> 's) \<Rightarrow> (nat \<Rightarrow> 's \<Rightarrow> 's) \<Rightarrow> 'h list \<Rightarrow> (unit, 's) io" where
  "shut_down ctrl_c abort sleep handles s =
     (case ctrl_c s of
        (Ok _, s1) \<Rightarrow> (Ok (), sleep 200 (foldl (\<lambda>s handle. abort handle s) s1 handles))
      | (_, s1) \<Rightarrow> (Panic, s1))"

section \<open>The limit on connections\<close>

text \<open>What both loops promise, with \<open>reserved\<close> the permits that the loop itself holds: permits are moved, never made or
  lost.\<close>

locale accept_loop =
  fixes step :: "accept_state \<Rightarrow> accept_state \<Rightarrow> bool" and reserved :: "accept_state \<Rightarrow> nat"
  assumes max_kept: "step st st' \<Longrightarrow> as_max st' = as_max st"
    and permits_kept: "step st st' \<Longrightarrow> as_max st \<noteq> 0 \<Longrightarrow>
      as_permits st' + as_active st' + reserved st' = as_permits st + as_active st + reserved st"
    and reserved_new: "reserved (accept_new m) = 0"
begin

lemma reachable_permits:
  assumes "step\<^sup>*\<^sup>* (accept_new m) st"
  shows "as_max st = unat m \<and> (m \<noteq> 0 \<longrightarrow> as_permits st + as_active st + reserved st = unat m)"
  using assms
proof induction
  case base
  show ?case by (simp add: accept_new_def [of m] reserved_new [of m, unfolded accept_new_def])
next
  case (step st st')
  then show ?case using max_kept [of st st'] permits_kept [of st st'] by (simp add: unat_eq_0)
qed

lemma limited: "step\<^sup>*\<^sup>* (accept_new m) st \<Longrightarrow> m \<noteq> 0 \<Longrightarrow> as_active st + reserved st \<le> unat m"
  using reachable_permits [of m st] by simp

lemma permit_free:
  "step\<^sup>*\<^sup>* (accept_new m) st \<Longrightarrow> m \<noteq> 0 \<Longrightarrow> (\<exists>st'. acquire st = Some st') \<longleftrightarrow> as_active st + reserved st < unat m"
  using reachable_permits [of m st] by (auto simp: acquire_def unat_eq_0)

end

lemmas accept_simps = acquire_def release_def accept_new_def

interpretation anytls_accept: accept_loop anytls_accept_step "\<lambda>st. if as_holding st then 1 else 0"
  by unfold_locales (auto simp: accept_simps elim!: anytls_accept_step.cases split: if_splits)

interpretation hysteria_accept: accept_loop hysteria_accept_step "\<lambda>st. 0"
  by unfold_locales (auto simp: accept_simps elim!: hysteria_accept_step.cases split: if_splits)

inductive_simps anytls_accept_iff: "anytls_accept_step st st'"
inductive_simps hysteria_accept_iff: "hysteria_accept_step st st'"

lemma anytls_takes_permit:
  assumes "\<not> as_holding st"
  shows "(\<exists>st'. anytls_accept_step st st' \<and> as_holding st') \<longleftrightarrow> (\<exists>st'. acquire st = Some st')"
  using assms by (auto simp: anytls_accept_iff release_def split: if_splits)

lemma hysteria_serves:
  assumes "as_holding st"
  shows "(\<exists>st'. hysteria_accept_step st st' \<and> \<not> as_holding st') \<longleftrightarrow> (\<exists>st'. acquire st = Some st')"
  using assms by (auto simp: hysteria_accept_iff release_def split: if_splits)

text \<open>C11. The limit on connections, for every interleaving of a server's accept loop with the tasks of its connections:
  with \<open>max_connections\<close> other than 0, no more connections than that are served at a time. The loop is not starved either: it
  gets its next permit exactly when fewer connections than that are served (AnyTLS asks for the permit before it accepts a
  connection, Hysteria2 after).\<close>

theorem connection_limit:
  assumes "m \<noteq> 0"
  shows "(\<forall>st. anytls_accept_step\<^sup>*\<^sup>* (accept_new m) st \<longrightarrow>
            as_active st \<le> unat m
            \<and> (\<not> as_holding st \<longrightarrow>
                ((\<exists>st'. anytls_accept_step st st' \<and> as_holding st') \<longleftrightarrow> as_active st < unat m)))
       \<and> (\<forall>st. hysteria_accept_step\<^sup>*\<^sup>* (accept_new m) st \<longrightarrow>
            as_active st \<le> unat m
            \<and> (as_holding st \<longrightarrow>
                ((\<exists>st'. hysteria_accept_step st st' \<and> \<not> as_holding st') \<longleftrightarrow> as_active st < unat m)))"
  using anytls_accept.limited [OF _ assms] anytls_accept.permit_free [OF _ assms] anytls_takes_permit
    hysteria_accept.limited [OF _ assms] hysteria_accept.permit_free [OF _ assms] hysteria_serves
  by (auto split: if_splits) (metis add_leD1 add.right_neutral)+

text \<open>With one connection allowed and one served, the AnyTLS loop gets no permit.\<close>

theorem connection_limit_witness:
  "let st = \<lparr>as_max = 1, as_permits = 0, as_active = 1, as_holding = False\<rparr> in
   anytls_accept_step\<^sup>*\<^sup>* (accept_new 1) st \<and> (\<nexists>st'. anytls_accept_step st st' \<and> as_holding st')"
proof -
  let ?st = "\<lparr>as_max = 1, as_permits = 0, as_active = 1, as_holding = False\<rparr>"
  let ?held = "\<lparr>as_max = 1, as_permits = 0, as_active = 0, as_holding = True\<rparr>"
  have "anytls_accept_step (accept_new 1) ?held" by (simp add: anytls_accept_iff accept_simps)
  moreover have "anytls_accept_step ?held ?st" by (simp add: anytls_accept_iff)
  ultimately have r: "anytls_accept_step\<^sup>*\<^sup>* (accept_new 1) ?st" by (meson converse_rtranclp_into_rtranclp r_into_rtranclp)
  then have "\<not> (\<exists>st'. anytls_accept_step ?st st' \<and> as_holding st')"
    using connection_limit [of 1] by force
  with r show ?thesis unfolding Let_def by blast
qed

section \<open>Startup\<close>

text \<open>The task that a server's configuration asks for, and the listeners that tasks hold.\<close>

fun task_for :: "(byte list \<Rightarrow> byte list) \<Rightarrow> server_config \<Rightarrow> ('q, 'c) server_task \<Rightarrow> bool" where
  "task_for sha (Hysteria2 cfg) (HysteriaTask t) \<longleftrightarrow>
     (hc_cert cfg = None \<longleftrightarrow> hc_key cfg = None) \<and> listen_address (hc_listen cfg) = Ok (ht_address t) \<and> ht_password t = hc_password cfg
     \<and> ht_udp_enabled t = hc_udp_enabled cfg \<and> ht_accept t = accept_new (hc_max_connections cfg)"
| "task_for sha (Anytls cfg) (AnytlsTask t) \<longleftrightarrow>
     (ac_cert cfg = None \<longleftrightarrow> ac_key cfg = None) \<and> handler_ok (at_handler t)
     \<and> dom (ah_users (at_handler t)) = (\<lambda>u. sha (bytes_of (au_password u))) ` set (ac_users cfg)
     \<and> ah_udp_enabled (at_handler t) = ac_udp_enabled cfg \<and> ah_fallback (at_handler t) = ac_fallback cfg
     \<and> at_accept t = accept_new (ac_max_connections cfg)"
| "task_for sha _ _ \<longleftrightarrow> False"

fun listeners :: "('q, 'c) server_task list \<Rightarrow> fd list" where
  "listeners [] = []"
| "listeners (AnytlsTask t # ts) = at_listener t # listeners ts"
| "listeners (HysteriaTask t # ts) = listeners ts"

definition started_ok ::
  "(byte list \<Rightarrow> byte list) \<Rightarrow> fd set \<Rightarrow> server_config list \<Rightarrow> ('q, 'c) server_task list \<Rightarrow> fd set \<Rightarrow> bool" where
  "started_ok sha before servers tasks after \<longleftrightarrow>
     list_all2 (task_for sha) servers tasks
     \<and> distinct (listeners tasks) \<and> set (listeners tasks) \<inter> before = {}
     \<and> after = before \<union> set (listeners tasks)"

lemma tls_both_or_neither: "tls_from_files te cert key sni = Ok tm \<Longrightarrow> cert = None \<longleftrightarrow> key = None"
  by (cases cert; cases key) (simp_all add: tls_from_files_def)

lemma bind_pure [simp]: "bind_io (pure_io r) f s = (case r of Ok x \<Rightarrow> f x s | Err e \<Rightarrow> (Err e, s) | Panic \<Rightarrow> (Panic, s))"
  by (simp add: bind_io_def pure_io_def)

lemma bind_ret: "bind_io m (\<lambda>x. ret (f x)) s = (Ok y, s') \<longleftrightarrow> (\<exists>x. m s = (Ok x, s') \<and> y = f x)"
  by (auto simp: bind_io_def ret_def split: prod.splits res.splits)

lemma handler_fields [simp]:
  "ah_udp_enabled (anytls_handler_new sha users padding udp fallback) = udp"
  "ah_fallback (anytls_handler_new sha users padding udp fallback) = fallback"
  by (simp_all add: anytls_handler_new_def split: prod.splits)

lemma add_users_dom: "dom (fst (foldl (add_user sha) st users)) = dom (fst st) \<union> (\<lambda>u. sha (bytes_of (snd u))) ` set users"
  by (induction users arbitrary: st) (auto simp: add_user_def Let_def split: prod.splits)

lemma handler_dom:
  "dom (ah_users (anytls_handler_new sha users padding udp fallback)) = (\<lambda>u. sha (bytes_of (snd u))) ` set users"
  using add_users_dom [of sha "(Map.empty, {})" users] by (simp add: anytls_handler_new_def case_prod_unfold)

lemma anytls_started:
  assumes "anytls_run_server sha md5 te sys cfg s = (Ok t, s')"
  shows "task_for sha (Anytls cfg) (AnytlsTask t)
    \<and> (\<exists>addr. listen_address (ac_listen cfg) = Ok addr \<and> new_tcp_listener sys addr 4096 s = (Ok (at_listener t), s'))"
  using assms
  by (clarsimp simp: anytls_run_server_def Let_def bind_ret handler_ok_new handler_dom config_users_def image_image
      split: res.splits) (erule tls_both_or_neither)

lemma hysteria_started:
  "hysteria_run_server te try_into cfg = Ok t \<Longrightarrow> task_for sha (Hysteria2 cfg) (HysteriaTask t)"
  by (clarsimp simp: hysteria_run_server_def bind_res_Ok_iff) (erule tls_both_or_neither)

context descriptors
begin

lemma server_started:
  assumes "start_server sha md5 te try_into sys server s = (Ok t, s')"
  shows "task_for sha server t"
    and "distinct (listeners [t]) \<and> set (listeners [t]) \<inter> opened s = {} \<and> opened s' = opened s \<union> set (listeners [t])"
proof -
  show "task_for sha server t"
    using assms by (cases server)
      (auto simp: start_server_def bind_ret ret_def [of "HysteriaTask _"] dest: anytls_started hysteria_started
        split: res.splits)
  show "distinct (listeners [t]) \<and> set (listeners [t]) \<inter> opened s = {} \<and> opened s' = opened s \<union> set (listeners [t])"
  proof (cases server)
    case (Hysteria2 cfg)
    with assms show ?thesis by (auto simp: start_server_def ret_def split: res.splits)
  next
    case (Anytls cfg)
    with assms obtain t' where t: "anytls_run_server sha md5 te sys cfg s = (Ok t', s')" "t = AnytlsTask t'"
      by (auto simp: start_server_def bind_ret)
    then obtain addr where "new_tcp_listener sys addr 4096 s = (Ok (at_listener t'), s')"
      using anytls_started [OF t(1)] by blast
    then have "accounted opened s (Ok (at_listener t')) s'" using opens_new_tcp_listener unfolding opens_def by blast
    with t show ?thesis by (auto simp: accounted_def)
  qed
qed

lemma servers_started_ok:
  assumes "start_servers (start_server sha md5 te try_into sys) servers s = (Ok tasks, s')"
  shows "started_ok sha (opened s) servers tasks (opened s')"
  using assms
proof (induction servers arbitrary: s tasks)
  case Nil
  then show ?case by (simp add: started_ok_def ret_def)
next
  case (Cons server servers)
  then obtain t s1 ts where t: "start_server sha md5 te try_into sys server s = (Ok t, s1)"
    and ts: "start_servers (start_server sha md5 te try_into sys) servers s1 = (Ok ts, s')" and tasks: "tasks = t # ts"
    by (auto simp: bind_io_Ok_iff bind_ret ret_def)
  have "started_ok sha (opened s1) servers ts (opened s')" by (rule Cons.IH [OF ts])
  with server_started [OF t] tasks show ?case by (cases t) (auto simp: started_ok_def)
qed

lemma diagnostics_open_nothing: "opened (snd (log_congestion_control_diagnostics sys algo s)) = opened s"
  using probe_opens_nothing [of algo s]
  by (simp add: log_congestion_control_diagnostics_def case_prod_unfold)

end

lemma main_started:
  assumes "main sys load run_server args s = (Ok (Started tasks), s')"
  obtains path config s1 where "parse_args args ''config.yaml'' False = Some (path, False)" "load path = Ok config"
    "cf_servers config \<noteq> []" "s1 = snd (log_congestion_control_diagnostics sys (cf_tcp_congestion config) s)"
    "start_servers run_server (cf_servers config) s1 = (Ok tasks, s')"
  using assms by (auto simp: main_def split: option.splits res.splits prod.splits if_splits)


text \<open>The socket of a Hysteria2 server is opened by its task, after the program has reported the server as started: when it
  cannot be, the task panics.\<close>

lemma hysteria_bind_failure_unreported:
  assumes "hysteria_run_server te try_into cfg = Ok t"
    and "new_socket2_udp_socket_with_buffer_size sys (socket_addr_is_ipv6 (ht_address t)) (Some (ht_address t)) True
      (Some 8625000) s = (Err e, s')"
  shows "start_server sha md5 te try_into sys (Hysteria2 cfg) s = (Ok (HysteriaTask t), s)"
    and "hysteria_server_task sys endpoint_new t s = (Panic, s')"
  using assms by (simp_all add: start_server_def hysteria_server_task_def bind_io_def [of _ "endpoint_new _"] ret_def)


text \<open>A configuration of one server of each kind, with certificates made in memory.\<close>

definition demo_tls :: "(unit, unit, unit, unit, unit) tls_env" where
  "demo_tls =
     \<lparr>te_open = (\<lambda>_. Err (other_error ''no such file'')), te_certs = (\<lambda>_. Ok []), te_private_key = (\<lambda>_. Ok None),
      te_generate = Ok (), te_params = (\<lambda>_. Ok ()), te_no_ca = (\<lambda>p. p), te_common_name = (\<lambda>_ p. p),
      te_self_signed = (\<lambda>_ _. Ok ()), te_key_der = (\<lambda>_. Ok ()), te_versions = Ok (), te_build = (\<lambda>_ _. Ok ()), te_set_alpn = (\<lambda>_ c. c)\<rparr>"

definition demo_hysteria :: hysteria_config where
  "demo_hysteria =
     \<lparr>hc_listen = ''0.0.0.0:80'', hc_password = ''secret'', hc_udp_enabled = True, hc_cert = None,
      hc_key = None, hc_alpn = [], hc_max_connections = default_max_connections\<rparr>"

definition demo_anytls :: anytls_config where
  "demo_anytls =
     \<lparr>ac_listen = ''0.0.0.0:80'', ac_cert = None, ac_key = None, ac_udp_enabled = True,
      ac_users = [\<lparr>au_name = ''user1'', au_password = ''secret123''\<rparr>], ac_padding_scheme = None,
      ac_fallback = None, ac_max_connections = 1\<rparr>"

definition demo_config :: config where
  "demo_config =
     \<lparr>cf_log_level = default_log_level, cf_servers = [Hysteria2 demo_hysteria, Anytls demo_anytls],
      cf_tcp_congestion = default_tcp_congestion\<rparr>"

lemma demo_address: "listen_address ''0.0.0.0:80'' = Ok (SockV4 0 80)"
proof -
  have "read_ipv4_addr ''0.0.0.0:80'' = Some ([0, 0, 0, 0], '':80'')" "read_port '':80'' = Some (80, [])"
    by (simp_all add: read_ipv4_addr_def read_octet_def read_port_def read_char_def read_number_def Let_def is_digit_def
      digits_value_def to_digit_def)
  then show ?thesis
    by (simp add: listen_address_def parse_socket_addr_def ipv4_of_octets_def u32_of_be_def be_nat_def)
qed

lemma demo_tls_made: "tls_from_files demo_tls None None sni = Ok \<lparr>tm_server_config = (), tm_alpn = []\<rparr>"
  by (simp add: tls_from_files_def generate_self_signed_def demo_tls_def)

abbreviation demo_start :: "server_config \<Rightarrow> ((unit, unit) server_task, fd_table) io" where
  "demo_start \<equiv> start_server id id demo_tls Ok table_call"

lemma demo_hysteria_starts: "\<exists>t. demo_start (Hysteria2 demo_hysteria) s = (Ok (HysteriaTask t), s)"
  by (simp add: start_server_def hysteria_run_server_def demo_hysteria_def demo_address demo_tls_made into_quic_def
    ret_def)

lemma demo_anytls_starts:
  assumes "ft_refuses s = refuses_congestion"
  shows "\<exists>t s'. demo_start (Anytls demo_anytls) s = (Ok (AnytlsTask t), s')"
proof -
  have "\<exists>fd s2. new_tcp_listener table_call (SockV4 0 80) 4096 s = (Ok fd, s2)"
    by (simp add: new_tcp_listener_def bind_io_def owning_def table_call_def assms refuses_congestion_def ret_def)
  then show ?thesis
    by (auto simp: start_server_def anytls_run_server_def demo_anytls_def demo_address demo_tls_made anytls_padding_def
      default_factory_eq bind_ret Let_def)
qed

lemma demo_starts:
  "\<exists>tasks s'. main table_call (\<lambda>_. Ok demo_config) demo_start [''-c'', ''a.yaml''] (fresh_table refuses_congestion)
     = (Ok (Started tasks), s')"
proof -
  obtain s1 where s1: "log_congestion_control_diagnostics table_call default_tcp_congestion (fresh_table refuses_congestion)
      = (Some False, s1)" and r: "ft_refuses s1 = refuses_congestion"
    by (simp add: log_congestion_control_diagnostics_def probe_tcp_congestion_available_def table_call_def
      fresh_table_def refuses_congestion_def default_tcp_congestion_def)
  obtain t where t: "demo_start (Hysteria2 demo_hysteria) s1 = (Ok (HysteriaTask t), s1)"
    using demo_hysteria_starts by blast
  obtain t' s2 where t': "demo_start (Anytls demo_anytls) s1 = (Ok (AnytlsTask t'), s2)"
    using demo_anytls_starts [OF r] by blast
  have "start_servers demo_start [Hysteria2 demo_hysteria, Anytls demo_anytls] s1 = (Ok [HysteriaTask t, AnytlsTask t'], s2)"
    by (simp add: bind_io_def t t' ret_def)
  then show ?thesis by (simp add: main_def demo_config_def s1 del: start_servers.simps)
qed


end
