(* ===== verification/Spec2Isabelle.thy ===== *)
theory Spec2Isabelle
  imports Prelude Varint Rust_Text Address Anytls_Types Async_Stream Stream_Reader Anytls_Stream
    Message_Codec Message_Stream Vless_Message Copy_Bidirectional Anytls_Padding Quic_Stream Resolver Socket_Util
    Anytls_Session Udp_Copy Udp_Routing Anytls_Server Hysteria_Sessions Byte_Parser Copy_Termination Hysteria_Tcp
    Hysteria_Auth Anytls_Handlers Anytls_Tunnel Anytls_Fallback Udp_Tunnel Server
begin

text \<open>
  \<^bold>\<open>A verification of rust-proxy-server.\<close> The program (\<^verbatim>\<open>src/src/\<close>) is a proxy server for two protocols. An AnyTLS client opens one
  TLS connection, authenticates with the hash of its password and then multiplexes streams over it in frames; each stream
  opens with a destination and is forwarded over TCP, or carries datagrams that are forwarded over UDP. A Hysteria2 client
  opens a QUIC connection, authenticates with an HTTP/3 request, and then opens one QUIC stream per TCP connection and sends
  its UDP packets in QUIC datagrams. Both meet in the same parts: streams as traits, a bidirectional copy, message
  streams, a resolver, dialling.

  \<^bold>\<open>How the code is modelled.\<close> A struct is a \<^verbatim>\<open>record\<close>, an enum a \<^verbatim>\<open>datatype\<close>, machine integers are words where they can wrap
  (\<open>u16\<close>, \<open>u32\<close>, \<open>u64\<close> of theory \<open>Prelude\<close>) and natural numbers where they count buffers in memory. A fallible operation returns
  a \<open>res\<close>: \<open>Ok\<close>, \<open>Err\<close> with an \<open>io_error\<close>, or \<open>Panic\<close>, so that out-of-bounds accesses, \<^verbatim>\<open>unwrap\<close> and failed assertions are
  values that theorems have to exclude. A poll returns \<open>Ready\<close> or \<open>Pending\<close>. Waiting is polling again
  (\<^verbatim>\<open>partial_function (option)\<close>, with \<^term>\<open>None\<close> for a wait that never ends); there is no fuel, and what must return is proved to
  return: the theorems say \<open>\<exists>r. f x = Some r\<close>, under the assumption that a stream is not pending for ever, which the
  locales express by a delay that decreases. A loop that always ends is a \<^verbatim>\<open>function\<close> with a measure. Tasks that interleave
  are step relations (the session, the resolver's critical sections, the UDP routing, the accept loops).

  Code that is not the program's is a parameter: tokio's sockets and channels, quinn, h3, rustls, rcgen, serde, the LRU caches,
  SHA-256 and MD5, DNS, the clock, random numbers, the kernel's socket calls. What the program relies on are the assumptions of
  locales (\<open>byte_source\<close>, \<open>byte_sink\<close>, \<open>duplex_stream\<close>, \<open>chan_rx\<close>, \<open>chan_tx\<close>, \<open>quic_halves\<close>, \<open>descriptors\<close>,
  \<open>healthy_writer\<close>, and so on), each interpreted by the model's own definitions where the program provides the operations, and
  by scripts that stand for the network.

  \<^bold>\<open>The theories.\<close>
  \<^item> \<open>Prelude\<close>: results, polls, state-passing actions, big-endian integers, slices; the collections of simplification
    rules. \<open>Rust_Text\<close>: UTF-8, parsing and printing of numbers, splitting of text, as the standard library has them.
  \<^item> \<open>Address\<close> (\<^verbatim>\<open>address.rs\<close>): addresses and locations; a printed IPv4 location is parsed back.
  \<^item> \<open>Async_Stream\<close> (\<^verbatim>\<open>async_stream.rs\<close>, \<^verbatim>\<open>util.rs\<close>): the traits as records of operations and as the contracts
    \<open>byte_source\<close> and \<open>byte_sink\<close>; \<open>Stream_Reader\<close> (\<^verbatim>\<open>stream_reader.rs\<close>): the buffered reader refines a queue of bytes;
    \<open>Byte_Parser\<close>: a sequence of such reads is a parser on the bytes, however they arrive.
  \<^item> \<open>Copy_Bidirectional\<close> (\<^verbatim>\<open>copy_bidirectional.rs\<close>): the ring buffer, the states of a transfer, the keep-alive timer; nothing is lost,
    repeated or reordered. \<open>Copy_Termination\<close>: the whole copy ends, by a lexicographic rank of what is left to read, buffered
    and awaited.
  \<^item> \<open>Message_Codec\<close>, \<open>Message_Stream\<close>, \<open>Vless_Message\<close> (\<^verbatim>\<open>message_stream.rs\<close>): the sliding buffer, the address codec, the two
    message streams; messages do not depend on how bytes are cut into reads.
  \<^item> \<open>Anytls_Types\<close> (\<^verbatim>\<open>anytls/types.rs\<close>), \<open>Anytls_Padding\<close> (\<^verbatim>\<open>anytls/padding.rs\<close> and the padding of writes in
    \<^verbatim>\<open>anytls/session.rs\<close>), \<open>Anytls_Stream\<close> (\<^verbatim>\<open>anytls/stream.rs\<close>): frames and settings round trip, padding is transparent to a
    receiver that drops waste frames, a stream sends data and then at most one FIN.
  \<^item> \<open>Anytls_Session\<close> (\<^verbatim>\<open>anytls/session.rs\<close>): the session's tables, frames in and out, the receive loop and its independence of the
    reads, demultiplexing, an invariant over all interleavings of its tasks. \<open>Anytls_Tunnel\<close> follows a client's frames through
    it. \<open>Anytls_Handlers\<close> (end of \<^verbatim>\<open>anytls/session.rs\<close>): the destination of a stream, TCP forwarding, UDP over TCP; a stream of a
    session is a duplex stream, and a stream is served.
  \<^item> \<open>Anytls_Server\<close> (\<^verbatim>\<open>anytls/server.rs\<close>): users, authentication, the fallback, a connection. \<open>Anytls_Fallback\<close>: the fallback end to
    end, from the bytes of a client that is not a user to the bytes the fallback destination gets.
  \<^item> \<open>Udp_Copy\<close>, \<open>Udp_Routing\<close> (\<^verbatim>\<open>udp_relay.rs\<close>): the message copy with its idle timeout; the routing of datagrams per
    destination, with the tasks that receive the answers, which are all accounted for. \<open>Udp_Tunnel\<close>: the routing over a packet stream
    over a byte stream, as UDP over TCP with many destinations runs it.
  \<^item> \<open>Quic_Stream\<close> (\<^verbatim>\<open>quic_stream.rs\<close>), \<open>Resolver\<close> (\<^verbatim>\<open>resolver.rs\<close>), \<open>Socket_Util\<close> (\<^verbatim>\<open>socket_util.rs\<close>, \<^verbatim>\<open>dial.rs\<close>): two halves make
    a stream; cached answers are fresh; no descriptor is leaked.
  \<^item> \<open>Varint\<close>, \<open>Hysteria_Udp\<close>, \<open>Hysteria_Reassembly\<close>, \<open>Hysteria_Sessions\<close>, \<open>Hysteria_Tcp\<close>, \<open>Hysteria_Auth\<close> (\<^verbatim>\<open>hysteria2.rs\<close>):
    variable-length integers, datagrams and their fragments, UDP sessions, TCP requests and their service, authentication and
    the loops of a connection.
  \<^item> \<open>Server\<close> (\<^verbatim>\<open>run_server\<close> of both protocols, \<^verbatim>\<open>tls_config.rs\<close>, \<^verbatim>\<open>config.rs\<close>, \<^verbatim>\<open>main.rs\<close>): certificates, configuration, startup and the
    accept loops with their limit on connections.
  \<^item> This theory: from the bytes of a client's connection to what the task of a stream reads.

  \<^bold>\<open>What the theorems show.\<close> End to end for AnyTLS: a connection becomes a session exactly when it opens with a user's hash and its
  padding, and the session gets exactly the bytes after them; the receive loop handles exactly the frames of these bytes; a
  stream's task reads exactly the data of its own frames; the stream is served, its destination gets exactly the bytes after
  the request and the client exactly the bytes of the destination; what streams send becomes one frame per message, in order;
  a client that is not a user gets the fallback, which gets every byte from the first one on; a packet of UDP over TCP is sent to
  the destination it names, and answers come back as whole packets.
  For Hysteria2: nobody is served before being authenticated, a stream is served as its request says, packets survive
  fragmentation in any order of arrival. Across both: the copies end and conserve bytes and messages, sockets are not leaked,
  the limit on connections holds, startup leaves exactly the configured servers. Some theorems state what the code does where it
  does not do what was meant: sessions that expire while active, datagrams that panic a loop, receiving tasks that are not
  replaced when their socket failed, streams that survive the
  close of their session, writes of no bytes that end a stream, reads that fail after a shutdown, a bracketed IPv6 address
  taken for a name.

  \<^bold>\<open>Bounds.\<close> Lengths of buffers, frames, messages and packets are the program's own (8192, 16384, 32768, 65535 bytes and so on).
  Channels between tasks are unbounded here; in the code a full channel makes its sender wait.
  Time is a number of nanoseconds.

  \<^bold>\<open>Not modelled.\<close> Log output and the usage message; the transport parameters handed to quinn; the branches for systems other than
  Linux in \<^verbatim>\<open>socket_util.rs\<close>; getters that nothing calls; the third-party code named above; the module declarations of \<^verbatim>\<open>anytls/mod.rs\<close>. Messages of errors are kept to their fixed part,
  except where they go to the client.
\<close>

section \<open>From the client's connection to a stream\<close>

text \<open>C1. From the client's connection to a stream: the client sends its settings, frames for other streams, a SYN, frames among
  which are those of the stream, and the FIN of the stream, however these bytes were cut into reads and wherever the
  authentication left off. Then the receive loop ends well, a task was started for the stream, and what the task reads from it
  is exactly the data of the stream's own frames, in order.\<close>

theorem client_bytes_reach_stream:
  assumes env: "healthy_writer env sent" and src: "byte_source rd content src_inv delay (\<lambda>_. False)" and "src_inv s"
    and room: "\<And>b. 0 < room b"
    and se: "se = new_server_with_initial_data w padding udp_enabled user_name (Some initial)"
    and wire: "initial @ content s = concat (map (\<lambda>f. frame_bytes f) (settings # before @ frame_control Syn i # fs @ [frame_control Fin i]))"
    and settings: "fr_cmd settings = Settings"
    and small: "\<forall>f \<in> set (settings # before @ fs). frame_ok f"
    and no_alert: "\<forall>f \<in> set (before @ fs). fr_cmd f \<noteq> Alert"
    and unopened: "\<forall>f \<in> set before. \<not> (fr_cmd f = Syn \<and> fr_stream_id f = i)"
    and still_open: "\<forall>f \<in> set fs. \<not> (fr_cmd f = Fin \<and> fr_stream_id f = i)"
  shows "\<exists>s' se'. recv_loop env rd room s se = Some (Ok (), s', se') \<and>
    (\<exists>stream \<in> set (se_spawned se'). as_id stream = i \<and>
       stream_content (\<lambda>c. ch_msgs (se_channels se' c)) stream =
         concat (map fr_data (filter (\<lambda>f. fr_cmd f = Psh \<and> fr_stream_id f = i) fs)))"
proof -
  let ?se = "se\<lparr>se_initial_data := None\<rparr>"
  let ?rest = "frame_control Syn i # fs @ [frame_control Fin i]"
  have ok: "session_ok ?se" unfolding se using session_ok_new [of w padding udp_enabled user_name "Some initial"] by simp
  have fresh: "se_streams ?se i = None" "\<not> se_is_closed ?se" "\<not> se_is_closed se"
    by (simp_all add: se new_server_with_initial_data_def)
  have ctl: "fr_cmd (frame_control c i) = c" "fr_stream_id (frame_control c i) = i" "frame_ok (frame_control c i)" for c
    by (simp_all add: frame_control_def frame_with_data_def frame_ok_def)
  obtain se1 where se1: "handle_frame env settings ?se = (Ok (), se1)" "settled se1"
    using healthy_writer.handle_frame_handled [OF env ok, of settings] settings by auto
  obtain se2 where se2: "handle_frames env before se1 = (Ok (), se2)" "settled se2"
    using healthy_writer.handle_frames_handled [OF env se1(2), of before] no_alert by auto
  obtain se3 where se3: "handle_frames env ?rest se2 = (Ok (), se3)"
    using healthy_writer.handle_frames_handled [OF env se2(2), of ?rest] no_alert ctl by auto
  have ok2: "session_ok se2" "se_received_client_settings se2"
    using se2(2) by (simp_all add: settled_def)
  have "se_streams se1 i = None" using handle_frame_unopened [OF fresh(1) _ se1(1)] settings by simp
  then have un2: "se_streams se2 i = None" using handle_frames_unopened [OF se2(1) _ unopened] by simp
  have open2: "\<not> se_is_closed se2" using handle_frames_open [OF se2(1)] handle_frame_open [OF se1(1)] fresh by simp
  have all: "handle_frames env (settings # before @ ?rest) ?se = (Ok (), se3)"
    using se1(1) se2(1) se3 by (simp add: handle_frames_append bind_io_def)
  have "decode_frames [] = ([], Ok [])" by (simp add: decode_frames_None frame_decode_def)
  then have "decode_frames (initial @ content s) = (settings # before @ ?rest, Ok [])"
    unfolding wire using decode_frames_encoded [of "settings # before @ ?rest" "[]"] small ctl
    by (simp add: ball_Un)
  then have outcome: "recv_outcome env (initial @ content s) ?se = (Ok [], se3)"
    using all by (simp add: recv_outcome_def bind_io_def)
  have init: "se_initial_data se = Some initial" by (simp add: se new_server_with_initial_data_def)
  obtain r s' se' where "recv_loop env rd room s se = Some (r, s', se')" "(r, se') = (Ok (), se3)"
    using byte_source.recv_loop_total [where room = room and env = env and buffer = initial, OF src assms(3) fresh(2) room]
    unfolding recv_loop_def init option.case outcome by auto
  moreover have "concat (delivered i fs) = concat (map fr_data (filter (\<lambda>f. fr_cmd f = Psh \<and> fr_stream_id f = i) fs))"
    by (induction fs) (auto simp: delivered_def)
  ultimately show ?thesis
    using handle_frames_stream [OF ok2 un2 open2 se3] still_open by (auto simp: ends_def)
qed


text \<open>A connection that does not fail.\<close>

definition calm :: "script_item list \<Rightarrow> bool" where
  "calm s \<longleftrightarrow> script_inv s \<and> (\<forall>e. Fail e \<notin> set s)"

interpretation calm_script: byte_source script_read script_content calm length "\<lambda>_. False"
proof (unfold_locales, goal_cases)
  case (1 s n bs s')
  then show ?case using script.read_ok [of s n bs s']
    by (cases "(s, n)" rule: script_read.cases) (auto simp: calm_def split: if_splits)
next
  case (2 s n e s')
  then show ?case by (cases "(s, n)" rule: script_read.cases) (auto simp: calm_def split: if_splits)
next
  case (3 s n s')
  then show ?case using script.read_pending [of s n s']
    by (cases "(s, n)" rule: script_read.cases) (auto simp: calm_def split: if_splits)
next
  case (4 s n s')
  then show ?case using script.read_no_panic [of s n s'] by (auto simp: calm_def)
qed

text \<open>A client whose settings arrive with its authentication, and the rest in two reads.\<close>

definition demo_settings :: frame where
  "demo_settings = frame_with_data Settings 0 (bytes_of ''v=2'')"

definition demo_frames :: "frame list" where
  "demo_frames = [data_frame 5 [1, 2], data_frame 6 [7], data_frame 5 [3]]"

definition demo_wire :: "byte list" where
  "demo_wire = concat (map (\<lambda>f. frame_bytes f) (frame_control Syn 5 # demo_frames @ [frame_control Fin 5]))"

definition demo_reads :: "script_item list" where
  "demo_reads = [Chunk (take 3 demo_wire), Wait, Chunk (drop 3 demo_wire)]"

definition demo_authenticated :: "byte list session" where
  "demo_authenticated = new_server_with_initial_data [] demo_padding True ''user'' (Some (frame_bytes demo_settings))"

lemma demo_reads_calm: "calm demo_reads"
proof -
  have "3 < length demo_wire" by (simp add: demo_wire_def)
  then show ?thesis by (auto simp: calm_def script_inv_def demo_reads_def)
qed

lemma demo_reads_content:
  "frame_bytes demo_settings @ script_content demo_reads
     = concat (map (\<lambda>f. frame_bytes f) (demo_settings # [] @ frame_control Syn 5 # demo_frames @ [frame_control Fin 5]))"
  by (simp add: demo_reads_def demo_wire_def)

lemma demo_frames_ok:
  "fr_cmd demo_settings = Settings" "\<forall>f \<in> set (demo_settings # [] @ demo_frames). frame_ok f"
  "\<forall>f \<in> set ([] @ demo_frames). fr_cmd f \<noteq> Alert" "\<forall>f \<in> set demo_frames. \<not> (fr_cmd f = Fin \<and> fr_stream_id f = 5)"
  "concat (map fr_data (filter (\<lambda>f. fr_cmd f = Psh \<and> fr_stream_id f = 5) demo_frames)) = [1, 2, 3]"
  by (simp_all add: demo_settings_def demo_frames_def data_frame_def frame_with_data_def frame_ok_def bytes_of_def)

theorem client_bytes_reach_stream_witness:
  "\<exists>s' se'. recv_loop vec_env script_read (\<lambda>_. 64) demo_reads demo_authenticated = Some (Ok (), s', se') \<and>
    (\<exists>stream \<in> set (se_spawned se'). as_id stream = 5 \<and>
       stream_content (\<lambda>c. ch_msgs (se_channels se' c)) stream = [1, 2, 3])"
  using client_bytes_reach_stream [where room = "\<lambda>_. 64", OF vec_session.healthy_writer_axioms
      calm_script.byte_source_axioms demo_reads_calm _ demo_authenticated_def demo_reads_content demo_frames_ok(1-3) _
      demo_frames_ok(4)]
  unfolding demo_frames_ok(5) by simp

end
